(* ===== verification/Prelude.thy ===== *)
theory Prelude
  imports "HOL-Library.Word"
begin

text \<open>
  The vocabulary shared by every component: machine words, the byte memory of one mapped
  segment, the little-endian object representation of the integers kept in it, alignment
  arithmetic, and the power-of-two index mask.

  A shared segment is addressed by the byte offset from \<open>shm_.get()\<close>. An object of a
  \<open>FlatType\<close> is its object representation, a list of \<open>sizeof\<close> bytes: that is all that
  \<open>memcpy\<close> ever moves.
\<close>

unbundle bit_operations_syntax

section \<open>Types and collections\<close>

type_synonym byte = "8 word"
type_synonym u32 = "32 word"
type_synonym u64 = "64 word"
type_synonym mem = "nat \<Rightarrow> byte"

named_theorems mem_simps \<open>loads after stores\<close>
named_theorems layout_simps \<open>offsets and sizes of shared-memory layouts\<close>
named_theorems layout_defs \<open>definitions of the layout constants\<close>

section \<open>Object representation of integers\<close>

definition byte_of :: "'a::len word \<Rightarrow> nat \<Rightarrow> byte" where
  "byte_of w i = ucast (drop_bit (8 * i) w)"

definition le_bytes :: "nat \<Rightarrow> 'a::len word \<Rightarrow> byte list" where
  "le_bytes n w = map (byte_of w) [0..<n]"

fun le_word :: "byte list \<Rightarrow> 'a::len word" where
  "le_word [] = 0"
| "le_word (b # bs) = ucast b OR push_bit 8 (le_word bs)"

lemma length_le_bytes [simp]: "length (le_bytes n w) = n"
  by (simp add: le_bytes_def)

lemma nth_le_bytes [simp]: "i < n \<Longrightarrow> le_bytes n w ! i = byte_of w i"
  by (simp add: le_bytes_def)

lemma bit_byte_of: "bit (byte_of w i) k \<longleftrightarrow> k < 8 \<and> bit w (8 * i + k)"
  by (simp add: byte_of_def bit_simps)

lemma bit_le_word:
  "bit (le_word bs :: 'a::len word) i \<longleftrightarrow>
     i < LENGTH('a) \<and> i < 8 * length bs \<and> bit (bs ! (i div 8)) (i mod 8)"
proof (induction bs arbitrary: i)
  case Nil
  then show ?case by simp
next
  case (Cons b bs)
  show ?case
  proof (cases "i < 8")
    case True
    then show ?thesis by (auto simp: bit_simps)
  next
    case False
    then have "i div 8 = Suc ((i - 8) div 8)" and "i mod 8 = (i - 8) mod 8"
      by (simp_all add: le_div_geq le_mod_geq)
    with False Cons.IH [of "i - 8"] show ?thesis
      by (auto simp: bit_simps dest: bit_imp_le_length)
  qed
qed

lemma le_word_le_bytes [simp]:
  assumes "LENGTH('a) \<le> 8 * n"
  shows "le_word (le_bytes n (w :: 'a::len word)) = w"
proof (rule bit_word_eqI)
  fix i assume i: "i < LENGTH('a)"
  with assms have "i div 8 < n" by auto
  with i assms show "bit (le_word (le_bytes n w) :: 'a word) i \<longleftrightarrow> bit w i"
    by (auto simp: bit_le_word bit_byte_of)
qed

lemma le_bytes_le_word [simp]:
  assumes "8 * length bs \<le> LENGTH('a)"
  shows "le_bytes (length bs) (le_word bs :: 'a::len word) = bs"
proof (rule nth_equalityI)
  fix i assume "i < length (le_bytes (length bs) (le_word bs :: 'a word))"
  then have i: "i < length bs" by simp
  show "le_bytes (length bs) (le_word bs :: 'a word) ! i = bs ! i"
  proof (rule bit_word_eqI)
    fix k assume "k < LENGTH(8)"
    then have k: "k < 8" by simp
    with i have "8 * i + k < 8 * length bs" by simp
    with k i assms show "bit (le_bytes (length bs) (le_word bs :: 'a word) ! i) k \<longleftrightarrow> bit (bs ! i) k"
      by (simp add: bit_byte_of bit_le_word)
  qed
qed simp

section \<open>Byte memory\<close>

definition load_bytes :: "mem \<Rightarrow> nat \<Rightarrow> nat \<Rightarrow> byte list" where
  "load_bytes m a n = map (\<lambda>i. m (a + i)) [0..<n]"

definition store_bytes :: "byte list \<Rightarrow> nat \<Rightarrow> mem \<Rightarrow> mem" where
  "store_bytes bs a m = (\<lambda>x. if a \<le> x \<and> x < a + length bs then bs ! (x - a) else m x)"

definition load_u32 :: "mem \<Rightarrow> nat \<Rightarrow> u32" where
  "load_u32 m a = le_word (load_bytes m a 4)"

definition load_u64 :: "mem \<Rightarrow> nat \<Rightarrow> u64" where
  "load_u64 m a = le_word (load_bytes m a 8)"

definition store_u32 :: "u32 \<Rightarrow> nat \<Rightarrow> mem \<Rightarrow> mem" where
  "store_u32 v a m = store_bytes (le_bytes 4 v) a m"

definition store_u64 :: "u64 \<Rightarrow> nat \<Rightarrow> mem \<Rightarrow> mem" where
  "store_u64 v a m = store_bytes (le_bytes 8 v) a m"

text \<open>Two byte ranges, given by start and length, that share no byte.\<close>

definition disjoint_range :: "nat \<Rightarrow> nat \<Rightarrow> nat \<Rightarrow> nat \<Rightarrow> bool" where
  "disjoint_range a n b k \<longleftrightarrow> a + n \<le> b \<or> b + k \<le> a"

lemma length_load_bytes [simp]: "length (load_bytes m a n) = n"
  by (simp add: load_bytes_def)

lemma nth_load_bytes [simp]: "i < n \<Longrightarrow> load_bytes m a n ! i = m (a + i)"
  by (simp add: load_bytes_def)

lemma load_bytes_cong:
  "(\<And>x. a \<le> x \<Longrightarrow> x < a + n \<Longrightarrow> m x = m' x) \<Longrightarrow> load_bytes m a n = load_bytes m' a n"
  by (simp add: load_bytes_def)

lemma load_bytes_same [mem_simps]:
  "length bs = n \<Longrightarrow> load_bytes (store_bytes bs a m) a n = bs"
  by (rule nth_equalityI) (simp_all add: store_bytes_def)

lemma load_bytes_other [mem_simps]:
  "disjoint_range a (length bs) b n \<Longrightarrow>
     load_bytes (store_bytes bs a m) b n = load_bytes m b n"
  by (rule load_bytes_cong) (auto simp: store_bytes_def disjoint_range_def)

lemma load_store_u32_same [mem_simps]: "load_u32 (store_u32 v a m) a = v"
  by (simp add: load_u32_def store_u32_def mem_simps)

lemma load_store_u64_same [mem_simps]: "load_u64 (store_u64 v a m) a = v"
  by (simp add: load_u64_def store_u64_def mem_simps)

lemma load_u32_other [mem_simps]:
  "disjoint_range a (length bs) b 4 \<Longrightarrow> load_u32 (store_bytes bs a m) b = load_u32 m b"
  "disjoint_range a 4 b 4 \<Longrightarrow> load_u32 (store_u32 v a m) b = load_u32 m b"
  "disjoint_range a 8 b 4 \<Longrightarrow> load_u32 (store_u64 w a m) b = load_u32 m b"
  by (simp_all add: load_u32_def store_u32_def store_u64_def mem_simps)

lemma load_u64_other [mem_simps]:
  "disjoint_range a (length bs) b 8 \<Longrightarrow> load_u64 (store_bytes bs a m) b = load_u64 m b"
  "disjoint_range a 4 b 8 \<Longrightarrow> load_u64 (store_u32 v a m) b = load_u64 m b"
  "disjoint_range a 8 b 8 \<Longrightarrow> load_u64 (store_u64 w a m) b = load_u64 m b"
  by (simp_all add: load_u64_def store_u32_def store_u64_def mem_simps)

lemma load_bytes_store_word [mem_simps]:
  "disjoint_range a 4 b n \<Longrightarrow> load_bytes (store_u32 v a m) b n = load_bytes m b n"
  "disjoint_range a 8 b n \<Longrightarrow> load_bytes (store_u64 w a m) b n = load_bytes m b n"
  by (simp_all add: store_u32_def store_u64_def mem_simps)

lemma load_u32_cong:
  "(\<And>x. a \<le> x \<Longrightarrow> x < a + 4 \<Longrightarrow> m x = m' x) \<Longrightarrow> load_u32 m a = load_u32 m' a"
  unfolding load_u32_def by (rule arg_cong [OF load_bytes_cong])

lemma load_u64_cong:
  "(\<And>x. a \<le> x \<Longrightarrow> x < a + 8 \<Longrightarrow> m x = m' x) \<Longrightarrow> load_u64 m a = load_u64 m' a"
  unfolding load_u64_def by (rule arg_cong [OF load_bytes_cong])

text \<open>A freshly truncated segment reads as zero.\<close>

definition zero_mem :: mem where
  "zero_mem = (\<lambda>_. 0)"

lemma le_word_zero: "(\<And>b. b \<in> set bs \<Longrightarrow> b = 0) \<Longrightarrow> le_word bs = 0"
  by (induction bs) fastforce+

lemma load_zero_mem [simp]: "load_u32 zero_mem a = 0" "load_u64 zero_mem a = 0"
  by (auto simp: load_u32_def load_u64_def zero_mem_def load_bytes_def intro!: le_word_zero)

lemma load_bytes_zero_mem [simp]: "load_bytes zero_mem a n = replicate n 0"
  by (auto simp: load_bytes_def zero_mem_def intro!: nth_equalityI)

section \<open>Alignment and the power-of-two mask\<close>

text \<open>\<open>(n + a - 1) & ~(a - 1)\<close>, the rounding every layout of the library uses.\<close>

definition align_up :: "nat \<Rightarrow> nat \<Rightarrow> nat" where
  "align_up n a = nat ((int n + int a - 1) AND NOT (int a - 1))"

text \<open>The compile-time check \<open>N > 0 && (N & (N - 1)) == 0\<close>.\<close>

definition is_pow2 :: "nat \<Rightarrow> bool" where
  "is_pow2 n \<longleftrightarrow> 0 < n \<and> n AND (n - 1) = 0"

lemma and_pred_pow2: "(2 ^ k :: nat) AND (2 ^ k - 1) = 0"
proof -
  have "(2 ^ k :: nat) AND mask k = 0"
    by (simp flip: take_bit_eq_mask)
  then show ?thesis by (simp add: mask_eq_exp_minus_1)
qed

lemma and_pred_even: "0 < n \<Longrightarrow> even n \<Longrightarrow> n AND (n - 1) = 2 * (n div 2 AND (n div 2 - 1))"
  for n :: nat
proof -
  assume "0 < n" and "even n"
  then have "(n - 1) div 2 = n div 2 - 1" by presburger
  with \<open>even n\<close> show ?thesis by (subst and_nat_rec) simp
qed

lemma and_pred_odd: "odd n \<Longrightarrow> n AND (n - 1) = n - 1" for n :: nat
proof -
  assume "odd n"
  then obtain m where m: "n = Suc (2 * m)" by (auto elim: oddE)
  then have "n AND (n - 1) = 2 * (m AND m)"
    by (subst and_nat_rec) simp
  with m show ?thesis by simp
qed

lemma is_pow2_imp_power: "is_pow2 n \<Longrightarrow> \<exists>k. n = 2 ^ k"
proof (induction n rule: less_induct)
  case (less n)
  then have n: "0 < n" "n AND (n - 1) = 0"
    by (simp_all add: is_pow2_def)
  show ?case
  proof (cases "even n")
    case True
    with n have "is_pow2 (n div 2)"
      using and_pred_even [of n] by (auto simp: is_pow2_def elim: evenE)
    moreover have "n div 2 < n" using n by simp
    ultimately obtain k where "n div 2 = 2 ^ k" using less.IH by blast
    with True have "n = 2 ^ Suc k" by (auto elim: evenE)
    then show ?thesis by blast
  next
    case False
    with n have "n = 2 ^ 0" using and_pred_odd [of n] by simp
    then show ?thesis by blast
  qed
qed

lemma is_pow2_iff: "is_pow2 n \<longleftrightarrow> (\<exists>k. n = 2 ^ k)"
proof
  assume "\<exists>k. n = 2 ^ k"
  then show "is_pow2 n" using and_pred_pow2 by (auto simp: is_pow2_def)
qed (rule is_pow2_imp_power)

lemma is_pow2_pos: "is_pow2 n \<Longrightarrow> 0 < n"
  by (simp add: is_pow2_def)

lemma align_up_pow2: "align_up n (2 ^ k) = (n + 2 ^ k - 1) div 2 ^ k * 2 ^ k"
proof -
  have "(int n + 2 ^ k - 1) AND NOT (mask k) = push_bit k (drop_bit k (int n + 2 ^ k - 1))"
    by (rule bit_eqI) (auto simp: bit_simps)
  then have "(int n + 2 ^ k - 1) AND NOT (mask k) = (int n + 2 ^ k - 1) div 2 ^ k * 2 ^ k"
    by (simp add: push_bit_eq_mult drop_bit_eq_div)
  moreover have "int n + 2 ^ k - 1 = int (n + 2 ^ k - 1)"
    by (subst of_nat_diff) (auto simp: Suc_le_eq)
  ultimately have "(int n + int (2 ^ k) - 1) AND NOT (int (2 ^ k) - 1)
      = int ((n + 2 ^ k - 1) div 2 ^ k * 2 ^ k)"
    by (simp add: mask_eq_exp_minus_1 zdiv_int)
  then show ?thesis unfolding align_up_def by (simp only: nat_int)
qed

lemma align_up_eq: "is_pow2 a \<Longrightarrow> align_up n a = (n + a - 1) div a * a"
  by (auto simp: is_pow2_iff align_up_pow2)

lemma dvd_align_up: "is_pow2 a \<Longrightarrow> a dvd align_up n a"
  by (simp add: align_up_eq)

lemma align_up_ge: "is_pow2 a \<Longrightarrow> n \<le> align_up n a"
proof -
  assume a: "is_pow2 a"
  then have "0 < a" by (rule is_pow2_pos)
  then have "n + a - 1 < (n + a - 1) div a * a + a"
    by (metis div_mult_mod_eq mod_less_divisor nat_add_left_cancel_less)
  with a \<open>0 < a\<close> show ?thesis by (simp add: align_up_eq)
qed

lemma align_up_less: "is_pow2 a \<Longrightarrow> align_up n a < n + a"
proof -
  assume a: "is_pow2 a"
  then have "0 < a" by (rule is_pow2_pos)
  have "(n + a - 1) div a * a \<le> n + a - 1" by simp
  with \<open>0 < a\<close> have "(n + a - 1) div a * a < n + a" by linarith
  with a show ?thesis by (simp add: align_up_eq)
qed

lemma align_up_1 [simp]: "align_up n 1 = n" "align_up n (Suc 0) = n"
  by (simp_all add: align_up_def)

text \<open>\<open>x & (N - 1)\<close> is \<open>x mod N\<close> when \<open>N\<close> is a power of two that fits the word.\<close>

lemma unat_and_mask:
  fixes x :: "'a::len word"
  assumes "k < LENGTH('a)" and "n = 2 ^ k"
  shows "unat (x AND (of_nat n - 1)) = unat x mod n"
proof -
  have "of_nat n - 1 = (mask k :: 'a word)"
    using assms by (simp add: mask_eq_exp_minus_1)
  then have "unat (x AND (of_nat n - 1)) = unat (take_bit k x)"
    by (simp add: take_bit_eq_mask)
  also have "\<dots> = unat x mod 2 ^ k"
    unfolding unsigned_take_bit_eq by (rule take_bit_eq_mod)
  finally show ?thesis using assms by simp
qed

lemma even_unat_iff [simp]: "even (unat w) \<longleftrightarrow> even w" for w :: "'a::len word"
  using bit_unsigned_iff [of w 0, where 'a = nat] by (simp add: bit_0)

lemma and_1_eq_0_iff [simp]: "w AND 1 = 0 \<longleftrightarrow> even w" for w :: "'a::len word"
  by (simp add: and_one_eq even_iff_mod_2_eq_zero)

end
