(* ===== verification/Shared_Access.thy ===== *)
theory Shared_Access
  imports Prelude
begin

text \<open>
  How code of the library touches a shared segment, and what an interleaving is.

  A writer's operation is the list of its accesses to the segment in program order: atomic
  stores, the byte copies of \<open>memcpy\<close>, and the futex wake. A run of one writer is the
  concatenation of its operations' accesses, and the memory at time \<open>t\<close> is what the first
  \<open>t\<close> accesses leave behind (\<open>hist\<close>). A reader never writes, so any number of readers
  run independently of each other: the \<open>k\<close>-th access of one reader sees the memory at some
  time \<open>clk k\<close>, and every interleaving is one non-decreasing clock. Reader operations are
  therefore defined over a \<open>view\<close>, the memory seen by each access, with the index of the
  next access threaded through.

  The locale \<open>seqlock_history\<close> is the contract between a sequence-counter writer and its
  readers. It is met by the single seqlock and by every slot of the cyclic buffer.
\<close>

section \<open>Accesses of a writer\<close>

datatype act =
    Store32 nat u32     \<comment> \<open>atomic 32-bit store at an offset\<close>
  | Store64 nat u64     \<comment> \<open>atomic 64-bit store at an offset\<close>
  | CopyByte nat byte   \<comment> \<open>one byte of a \<open>memcpy\<close> into the segment\<close>
  | FutexWake nat       \<comment> \<open>\<open>FUTEX_WAKE\<close> of every waiter on a word\<close>

fun exec_act :: "act \<Rightarrow> mem \<Rightarrow> mem" where
  "exec_act (Store32 a v) m = store_u32 v a m"
| "exec_act (Store64 a v) m = store_u64 v a m"
| "exec_act (CopyByte a b) m = m(a := b)"
| "exec_act (FutexWake a) m = m"

definition exec_acts :: "act list \<Rightarrow> mem \<Rightarrow> mem" where
  "exec_acts as m = fold exec_act as m"

fun memcpy_acts :: "nat \<Rightarrow> byte list \<Rightarrow> act list" where
  "memcpy_acts a [] = []"
| "memcpy_acts a (b # bs) = CopyByte a b # memcpy_acts (Suc a) bs"

lemma exec_acts_simps [simp]:
  "exec_acts [] m = m"
  "exec_acts (x # xs) m = exec_acts xs (exec_act x m)"
  "exec_acts (xs @ ys) m = exec_acts ys (exec_acts xs m)"
  by (simp_all add: exec_acts_def)

lemma length_memcpy_acts [simp]: "length (memcpy_acts a bs) = length bs"
  by (induction bs arbitrary: a) auto

lemma take_memcpy_acts [simp]: "take k (memcpy_acts a bs) = memcpy_acts a (take k bs)"
  by (induction bs arbitrary: a k) (auto simp: take_Cons split: nat.split)

lemma store_bytes_Nil [simp]: "store_bytes [] a m = m"
  by (rule ext) (auto simp: store_bytes_def)

lemma store_bytes_Cons: "store_bytes (b # bs) a m = store_bytes bs (Suc a) (m(a := b))"
proof
  fix x
  have "x - a - 1 = x - Suc a" by simp
  then show "store_bytes (b # bs) a m x = store_bytes bs (Suc a) (m(a := b)) x"
    by (auto simp: store_bytes_def nth_Cons')
qed

lemma exec_memcpy_acts [simp]: "exec_acts (memcpy_acts a bs) m = store_bytes bs a m"
  by (induction bs arbitrary: a m) (auto simp: store_bytes_Cons)

text \<open>The bytes an access reads or writes.\<close>

fun touched :: "act \<Rightarrow> nat set" where
  "touched (Store32 a v) = {a..<a + 4}"
| "touched (Store64 a v) = {a..<a + 8}"
| "touched (CopyByte a b) = {a}"
| "touched (FutexWake a) = {a..<a + 4}"

lemma touched_memcpy: "x \<in> set (memcpy_acts a bs) \<Longrightarrow> touched x \<subseteq> {a..<a + length bs}"
  by (induction bs arbitrary: a) fastforce+

section \<open>Runs of one writer\<close>

fun trace :: "('o \<Rightarrow> mem \<Rightarrow> act list) \<Rightarrow> 'o list \<Rightarrow> mem \<Rightarrow> act list" where
  "trace f [] m = []"
| "trace f (x # xs) m = f x m @ trace f xs (exec_acts (f x m) m)"

fun exec_ops :: "('o \<Rightarrow> mem \<Rightarrow> act list) \<Rightarrow> 'o list \<Rightarrow> mem \<Rightarrow> mem" where
  "exec_ops f [] m = m"
| "exec_ops f (x # xs) m = exec_ops f xs (exec_acts (f x m) m)"

definition hist :: "('o \<Rightarrow> mem \<Rightarrow> act list) \<Rightarrow> 'o list \<Rightarrow> mem \<Rightarrow> nat \<Rightarrow> mem" where
  "hist f xs m t = exec_acts (take t (trace f xs m)) m"

lemma hist_0 [simp]: "hist f xs m 0 = m"
  by (simp add: hist_def)

lemma hist_Nil [simp]: "hist f [] m t = m"
  by (simp add: hist_def)

lemma hist_Cons:
  "hist f (x # xs) m t =
     (if t \<le> length (f x m) then exec_acts (take t (f x m)) m
      else hist f xs (exec_acts (f x m) m) (t - length (f x m)))"
  by (simp add: hist_def)

lemma exec_trace: "exec_acts (trace f xs m) m = exec_ops f xs m"
  by (induction xs arbitrary: m) auto

lemma hist_end: "length (trace f xs m) \<le> t \<Longrightarrow> hist f xs m t = exec_ops f xs m"
  by (simp add: hist_def exec_trace)

lemma exec_ops_append [simp]: "exec_ops f (xs @ ys) m = exec_ops f ys (exec_ops f xs m)"
  by (induction xs arbitrary: m) auto

lemma length_trace:
  "(\<And>x m. x \<in> set xs \<Longrightarrow> length (f x m) = k) \<Longrightarrow> length (trace f xs m) = k * length xs"
  by (induction xs arbitrary: m) auto

section \<open>Accesses of a reader\<close>

text \<open>A \<open>memcpy\<close> out of the segment: byte \<open>i\<close> is read by access \<open>c + i\<close>.\<close>

definition read_bytes :: "(nat \<Rightarrow> mem) \<Rightarrow> nat \<Rightarrow> nat \<Rightarrow> nat \<Rightarrow> byte list" where
  "read_bytes view c a n = map (\<lambda>i. view (c + i) (a + i)) [0..<n]"

lemma length_read_bytes [simp]: "length (read_bytes view c a n) = n"
  by (simp add: read_bytes_def)

lemma read_bytes_const [simp]: "read_bytes (\<lambda>_. m) c a n = load_bytes m a n"
  by (simp add: read_bytes_def load_bytes_def)

lemma read_bytes_stable:
  assumes "length bs = n" and "\<And>i. i < n \<Longrightarrow> load_bytes (view (c + i)) a n = bs"
  shows "read_bytes view c a n = bs"
proof (rule nth_equalityI)
  show "length (read_bytes view c a n) = length bs"
    using assms(1) by simp
  fix i assume "i < length (read_bytes view c a n)"
  then have i: "i < n" by simp
  then have "view (c + i) (a + i) = load_bytes (view (c + i)) a n ! i" by simp
  also have "\<dots> = bs ! i" using assms(2) [OF i] by simp
  finally show "read_bytes view c a n ! i = bs ! i"
    using i by (simp add: read_bytes_def)
qed

section \<open>Futex and timeout\<close>

text \<open>
  The kernel's answer to \<open>FUTEX_WAIT\<close>. The kernel itself is a parameter \<open>futex\<close> of the
  readers that sleep: its answer to access number \<open>k\<close> may depend on the word, the expected
  value and the timeout. \<open>futex_spec\<close> states what \<^verbatim>\<open>futex(2)\<close> documents: a word that
  differs from the expected value is reported at once, and a wait without a timeout does not
  time out.
\<close>

datatype futex_rc = FutexWoken | FutexEAGAIN | FutexEINTR | FutexETIMEDOUT

record timespec =
  tv_sec :: int
  tv_nsec :: int

type_synonym futex = "nat \<Rightarrow> u32 \<Rightarrow> u32 \<Rightarrow> timespec option \<Rightarrow> futex_rc"

definition futex_spec :: "futex \<Rightarrow> bool" where
  "futex_spec futex \<longleftrightarrow>
     (\<forall>k v e ts. v \<noteq> e \<longrightarrow> futex k v e ts = FutexEAGAIN) \<and>
     (\<forall>k v e. futex k v e None \<noteq> FutexETIMEDOUT)"

definition timespec_of :: "u64 \<Rightarrow> timespec" where
  "timespec_of ns = \<lparr>tv_sec = sint (ns div 1000000000), tv_nsec = sint (ns mod 1000000000)\<rparr>"

lemma u64_div_mod_1e9:
  "uint ((ns :: u64) div 1000000000) = uint ns div 1000000000"
  "uint ((ns :: u64) mod 1000000000) = uint ns mod 1000000000"
  by (simp_all add: uint_div uint_mod)

lemma sint_small: "uint (w :: u64) < 2 ^ 63 \<Longrightarrow> sint w = uint w"
proof -
  assume "uint w < 2 ^ 63"
  moreover have "- (2 ^ 63) \<le> uint w"
    by (rule order_trans [of _ 0]) simp_all
  ultimately have "signed_take_bit 63 (uint w) = uint w"
    by (intro signed_take_bit_int_eq_self)
  then show ?thesis by (simp add: sint_uint)
qed

lemma timespec_of_nat:
  "timespec_of ns = \<lparr>tv_sec = int (unat ns div 10 ^ 9), tv_nsec = int (unat ns mod 10 ^ 9)\<rparr>"
proof -
  have "uint (ns div 1000000000) < 2 ^ 63" "uint (ns mod 1000000000) < 2 ^ 63"
    using uint_bounded [of ns] by (simp_all add: u64_div_mod_1e9)
  then show ?thesis
    by (simp add: timespec_of_def sint_small u64_div_mod_1e9 zdiv_int zmod_int)
qed

lemma futex_timed_outD:
  assumes "futex_spec futex" and "futex k v e ts = FutexETIMEDOUT"
  shows "v = e" and "ts \<noteq> None"
  using assms unfolding futex_spec_def by (metis futex_rc.distinct)+

section \<open>Contract of a sequence-counter history\<close>

text \<open>
  \<open>h\<close> is a run of the writer. \<open>mem_at h t\<close> is the segment at time \<open>t\<close>; the counter is the
  word at \<open>seq_addr h\<close>, the guarded object the \<open>pay_len h\<close> bytes at \<open>pay_addr h\<close>.
  \<open>ver h t\<close> is the unbounded number the 32-bit counter stands for and \<open>published h v\<close> the
  object published under the even number \<open>v\<close>.
\<close>

locale seqlock_history =
  fixes invar :: "'h \<Rightarrow> bool"
    and mem_at :: "'h \<Rightarrow> nat \<Rightarrow> mem"
    and seq_addr :: "'h \<Rightarrow> nat"
    and pay_addr :: "'h \<Rightarrow> nat"
    and pay_len :: "'h \<Rightarrow> nat"
    and ver :: "'h \<Rightarrow> nat \<Rightarrow> nat"
    and published :: "'h \<Rightarrow> nat \<Rightarrow> byte list"
  assumes ver_mono: "invar h \<Longrightarrow> t \<le> u \<Longrightarrow> ver h t \<le> ver h u"
    and seq_ver: "invar h \<Longrightarrow> load_u32 (mem_at h t) (seq_addr h) = of_nat (ver h t)"
    and pay_even: "invar h \<Longrightarrow> even (ver h t) \<Longrightarrow>
          load_bytes (mem_at h t) (pay_addr h) (pay_len h) = published h (ver h t)"
begin

lemma seq_even_iff: "invar h \<Longrightarrow> even (load_u32 (mem_at h t) (seq_addr h)) \<longleftrightarrow> even (ver h t)"
  by (simp add: seq_ver)

lemma seq_eq_imp_ver_eq:
  assumes "invar h" and "t \<le> u"
    and "load_u32 (mem_at h t) (seq_addr h) = load_u32 (mem_at h u) (seq_addr h)"
    and "ver h u < ver h t + 2 ^ 32"
  shows "ver h t = ver h u"
proof -
  have "(of_nat (ver h t) :: u32) = of_nat (ver h u)"
    using assms by (simp add: seq_ver)
  then have "unat (of_nat (ver h t) :: u32) = unat (of_nat (ver h u) :: u32)"
    by simp
  then have "ver h t mod 2 ^ 32 = ver h u mod 2 ^ 32"
    by (simp add: unat_of_nat)
  moreover have "ver h t \<le> ver h u"
    using assms by (simp add: ver_mono)
  ultimately have "(2::nat) ^ 32 dvd ver h u - ver h t"
    by (metis mod_eq_dvd_iff_nat)
  with assms(4) \<open>ver h t \<le> ver h u\<close> show ?thesis
    by (metis add.commute diff_is_0_eq dvd_imp_le le_antisym less_diff_conv2 linorder_not_le zero_less_diff)
qed

text \<open>One pass of a reader's retry loop: equal even counters around the copy mean the copy
  is a published object.\<close>

lemma attempt_consistent:
  assumes "invar h" and "mono clk"
    and before: "even (load_u32 (mem_at h (clk c)) (seq_addr h))"
    and same: "load_u32 (mem_at h (clk c)) (seq_addr h) =
               load_u32 (mem_at h (clk (Suc c + pay_len h))) (seq_addr h)"
    and no_lap: "ver h (clk (Suc c + pay_len h)) < ver h (clk c) + 2 ^ 32"
  shows "read_bytes (mem_at h \<circ> clk) (Suc c) (pay_addr h) (pay_len h) = published h (ver h (clk c))"
    and "ver h (clk (Suc c + pay_len h)) = ver h (clk c)"
    and "even (ver h (clk c))"
proof -
  have le: "clk c \<le> clk (Suc c + pay_len h)"
    using \<open>mono clk\<close> by (rule monoD) simp
  show eq: "ver h (clk (Suc c + pay_len h)) = ver h (clk c)"
    using seq_eq_imp_ver_eq [OF \<open>invar h\<close> le same no_lap] by simp
  show ev: "even (ver h (clk c))"
    using before \<open>invar h\<close> by (simp add: seq_even_iff)
  show "read_bytes (mem_at h \<circ> clk) (Suc c) (pay_addr h) (pay_len h) = published h (ver h (clk c))"
  proof (rule read_bytes_stable)
    show "length (published h (ver h (clk c))) = pay_len h"
      using pay_even [OF \<open>invar h\<close> ev] by (metis length_load_bytes)
  next
    fix i assume "i < pay_len h"
    then have "clk c \<le> clk (Suc c + i)" and "clk (Suc c + i) \<le> clk (Suc c + pay_len h)"
      using \<open>mono clk\<close> by (auto intro: monoD)
    then have "ver h (clk (Suc c + i)) = ver h (clk c)"
      using ver_mono [OF \<open>invar h\<close>] eq by (metis le_antisym)
    then show "load_bytes ((mem_at h \<circ> clk) (Suc c + i)) (pay_addr h) (pay_len h)
        = published h (ver h (clk c))"
      using pay_even [OF \<open>invar h\<close>] ev by (metis comp_apply)
  qed
qed

end

end
