(* ===== verification/Flat_Type.thy ===== *)
theory Flat_Type
  imports Prelude
begin

text \<open>
  Template arguments of the library: an object type \<open>T\<close> is its size, its alignment and the
  two type traits that the concept \<open>FlatType\<close> (\<^verbatim>\<open>flat_type.hpp\<close>) tests.
  \<open>wf_ctype\<close> is what the language guarantees of every complete object type.
\<close>

record ctype =
  sizeof :: nat
  alignof :: nat
  trivially_copyable :: bool
  standard_layout :: bool
  value_init :: "byte list"  \<comment> \<open>the object \<open>T{}\<close>\<close>

definition FlatType :: "ctype \<Rightarrow> bool" where
  "FlatType T \<longleftrightarrow> trivially_copyable T \<and> standard_layout T"

definition wf_ctype :: "ctype \<Rightarrow> bool" where
  "wf_ctype T \<longleftrightarrow> is_pow2 (alignof T) \<and> alignof T dvd sizeof T \<and> 0 < sizeof T \<and>
     length (value_init T) = sizeof T"

abbreviation flat :: "nat \<Rightarrow> nat \<Rightarrow> ctype" where
  "flat n a \<equiv> \<lparr>sizeof = n, alignof = a, trivially_copyable = True, standard_layout = True,
     value_init = replicate n 0\<rparr>"

lemma wf_ctypeD:
  assumes "wf_ctype T"
  shows "is_pow2 (alignof T)" "alignof T dvd sizeof T" "0 < sizeof T"
    "length (value_init T) = sizeof T"
  using assms by (simp_all add: wf_ctype_def)

text \<open>An object of type \<open>T\<close>: its object representation.\<close>

definition object_of :: "ctype \<Rightarrow> byte list \<Rightarrow> bool" where
  "object_of T bs \<longleftrightarrow> length bs = sizeof T"

end
