(* ===== verification/Seqlock.thy ===== *)
theory Seqlock
  imports Shared_Access Flat_Type
begin

text \<open>
  \<^verbatim>\<open>seqlock.hpp\<close>: one object guarded by a 32-bit sequence counter. The counter is odd while a
  store is in progress. The theory holds the segment layout, the writer (\<open>SeqlockWriter\<close>), the
  reader (\<open>SeqlockReader\<close>) with its retry and its blocking loop, and the combined class
  \<open>Seqlock\<close>, whose methods are written out a second time in the header.
\<close>

section \<open>Layout\<close>

definition SeqlockRegion_seq_size :: nat where
  "SeqlockRegion_seq_size = 4"

definition SeqlockRegion_data_offset :: "ctype \<Rightarrow> nat" where
  "SeqlockRegion_data_offset T = align_up SeqlockRegion_seq_size (alignof T)"

definition SeqlockRegion_total_size :: "ctype \<Rightarrow> nat" where
  "SeqlockRegion_total_size T = SeqlockRegion_data_offset T + sizeof T"

definition SeqlockWriter_seq :: nat where
  "SeqlockWriter_seq = 0"

definition SeqlockWriter_payload :: "ctype \<Rightarrow> nat" where
  "SeqlockWriter_payload T = 0 + SeqlockRegion_data_offset T"

definition SeqlockReader_seq :: nat where
  "SeqlockReader_seq = 0"

definition SeqlockReader_payload :: "ctype \<Rightarrow> nat" where
  "SeqlockReader_payload T = 0 + SeqlockRegion_data_offset T"

lemmas seqlock_layout_defs [layout_defs] =
  SeqlockRegion_seq_size_def SeqlockRegion_data_offset_def SeqlockRegion_total_size_def
  SeqlockWriter_seq_def SeqlockWriter_payload_def SeqlockReader_seq_def SeqlockReader_payload_def

section \<open>Writer\<close>

text \<open>The accesses of \<open>store(data)\<close> on a segment that holds \<open>m\<close>.\<close>

definition SeqlockWriter_store :: "ctype \<Rightarrow> byte list \<Rightarrow> mem \<Rightarrow> act list" where
  "SeqlockWriter_store T data m =
     (let s = SeqlockWriter_seq;
          cur = load_u32 m s
      in [Store32 s (cur + 1)]
         @ memcpy_acts (SeqlockWriter_payload T) data
         @ [Store32 s (cur + 2), FutexWake s])"

section \<open>Reader\<close>

text \<open>
  \<open>load\<close> is an unbounded retry loop, so not returning is the value \<open>None\<close>. The result
  is the object read and the index of the reader's next access.
\<close>

partial_function (option) SeqlockReader_load ::
    "ctype \<Rightarrow> (nat \<Rightarrow> mem) \<Rightarrow> nat \<Rightarrow> (byte list \<times> nat) option" where
  "SeqlockReader_load T view c =
     (let s = SeqlockReader_seq;
          before = load_u32 (view c) s
      in if before AND 1 \<noteq> 0 then SeqlockReader_load T view (c + 1)
         else
           let result = read_bytes view (c + 1) (SeqlockReader_payload T) (sizeof T);
               after = load_u32 (view (c + 1 + sizeof T)) s
           in if before = after then Some (result, c + 2 + sizeof T)
              else SeqlockReader_load T view (c + 2 + sizeof T))"

text \<open>
  \<open>load_blocking(last_seq, timeout_ns)\<close>. The result is the returned optional, the updated
  reference argument \<open>last_seq\<close> and the next access. The kernel is the parameter \<open>futex\<close>.
\<close>

partial_function (option) SeqlockReader_load_blocking ::
    "ctype \<Rightarrow> futex \<Rightarrow> (nat \<Rightarrow> mem) \<Rightarrow> u32 \<Rightarrow> u64 option \<Rightarrow> nat
       \<Rightarrow> ((byte list option \<times> u32) \<times> nat) option" where
  "SeqlockReader_load_blocking T futex view last_seq timeout_ns c =
     (let s = SeqlockReader_seq;
          ts_ptr = map_option timespec_of timeout_ns;
          cur = load_u32 (view c) s
      in if cur \<noteq> last_seq \<and> cur AND 1 = 0 then
           let result = read_bytes view (c + 1) (SeqlockReader_payload T) (sizeof T);
               after = load_u32 (view (c + 1 + sizeof T)) s
           in if cur = after then Some ((Some result, cur), c + 2 + sizeof T)
              else SeqlockReader_load_blocking T futex view last_seq timeout_ns (c + 2 + sizeof T)
         else
           if futex (c + 1) (load_u32 (view (c + 1)) s) cur ts_ptr = FutexETIMEDOUT
           then Some ((None, last_seq), c + 2)
           else SeqlockReader_load_blocking T futex view last_seq timeout_ns (c + 2))"

definition SeqlockReader_sequence :: "(nat \<Rightarrow> mem) \<Rightarrow> nat \<Rightarrow> u32 \<times> nat" where
  "SeqlockReader_sequence view c = (load_u32 (view c) SeqlockReader_seq, c + 1)"

section \<open>Combined class\<close>

definition Seqlock_seq :: nat where
  "Seqlock_seq = 0"

definition Seqlock_payload :: "ctype \<Rightarrow> nat" where
  "Seqlock_payload T = 0 + SeqlockRegion_data_offset T"

definition Seqlock_store :: "ctype \<Rightarrow> byte list \<Rightarrow> mem \<Rightarrow> act list" where
  "Seqlock_store T data m =
     (let s = Seqlock_seq;
          cur = load_u32 m s
      in [Store32 s (cur + 1)]
         @ memcpy_acts (Seqlock_payload T) data
         @ [Store32 s (cur + 2), FutexWake s])"

partial_function (option) Seqlock_load ::
    "ctype \<Rightarrow> (nat \<Rightarrow> mem) \<Rightarrow> nat \<Rightarrow> (byte list \<times> nat) option" where
  "Seqlock_load T view c =
     (let s = Seqlock_seq;
          before = load_u32 (view c) s
      in if before AND 1 \<noteq> 0 then Seqlock_load T view (c + 1)
         else
           let result = read_bytes view (c + 1) (Seqlock_payload T) (sizeof T);
               after = load_u32 (view (c + 1 + sizeof T)) s
           in if before = after then Some (result, c + 2 + sizeof T)
              else Seqlock_load T view (c + 2 + sizeof T))"

partial_function (option) Seqlock_load_blocking ::
    "ctype \<Rightarrow> futex \<Rightarrow> (nat \<Rightarrow> mem) \<Rightarrow> u32 \<Rightarrow> u64 option \<Rightarrow> nat
       \<Rightarrow> ((byte list option \<times> u32) \<times> nat) option" where
  "Seqlock_load_blocking T futex view last_seq timeout_ns c =
     (let s = Seqlock_seq;
          ts_ptr = map_option timespec_of timeout_ns;
          cur = load_u32 (view c) s
      in if cur \<noteq> last_seq \<and> cur AND 1 = 0 then
           let result = read_bytes view (c + 1) (Seqlock_payload T) (sizeof T);
               after = load_u32 (view (c + 1 + sizeof T)) s
           in if cur = after then Some ((Some result, cur), c + 2 + sizeof T)
              else Seqlock_load_blocking T futex view last_seq timeout_ns (c + 2 + sizeof T)
         else
           if futex (c + 1) (load_u32 (view (c + 1)) s) cur ts_ptr = FutexETIMEDOUT
           then Some ((None, last_seq), c + 2)
           else Seqlock_load_blocking T futex view last_seq timeout_ns (c + 2))"

definition Seqlock_sequence :: "(nat \<Rightarrow> mem) \<Rightarrow> nat \<Rightarrow> u32 \<times> nat" where
  "Seqlock_sequence view c = (load_u32 (view c) Seqlock_seq, c + 1)"

section \<open>Layout facts\<close>

lemma seqlock_layout [layout_simps]:
  assumes "wf_ctype T"
  shows "4 \<le> SeqlockRegion_data_offset T"
    and "alignof T dvd SeqlockRegion_data_offset T"
    and "disjoint_range 0 4 (SeqlockRegion_data_offset T) (sizeof T)"
    and "disjoint_range (SeqlockRegion_data_offset T) (sizeof T) 0 4"
  using wf_ctypeD [OF assms] align_up_ge [of "alignof T" 4] dvd_align_up [of "alignof T" 4]
  by (simp_all add: layout_defs disjoint_range_def)

section \<open>One store\<close>

definition seqlock_stored :: "ctype \<Rightarrow> byte list \<Rightarrow> mem \<Rightarrow> mem" where
  "seqlock_stored T data m =
     store_u32 (load_u32 m 0 + 2) 0
       (store_bytes data (SeqlockRegion_data_offset T) (store_u32 (load_u32 m 0 + 1) 0 m))"

lemma length_SeqlockWriter_store [simp]: "length (SeqlockWriter_store T data m) = length data + 3"
  by (simp add: SeqlockWriter_store_def Let_def)

lemma exec_store_prefix:
  "exec_acts (take t (SeqlockWriter_store T data m)) m =
     (if t = 0 then m
      else if t < length data + 2 then
        store_bytes (take (t - 1) data) (SeqlockRegion_data_offset T) (store_u32 (load_u32 m 0 + 1) 0 m)
      else seqlock_stored T data m)"
proof (cases t)
  case (Suc k)
  have "k - length data = 0 \<or> k - length data = 1 \<or> (\<exists>j. k - length data = Suc (Suc j))"
    by (metis One_nat_def not0_implies_Suc)
  with Suc show ?thesis
    by (auto simp: SeqlockWriter_store_def Let_def layout_defs seqlock_stored_def)
qed simp

lemma exec_store:
  "exec_acts (SeqlockWriter_store T data m) m = seqlock_stored T data m"
  using exec_store_prefix [of "length data + 3" T data m] by simp

lemma load_seqlock_stored [mem_simps]:
  assumes "wf_ctype T" and "length data = sizeof T"
  shows "load_u32 (seqlock_stored T data m) 0 = load_u32 m 0 + 2"
    and "load_bytes (seqlock_stored T data m) (SeqlockRegion_data_offset T) (sizeof T) = data"
  using assms by (simp_all add: seqlock_stored_def mem_simps layout_simps)

section \<open>Runs of one writer\<close>

text \<open>
  A run: the object type, the segment the writer found, and the objects it stores, in order.
  \<open>store_ver n k t\<close> is the number of counter updates among the first \<open>t\<close> accesses of \<open>k\<close>
  stores of \<open>n\<close>-byte objects.
\<close>

record seqlock_run =
  sl_type :: ctype
  sl_mem0 :: mem
  sl_stores :: "byte list list"

fun store_ver :: "nat \<Rightarrow> nat \<Rightarrow> nat \<Rightarrow> nat" where
  "store_ver n 0 t = 0"
| "store_ver n (Suc k) t =
     (if t = 0 then 0 else if t < n + 2 then 1 else if t \<le> n + 3 then 2
      else 2 + store_ver n k (t - (n + 3)))"

definition sl_invar :: "seqlock_run \<Rightarrow> bool" where
  "sl_invar r \<longleftrightarrow> wf_ctype (sl_type r) \<and> even (load_u32 (sl_mem0 r) 0) \<and>
     (\<forall>d \<in> set (sl_stores r). length d = sizeof (sl_type r))"

definition sl_mem :: "seqlock_run \<Rightarrow> nat \<Rightarrow> mem" where
  "sl_mem r = hist (SeqlockWriter_store (sl_type r)) (sl_stores r) (sl_mem0 r)"

definition sl_ver :: "seqlock_run \<Rightarrow> nat \<Rightarrow> nat" where
  "sl_ver r t = unat (load_u32 (sl_mem0 r) 0)
     + store_ver (sizeof (sl_type r)) (length (sl_stores r)) t"

text \<open>The object in force after \<open>j\<close> completed stores.\<close>

definition sl_value :: "seqlock_run \<Rightarrow> nat \<Rightarrow> byte list" where
  "sl_value r j =
     (if j = 0 then load_bytes (sl_mem0 r) (SeqlockRegion_data_offset (sl_type r)) (sizeof (sl_type r))
      else sl_stores r ! (j - 1))"

definition sl_published :: "seqlock_run \<Rightarrow> nat \<Rightarrow> byte list" where
  "sl_published r v = sl_value r ((v - unat (load_u32 (sl_mem0 r) 0)) div 2)"

abbreviation sl_payload :: "seqlock_run \<Rightarrow> nat" where
  "sl_payload r \<equiv> SeqlockRegion_data_offset (sl_type r)"

abbreviation sl_size :: "seqlock_run \<Rightarrow> nat" where
  "sl_size r \<equiv> sizeof (sl_type r)"

lemma store_ver_le: "store_ver n k t \<le> 2 * k"
  by (induction n k t rule: store_ver.induct) auto

lemma store_ver_0 [simp]: "store_ver n k 0 = 0"
  by (cases k) auto

lemma store_ver_mono: "t \<le> u \<Longrightarrow> store_ver n k t \<le> store_ver n k u"
proof (induction n k t arbitrary: u rule: store_ver.induct)
  case (2 n k t)
  show ?case
  proof (cases "n + 3 < t")
    case True
    with "2.prems" "2.IH" [of "u - (n + 3)"] show ?thesis by auto
  next
    case False
    then show ?thesis using "2.prems" by auto
  qed
qed simp

lemma store_ver_end: "k * (n + 3) \<le> t \<Longrightarrow> store_ver n k t = 2 * k"
proof (induction n k t rule: store_ver.induct)
  case (2 n k t)
  show ?case
  proof (cases "t \<le> n + 3")
    case True
    with "2.prems" have "k * (n + 3) \<le> 0" by (simp only: mult_Suc)
    then have "k = 0" by simp
    with "2.prems" show ?thesis by simp
  next
    case False
    with "2.prems" "2.IH" show ?thesis by auto
  qed
qed simp

lemma hist_store_seq:
  assumes "wf_ctype T" and "\<And>d. d \<in> set ds \<Longrightarrow> length d = sizeof T"
  shows "load_u32 (hist (SeqlockWriter_store T) ds m t) 0
           = load_u32 m 0 + of_nat (store_ver (sizeof T) (length ds) t)"
  using assms(2)
proof (induction ds arbitrary: m t)
  case (Cons d ds)
  then have d: "length d = sizeof T" by simp
  have step: "load_u32 (exec_acts (take t (SeqlockWriter_store T d m)) m) 0
      = load_u32 m 0 + of_nat (store_ver (sizeof T) (length (d # ds)) t)"
    if "t \<le> sizeof T + 3"
    using that d assms(1) disjoint_range_def
    by (auto simp: exec_store_prefix mem_simps layout_simps intro!: trans [OF load_u32_other(1)])
  show ?case
  proof (cases "t \<le> sizeof T + 3")
    case True
    with step d show ?thesis by (simp add: hist_Cons)
  next
    case False
    with Cons d assms(1) show ?thesis
      by (simp add: hist_Cons exec_store mem_simps)
  qed
qed simp

lemma hist_store_payload:
  assumes "wf_ctype T" and "\<And>d. d \<in> set ds \<Longrightarrow> length d = sizeof T"
    and "even (store_ver (sizeof T) (length ds) t)"
  shows "load_bytes (hist (SeqlockWriter_store T) ds m t) (SeqlockRegion_data_offset T) (sizeof T)
           = (let j = store_ver (sizeof T) (length ds) t div 2
              in if j = 0 then load_bytes m (SeqlockRegion_data_offset T) (sizeof T) else ds ! (j - 1))"
  using assms(2,3)
proof (induction ds arbitrary: m t)
  case (Cons d ds)
  then have d: "length d = sizeof T" by simp
  show ?case
  proof (cases "t \<le> sizeof T + 3")
    case True
    with d Cons.prems assms(1) show ?thesis
      by (auto simp: hist_Cons exec_store_prefix mem_simps split: if_splits)
  next
    case False
    let ?u = "t - (sizeof T + 3)"
    from False Cons.prems have "even (store_ver (sizeof T) (length ds) ?u)" by simp
    with Cons False d assms(1) show ?thesis
      by (auto simp: hist_Cons exec_store mem_simps Let_def nth_Cons' split: if_splits)
  qed
qed simp

interpretation sl: seqlock_history sl_invar sl_mem "\<lambda>_. 0" sl_payload sl_size sl_ver sl_published
proof
  fix r :: seqlock_run and t u :: nat
  assume "sl_invar r" and "t \<le> u"
  then show "sl_ver r t \<le> sl_ver r u"
    by (simp add: sl_ver_def store_ver_mono)
next
  fix r :: seqlock_run and t :: nat
  assume "sl_invar r"
  then show "load_u32 (sl_mem r t) 0 = of_nat (sl_ver r t)"
    by (simp add: sl_invar_def sl_mem_def sl_ver_def hist_store_seq)
next
  fix r :: seqlock_run and t :: nat
  assume "sl_invar r" and "even (sl_ver r t)"
  then show "load_bytes (sl_mem r t) (sl_payload r) (sl_size r) = sl_published r (sl_ver r t)"
    by (simp add: sl_invar_def sl_mem_def sl_ver_def sl_published_def sl_value_def
        hist_store_payload Let_def)
qed

section \<open>Retry loops\<close>

text \<open>What a returned value of a loop says about the pass that returned it, whatever the
  segment did meanwhile.\<close>

lemma SeqlockReader_load_SomeD:
  assumes "SeqlockReader_load T view c = Some (v, c')"
  shows "\<exists>k \<ge> c. c' = k + 2 + sizeof T \<and> even (load_u32 (view k) 0) \<and>
           load_u32 (view k) 0 = load_u32 (view (Suc k + sizeof T)) 0 \<and>
           v = read_bytes view (Suc k) (SeqlockRegion_data_offset T) (sizeof T)"
proof -
  let ?P = "\<lambda>T view c (r :: byte list \<times> nat). \<exists>k \<ge> c. snd r = k + 2 + sizeof T \<and>
      even (load_u32 (view k) 0) \<and> load_u32 (view k) 0 = load_u32 (view (Suc k + sizeof T)) 0 \<and>
      fst r = read_bytes view (Suc k) (SeqlockRegion_data_offset T) (sizeof T)"
  have "?P T view c (v, c')"
  proof (rule SeqlockReader_load.raw_induct [where P = ?P, OF _ assms])
    fix load T view c r
    assume IH: "\<And>T view c r. load T view c = Some r \<Longrightarrow> ?P T view c r"
      and eq: "(let s = SeqlockReader_seq; before = load_u32 (view c) s
        in if before AND 1 \<noteq> 0 then load T view (c + 1)
           else let result = read_bytes view (c + 1) (SeqlockReader_payload T) (sizeof T);
                    after = load_u32 (view (c + 1 + sizeof T)) s
                in if before = after then Some (result, c + 2 + sizeof T)
                   else load T view (c + 2 + sizeof T)) = Some r"
    from eq consider
        (retry) c2 where "load T view c2 = Some r" "c \<le> c2"
      | (ok) "even (load_u32 (view c) 0)"
          "load_u32 (view c) 0 = load_u32 (view (Suc c + sizeof T)) 0"
          "r = (read_bytes view (Suc c) (SeqlockRegion_data_offset T) (sizeof T), c + 2 + sizeof T)"
      by (auto simp: Let_def layout_defs split: if_splits)
    then show "?P T view c r"
    proof cases
      case retry
      then show ?thesis using IH [OF retry(1)] by (auto intro: order_trans)
    next
      case ok
      then show ?thesis by (intro exI [of _ c]) simp
    qed
  qed
  then show ?thesis by simp
qed

lemma SeqlockReader_load_step:
  "SeqlockReader_load T view c =
     (if odd (load_u32 (view c) 0) then SeqlockReader_load T view (Suc c)
      else if load_u32 (view c) 0 = load_u32 (view (Suc c + sizeof T)) 0
      then Some (read_bytes view (Suc c) (SeqlockRegion_data_offset T) (sizeof T), c + 2 + sizeof T)
      else SeqlockReader_load T view (c + 2 + sizeof T))"
  by (subst SeqlockReader_load.simps) (simp add: Let_def layout_defs)

lemma SeqlockReader_load_terminates:
  assumes quiet: "\<And>k. k0 \<le> k \<Longrightarrow> load_u32 (view k) 0 = s" and "even s"
  shows "\<exists>v c'. SeqlockReader_load T view c = Some (v, c')"
proof (induction "k0 - c" arbitrary: c rule: less_induct)
  case less
  show ?case
  proof (cases "k0 \<le> c")
    case True
    with assms show ?thesis by (subst SeqlockReader_load_step) simp
  next
    case False
    then have "k0 - Suc c < k0 - c" and "k0 - (c + 2 + sizeof T) < k0 - c" by auto
    with less show ?thesis by (subst SeqlockReader_load_step) auto
  qed
qed

lemma SeqlockReader_load_blocking_SomeD:
  assumes "SeqlockReader_load_blocking T futex view lst timeout c = Some ((res, lst'), c')"
  shows "case res of
     None \<Rightarrow> lst' = lst \<and> (\<exists>k \<ge> c. c' = k + 2 \<and>
       (load_u32 (view k) 0 = lst \<or> odd (load_u32 (view k) 0)) \<and>
       futex (Suc k) (load_u32 (view (Suc k)) 0) (load_u32 (view k) 0)
         (map_option timespec_of timeout) = FutexETIMEDOUT)
   | Some v \<Rightarrow> lst' \<noteq> lst \<and> even lst' \<and> (\<exists>k \<ge> c. c' = k + 2 + sizeof T \<and>
       load_u32 (view k) 0 = lst' \<and> load_u32 (view (Suc k + sizeof T)) 0 = lst' \<and>
       v = read_bytes view (Suc k) (SeqlockRegion_data_offset T) (sizeof T))"
proof -
  let ?P = "\<lambda>T futex view lst timeout c ((res :: byte list option, lst'), c').
    case res of
      None \<Rightarrow> lst' = lst \<and> (\<exists>k \<ge> c. c' = k + 2 \<and>
        (load_u32 (view k) 0 = lst \<or> odd (load_u32 (view k) 0)) \<and>
        futex (Suc k) (load_u32 (view (Suc k)) 0) (load_u32 (view k) 0)
          (map_option timespec_of timeout) = FutexETIMEDOUT)
    | Some v \<Rightarrow> lst' \<noteq> lst \<and> even lst' \<and> (\<exists>k \<ge> c. c' = k + 2 + sizeof T \<and>
        load_u32 (view k) 0 = lst' \<and> load_u32 (view (Suc k + sizeof T)) 0 = lst' \<and>
        v = read_bytes view (Suc k) (SeqlockRegion_data_offset T) (sizeof T))"
  have weaken: "?P T futex view lst timeout c r"
    if "?P T futex view lst timeout c2 r" and "c \<le> c2"
    for T futex view lst timeout c c2 r
    using that by (auto split: option.splits intro: order_trans)
  have "?P T futex view lst timeout c ((res, lst'), c')"
  proof (rule SeqlockReader_load_blocking.raw_induct [where P = ?P, OF _ assms])
    fix load T futex view lst timeout c r
    assume IH: "\<And>T futex view lst timeout c r.
        load T futex view lst timeout c = Some r \<Longrightarrow> ?P T futex view lst timeout c r"
      and eq: "(let s = SeqlockReader_seq; ts_ptr = map_option timespec_of timeout;
                    cur = load_u32 (view c) s
        in if cur \<noteq> lst \<and> cur AND 1 = 0 then
             let result = read_bytes view (c + 1) (SeqlockReader_payload T) (sizeof T);
                 after = load_u32 (view (c + 1 + sizeof T)) s
             in if cur = after then Some ((Some result, cur), c + 2 + sizeof T)
                else load T futex view lst timeout (c + 2 + sizeof T)
           else if futex (c + 1) (load_u32 (view (c + 1)) s) cur ts_ptr = FutexETIMEDOUT
             then Some ((None, lst), c + 2)
             else load T futex view lst timeout (c + 2)) = Some r"
    from eq consider
        (retry) c2 where "load T futex view lst timeout c2 = Some r" "c \<le> c2"
      | (ok) "?P T futex view lst timeout c r"
      by (auto simp: Let_def layout_defs split: if_splits)
    then show "?P T futex view lst timeout c r"
      by cases (use IH weaken in blast)+
  qed
  then show ?thesis by simp
qed

section \<open>Wakes\<close>

text \<open>Every store that is still to complete is followed by a wake issued after the counter
  has become even again.\<close>

lemma store_wake_ahead:
  assumes "\<And>d. d \<in> set ds \<Longrightarrow> length d = sizeof T"
    and "store_ver (sizeof T) (length ds) t < 2 * length ds"
  shows "\<exists>w \<ge> t. w < length (trace (SeqlockWriter_store T) ds m) \<and>
           trace (SeqlockWriter_store T) ds m ! w = FutexWake 0 \<and>
           even (store_ver (sizeof T) (length ds) w) \<and>
           store_ver (sizeof T) (length ds) t < store_ver (sizeof T) (length ds) w"
  using assms
proof (induction ds arbitrary: m t)
  case (Cons d ds)
  then have d: "length d = sizeof T" by simp
  show ?case
  proof (cases "t < sizeof T + 2")
    case True
    have "SeqlockWriter_store T d m ! (sizeof T + 2) = FutexWake 0"
      using d by (simp add: SeqlockWriter_store_def Let_def nth_append layout_defs)
    with True d show ?thesis
      by (intro exI [of _ "sizeof T + 2"]) (simp add: nth_append)
  next
    case False
    let ?m = "exec_acts (SeqlockWriter_store T d m) m"
    have "store_ver (sizeof T) (length (d # ds)) t = 2 + store_ver (sizeof T) (length ds) (t - (sizeof T + 3))"
      using False by auto
    moreover with Cons.prems obtain w where "w \<ge> t - (sizeof T + 3)"
        "w < length (trace (SeqlockWriter_store T) ds ?m)"
        "trace (SeqlockWriter_store T) ds ?m ! w = FutexWake 0"
        "even (store_ver (sizeof T) (length ds) w)"
        "store_ver (sizeof T) (length ds) (t - (sizeof T + 3)) < store_ver (sizeof T) (length ds) w"
      using Cons.IH [of "t - (sizeof T + 3)" ?m] by auto
    moreover then have "0 < w" by (cases w) auto
    ultimately show ?thesis
      using d by (intro exI [of _ "sizeof T + 3 + w"]) (simp add: nth_append)
  qed
qed simp

section \<open>The combined class against the pair\<close>

lemma Seqlock_addresses: "Seqlock_seq = SeqlockReader_seq" "Seqlock_payload = SeqlockReader_payload"
  by (auto simp: layout_defs Seqlock_seq_def Seqlock_payload_def)

lemma Seqlock_load_refines:
  assumes "Seqlock_load T view c = Some r"
  shows "SeqlockReader_load T view c = Some r"
  by (rule Seqlock_load.raw_induct [where P = "\<lambda>T view c r. SeqlockReader_load T view c = Some r", OF _ assms],
      subst SeqlockReader_load.simps) (auto simp: Let_def Seqlock_addresses split: if_splits)

lemma SeqlockReader_load_refines:
  assumes "SeqlockReader_load T view c = Some r"
  shows "Seqlock_load T view c = Some r"
  by (rule SeqlockReader_load.raw_induct [where P = "\<lambda>T view c r. Seqlock_load T view c = Some r", OF _ assms],
      subst Seqlock_load.simps) (auto simp: Let_def Seqlock_addresses split: if_splits)

lemma Seqlock_load_blocking_refines:
  assumes "Seqlock_load_blocking T futex view last_seq timeout_ns c = Some r"
  shows "SeqlockReader_load_blocking T futex view last_seq timeout_ns c = Some r"
  by (rule Seqlock_load_blocking.raw_induct
        [where P = "\<lambda>T futex view s t c r. SeqlockReader_load_blocking T futex view s t c = Some r", OF _ assms],
      subst SeqlockReader_load_blocking.simps) (auto simp: Let_def Seqlock_addresses split: if_splits)

lemma SeqlockReader_load_blocking_refines:
  assumes "SeqlockReader_load_blocking T futex view last_seq timeout_ns c = Some r"
  shows "Seqlock_load_blocking T futex view last_seq timeout_ns c = Some r"
  by (rule SeqlockReader_load_blocking.raw_induct
        [where P = "\<lambda>T futex view s t c r. Seqlock_load_blocking T futex view s t c = Some r", OF _ assms],
      subst Seqlock_load_blocking.simps) (auto simp: Let_def Seqlock_addresses split: if_splits)

section \<open>Loads in a run\<close>

lemma load_in_run:
  assumes "sl_invar r" and "mono clk"
    and no_lap: "\<And>k. sl_ver r (clk (Suc k + sl_size r)) < sl_ver r (clk k) + 2 ^ 32"
    and ret: "SeqlockReader_load (sl_type r) (sl_mem r \<circ> clk) c = Some (v, c')"
  shows "\<exists>j. v = sl_value r j \<and>
           sl_ver r (clk c) \<le> sl_ver r 0 + 2 * j \<and> sl_ver r 0 + 2 * j \<le> sl_ver r (clk c')"
proof -
  obtain k where k: "c \<le> k" "c' = k + 2 + sl_size r"
      and ev: "even (load_u32 (sl_mem r (clk k)) 0)"
      and same: "load_u32 (sl_mem r (clk k)) 0 = load_u32 (sl_mem r (clk (Suc k + sl_size r))) 0"
      and v: "v = read_bytes (sl_mem r \<circ> clk) (Suc k) (sl_payload r) (sl_size r)"
    using SeqlockReader_load_SomeD [OF ret] by auto
  note att = sl.attempt_consistent [OF \<open>sl_invar r\<close> \<open>mono clk\<close> ev same no_lap]
  define j where "j = (sl_ver r (clk k) - sl_ver r 0) div 2"
  have base: "sl_ver r 0 = unat (load_u32 (sl_mem0 r) 0)"
    by (simp add: sl_ver_def)
  have "even (sl_ver r 0)" and "sl_ver r 0 \<le> sl_ver r (clk k)"
    using \<open>sl_invar r\<close> sl.ver_mono [of r 0 "clk k"] by (simp_all add: base sl_invar_def)
  with att(3) have j: "sl_ver r (clk k) = sl_ver r 0 + 2 * j"
    unfolding j_def by auto
  have "v = sl_value r j"
    using v att(1) base by (simp add: sl_published_def j_def)
  moreover have "sl_ver r (clk c) \<le> sl_ver r (clk k)" and "sl_ver r (clk k) \<le> sl_ver r (clk c')"
    using \<open>sl_invar r\<close> \<open>mono clk\<close> k by (auto intro!: sl.ver_mono elim: monoD)
  ultimately show ?thesis using j by auto
qed

lemma sl_ver0_even: "sl_invar r \<Longrightarrow> even (sl_ver r 0)"
  by (simp add: sl_ver_def sl_invar_def)

lemma seq_when_idle:
  assumes "sl_invar r" and "length (sl_stores r) * (sl_size r + 3) \<le> t"
  shows "load_u32 (sl_mem r t) 0 = of_nat (sl_ver r 0 + 2 * length (sl_stores r))"
proof -
  have "sl_ver r t = sl_ver r 0 + 2 * length (sl_stores r)"
    using assms(2) by (simp add: sl_ver_def store_ver_end)
  then show ?thesis using sl.seq_ver [OF assms(1), of t] by metis
qed

lemma load_when_idle:
  assumes "sl_invar r"
    and idle: "\<And>k. k0 \<le> k \<Longrightarrow> length (sl_stores r) * (sl_size r + 3) \<le> clk k"
  shows "(\<exists>v c'. SeqlockReader_load (sl_type r) (sl_mem r \<circ> clk) c = Some (v, c')) \<and>
         SeqlockReader_load (sl_type r) (sl_mem r \<circ> clk) k0
           = Some (sl_value r (length (sl_stores r)), k0 + 2 + sl_size r)"
proof -
  let ?len = "length (sl_stores r)"
  have ver: "sl_ver r (clk k) = sl_ver r 0 + 2 * ?len" if "k0 \<le> k" for k
    using idle [OF that] by (simp add: sl_ver_def store_ver_end)
  have ev: "even (sl_ver r 0)"
    using \<open>sl_invar r\<close> by (simp add: sl_ver_def sl_invar_def)
  have seq: "load_u32 (sl_mem r (clk k)) 0 = of_nat (sl_ver r 0 + 2 * ?len)" if "k0 \<le> k" for k
    by (rule seq_when_idle [OF \<open>sl_invar r\<close> idle [OF that]])
  have pay: "load_bytes (sl_mem r (clk k)) (sl_payload r) (sl_size r) = sl_value r ?len"
    if "k0 \<le> k" for k
    using sl.pay_even [OF \<open>sl_invar r\<close>, of "clk k"] ver [OF that] ev
    by (simp add: sl_published_def sl_ver_def)
  have "length (sl_value r ?len) = sl_size r"
    using pay [of k0] by (metis le_refl length_load_bytes)
  then have "read_bytes (sl_mem r \<circ> clk) (Suc k0) (sl_payload r) (sl_size r) = sl_value r ?len"
    by (rule read_bytes_stable) (simp add: pay)
  then have "SeqlockReader_load (sl_type r) (sl_mem r \<circ> clk) k0
      = Some (sl_value r ?len, k0 + 2 + sl_size r)"
    by (subst SeqlockReader_load_step) (simp add: seq ev)
  moreover have "\<exists>v c'. SeqlockReader_load (sl_type r) (sl_mem r \<circ> clk) c = Some (v, c')"
    by (rule SeqlockReader_load_terminates [where ?k0.0 = k0 and s = "of_nat (sl_ver r 0 + 2 * ?len)"])
      (simp_all add: seq ev)
  ultimately show ?thesis by blast
qed

lemma blocking_in_run:
  assumes "sl_invar r" and "mono clk" and "futex_spec futex"
    and no_lap: "\<And>k. sl_ver r (clk (Suc k + sl_size r)) < sl_ver r (clk k) + 2 ^ 32"
    and ret: "SeqlockReader_load_blocking (sl_type r) futex (sl_mem r \<circ> clk) last_seq timeout_ns c
                = Some ((res, last_seq'), c')"
  shows "case res of
      None \<Rightarrow> last_seq' = last_seq \<and>
        (\<exists>ns k w. timeout_ns = Some ns \<and> c \<le> k \<and> c' = k + 2 \<and> (w = last_seq \<or> odd w) \<and>
           load_u32 (sl_mem r (clk k)) 0 = w \<and> load_u32 (sl_mem r (clk (Suc k))) 0 = w \<and>
           futex (Suc k) w w (Some \<lparr>tv_sec = int (unat ns div 10 ^ 9), tv_nsec = int (unat ns mod 10 ^ 9)\<rparr>) = FutexETIMEDOUT)
    | Some v \<Rightarrow> last_seq' \<noteq> last_seq \<and>
        (\<exists>t. clk c \<le> t \<and> t \<le> clk c' \<and> even (sl_ver r t) \<and>
             last_seq' = of_nat (sl_ver r t) \<and> v = sl_published r (sl_ver r t))"
proof (cases res)
  case None
  then obtain k where k: "last_seq' = last_seq" "c \<le> k" "c' = k + 2"
      "load_u32 (sl_mem r (clk k)) 0 = last_seq \<or> odd (load_u32 (sl_mem r (clk k)) 0)" and
      rc: "futex (Suc k) (load_u32 (sl_mem r (clk (Suc k))) 0) (load_u32 (sl_mem r (clk k)) 0)
         (map_option timespec_of timeout_ns) = FutexETIMEDOUT"
    using SeqlockReader_load_blocking_SomeD [OF ret] by auto
  have "load_u32 (sl_mem r (clk (Suc k))) 0 = load_u32 (sl_mem r (clk k)) 0"
    using futex_timed_outD(1) [OF \<open>futex_spec futex\<close> rc] .
  moreover obtain ns where "timeout_ns = Some ns"
    using futex_timed_outD(2) [OF \<open>futex_spec futex\<close> rc] by auto
  ultimately show ?thesis using None k rc by (auto simp: timespec_of_nat)
next
  case (Some v)
  then obtain k where ne: "last_seq' \<noteq> last_seq" "even last_seq'" and k: "c \<le> k" "c' = k + 2 + sl_size r"
      and cur: "load_u32 (sl_mem r (clk k)) 0 = last_seq'"
      and after: "load_u32 (sl_mem r (clk (Suc k + sl_size r))) 0 = last_seq'"
      and v: "v = read_bytes (sl_mem r \<circ> clk) (Suc k) (sl_payload r) (sl_size r)"
    using SeqlockReader_load_blocking_SomeD [OF ret] by auto
  have att: "v = sl_published r (sl_ver r (clk k))" "even (sl_ver r (clk k))"
    using sl.attempt_consistent(1,3) [OF assms(1,2) _ _ no_lap [of k]] ne cur after v by auto
  have "last_seq' = of_nat (sl_ver r (clk k))"
    using sl.seq_ver [OF \<open>sl_invar r\<close>] cur by metis
  moreover have "clk c \<le> clk k" "clk k \<le> clk c'"
    using \<open>mono clk\<close> k by (auto elim: monoD)
  ultimately show ?thesis using Some ne att by auto
qed

lemma SeqlockReader_load_blocking_terminates:
  assumes quiet: "\<And>k. k0 \<le> k \<Longrightarrow> load_u32 (view k) 0 = s" and "even s"
    and ends: "s \<noteq> last_seq \<or> (\<forall>k \<ge> k0. futex k s s (map_option timespec_of timeout_ns) = FutexETIMEDOUT)"
  shows "\<exists>r c'. SeqlockReader_load_blocking T futex view last_seq timeout_ns c = Some (r, c')"
proof (induction "k0 - c" arbitrary: c rule: less_induct)
  case less
  show ?case
  proof (cases "k0 \<le> c")
    case True
    with assms show ?thesis
      by (subst SeqlockReader_load_blocking.simps) (auto simp: Let_def layout_defs)
  next
    case False
    then have "k0 - (c + 2) < k0 - c" and "k0 - (c + 2 + sizeof T) < k0 - c" by auto
    with less show ?thesis by (subst SeqlockReader_load_blocking.simps) (auto simp: Let_def)
  qed
qed

section \<open>Properties\<close>

text \<open>
  C1. A value returned by \<open>load\<close> is never torn, under any interleaving with the writer: it is
  the object in force after some number \<open>j\<close> of completed stores, and \<open>j\<close> lies between the
  number completed when \<open>load\<close> began and the number completed when it returned, so \<open>load\<close>
  takes effect at an instant of its own execution. The proviso is that the 32-bit counter is
  not lapped, i.e. no \<open>2^31\<close> stores complete between the two counter reads of one pass.
\<close>

theorem seqlock_load_linearizable:
  assumes "sl_invar r" and "mono clk"
    and no_lap: "\<And>k. sl_ver r (clk (Suc k + sl_size r)) < sl_ver r (clk k) + 2 ^ 32"
    and ret: "SeqlockReader_load (sl_type r) (sl_mem r \<circ> clk) c = Some (v, c')"
  shows "\<exists>j. v = sl_value r j \<and>
           sl_ver r (clk c) \<le> sl_ver r 0 + 2 * j \<and> sl_ver r 0 + 2 * j \<le> sl_ver r (clk c')"
  by (rule load_in_run [OF assms])

text \<open>
  C2. \<open>load\<close> returns: once the writer has no more accesses to make, every \<open>load\<close>, however
  it was interleaved with the stores before, comes back, and one that starts after that
  returns the last object stored.
\<close>

theorem seqlock_load_returns:
  assumes "sl_invar r"
    and idle: "\<And>k. k0 \<le> k \<Longrightarrow> length (sl_stores r) * (sl_size r + 3) \<le> clk k"
  shows "(\<exists>v c'. SeqlockReader_load (sl_type r) (sl_mem r \<circ> clk) c = Some (v, c')) \<and>
         SeqlockReader_load (sl_type r) (sl_mem r \<circ> clk) k0
           = Some (sl_value r (length (sl_stores r)), k0 + 2 + sl_size r)"
  by (rule load_when_idle [OF assms])

text \<open>
  C4. \<open>load_blocking\<close> under any interleaving, provided the counter is not lapped within one pass, as for
  \<open>load\<close>. When it returns an object, the object is a published one, it was published under a counter
  value different from the caller's \<open>last_seq\<close>, and that counter value is what \<open>last_seq\<close> becomes.
  It returns nothing only after a wait of its own has timed out: a timeout was given, the last two accesses were
  a read of the counter that found the caller's \<open>last_seq\<close> or a store in progress, and a wait on that very value,
  for the seconds and nanoseconds the timeout amounts to, which the kernel ended with \<open>ETIMEDOUT\<close>;
  \<open>last_seq\<close> is unchanged. It does return when the writer falls silent, if the counter the writer leaves differs from
  \<open>last_seq\<close>, or if a timeout was given and the kernel lets waits on the unchanging counter time out.
\<close>

theorem seqlock_load_blocking_correct:
  assumes "sl_invar r" and "mono clk" and "futex_spec futex"
    and no_lap: "\<And>k. sl_ver r (clk (Suc k + sl_size r)) < sl_ver r (clk k) + 2 ^ 32"
    and call: "call = SeqlockReader_load_blocking (sl_type r) futex (sl_mem r \<circ> clk) last_seq timeout_ns c"
  shows "(\<forall>v last_seq' c'. call = Some ((Some v, last_seq'), c') \<longrightarrow>
            last_seq' \<noteq> last_seq \<and>
            (\<exists>t. clk c \<le> t \<and> t \<le> clk c' \<and> even (sl_ver r t) \<and>
                 last_seq' = of_nat (sl_ver r t) \<and> v = sl_published r (sl_ver r t))) \<and>
         (\<forall>last_seq' c'. call = Some ((None, last_seq'), c') \<longrightarrow>
            last_seq' = last_seq \<and>
            (\<exists>ns k w. timeout_ns = Some ns \<and> c \<le> k \<and> c' = k + 2 \<and> (w = last_seq \<or> odd w) \<and>
               load_u32 (sl_mem r (clk k)) 0 = w \<and> load_u32 (sl_mem r (clk (Suc k))) 0 = w \<and>
               futex (Suc k) w w (Some \<lparr>tv_sec = int (unat ns div 10 ^ 9), tv_nsec = int (unat ns mod 10 ^ 9)\<rparr>)
                 = FutexETIMEDOUT)) \<and>
         (\<forall>k0 w. (\<forall>k \<ge> k0. length (sl_stores r) * (sl_size r + 3) \<le> clk k) \<and>
            w = of_nat (sl_ver r 0 + 2 * length (sl_stores r)) \<and>
            (w \<noteq> last_seq \<or> (\<exists>ns. timeout_ns = Some ns \<and> (\<forall>k \<ge> k0. futex k w w
               (Some \<lparr>tv_sec = int (unat ns div 10 ^ 9), tv_nsec = int (unat ns mod 10 ^ 9)\<rparr>) = FutexETIMEDOUT))) \<longrightarrow>
            call \<noteq> None)"
proof (intro conjI [of "All _"] allI impI)
  note run = blocking_in_run [OF assms(1-4), of last_seq timeout_ns c, folded call]
  show "call = Some ((Some v, last_seq'), c') \<Longrightarrow> last_seq' \<noteq> last_seq \<and>
      (\<exists>t. clk c \<le> t \<and> t \<le> clk c' \<and> even (sl_ver r t) \<and>
           last_seq' = of_nat (sl_ver r t) \<and> v = sl_published r (sl_ver r t))" for v last_seq' c'
    using run [of "Some v" last_seq' c'] by simp
  show "call = Some ((None, last_seq'), c') \<Longrightarrow> last_seq' = last_seq \<and>
      (\<exists>ns k w. timeout_ns = Some ns \<and> c \<le> k \<and> c' = k + 2 \<and> (w = last_seq \<or> odd w) \<and>
         load_u32 (sl_mem r (clk k)) 0 = w \<and> load_u32 (sl_mem r (clk (Suc k))) 0 = w \<and>
         futex (Suc k) w w (Some \<lparr>tv_sec = int (unat ns div 10 ^ 9), tv_nsec = int (unat ns mod 10 ^ 9)\<rparr>)
           = FutexETIMEDOUT)" for last_seq' c'
    using run [of None last_seq' c'] by simp
next
  fix k0 :: nat and w :: u32
  assume "(\<forall>k \<ge> k0. length (sl_stores r) * (sl_size r + 3) \<le> clk k) \<and>
    w = of_nat (sl_ver r 0 + 2 * length (sl_stores r)) \<and>
    (w \<noteq> last_seq \<or> (\<exists>ns. timeout_ns = Some ns \<and> (\<forall>k \<ge> k0. futex k w w
       (Some \<lparr>tv_sec = int (unat ns div 10 ^ 9), tv_nsec = int (unat ns mod 10 ^ 9)\<rparr>) = FutexETIMEDOUT)))"
  then have "\<exists>res c'. SeqlockReader_load_blocking (sl_type r) futex (sl_mem r \<circ> clk) last_seq timeout_ns c = Some (res, c')"
    using seq_when_idle [OF assms(1)] sl_ver0_even [OF assms(1)]
    by (intro SeqlockReader_load_blocking_terminates [where ?k0.0 = k0 and s = w]) (auto simp: timespec_of_nat)
  then show "call \<noteq> None" using call by auto
qed

text \<open>
  C6. No lost wake-up. A reader that goes to sleep at time \<open>t\<close> on the counter value of that
  time, while a store is in progress or still to come, is woken: the writer issues a
  \<open>FUTEX_WAKE\<close> on the counter later, at a moment when the counter has moved on and is even.
\<close>

theorem seqlock_no_lost_wakeup:
  assumes "sl_invar r" and "sl_ver r t < sl_ver r 0 + 2 * length (sl_stores r)"
  shows "\<exists>w \<ge> t. trace (SeqlockWriter_store (sl_type r)) (sl_stores r) (sl_mem0 r) ! w = FutexWake 0 \<and>
           w < length (trace (SeqlockWriter_store (sl_type r)) (sl_stores r) (sl_mem0 r)) \<and>
           even (sl_ver r w) \<and> sl_ver r t < sl_ver r w"
proof -
  have "\<And>d. d \<in> set (sl_stores r) \<Longrightarrow> length d = sl_size r" and "even (sl_ver r 0)"
    using assms(1) by (auto simp: sl_invar_def sl_ver_def)
  moreover have "store_ver (sl_size r) (length (sl_stores r)) t < 2 * length (sl_stores r)"
    using assms(2) by (simp add: sl_ver_def)
  ultimately show ?thesis
    using store_wake_ahead [of "sl_stores r" "sl_type r" t "sl_mem0 r"] by (auto simp: sl_ver_def)
qed

text \<open>
  The bound on the counter is sharp: when exactly \<open>2^31\<close> stores complete during one pass, the
  counter is back at its old value and \<open>load\<close> can return bytes of two different objects.
\<close>

theorem seqlock_lapped_read_torn:
  "\<exists>r clk v c'. sl_invar r \<and> mono clk \<and> length (sl_stores r) = 2 ^ 31 \<and>
     SeqlockReader_load (sl_type r) (sl_mem r \<circ> clk) 0 = Some (v, c') \<and>
     v \<notin> sl_value r ` {0..length (sl_stores r)}"
proof -
  define N :: nat where "N = 2 ^ 31"
  define r where "r = \<lparr>sl_type = flat 2 1, sl_mem0 = zero_mem, sl_stores = replicate N [1, 1]\<rparr>"
  define clk :: "nat \<Rightarrow> nat" where "clk k = (if k \<le> 1 then 0 else N * 5)" for k
  have sel [simp]: "sl_type r = flat 2 (Suc 0)" "sl_mem0 r = zero_mem"
      "sl_stores r = replicate N [1, 1]"
    by (simp_all add: r_def)
  have off [simp]: "SeqlockRegion_data_offset (flat 2 (Suc 0)) = 4"
    by (simp add: layout_defs)
  have inv: "sl_invar r"
    by (simp add: sl_invar_def wf_ctype_def is_pow2_def)
  have "mono clk" by (auto simp: clk_def mono_def)
  have end_ver: "sl_ver r (N * 5) = 2 ^ 32"
    by (simp add: sl_ver_def store_ver_end N_def)
  have m0: "sl_mem r 0 = zero_mem" by (simp add: sl_mem_def)
  have end_seq: "load_u32 (sl_mem r (N * 5)) 0 = 0"
    using sl.seq_ver [OF inv, of "N * 5"] end_ver by simp
  have "load_bytes (sl_mem r (N * 5)) 4 2 = [1, 1]"
    using sl.pay_even [OF inv, of "N * 5"] end_ver
    by (simp add: sl_published_def sl_value_def N_def)
  then have "load_bytes (sl_mem r (N * 5)) 4 2 ! 1 = 1"
    by simp
  then have "sl_mem r (N * 5) 5 = 1"
    by simp
  then have bytes: "read_bytes (sl_mem r \<circ> clk) (Suc 0) 4 2 = [0, 1]"
    by (simp add: read_bytes_def clk_def m0 upt_rec) (simp add: zero_mem_def)
  have "SeqlockReader_load (sl_type r) (sl_mem r \<circ> clk) 0 = Some ([0, 1], 4)"
    by (subst SeqlockReader_load_step) (simp add: clk_def m0 end_seq bytes)
  moreover have "[0, 1] \<notin> sl_value r ` {0..length (sl_stores r)}"
    by (auto simp: sl_value_def numeral_2_eq_2)
  ultimately show ?thesis
    using inv \<open>mono clk\<close> by (intro exI conjI) (auto simp: N_def)
qed

text \<open>
  C5. Round trip, counter wrap-around included: from any stable segment a completed \<open>store\<close>
  is what the next \<open>load\<close> returns, in one pass, and \<open>sequence\<close> has advanced by two modulo
  \<open>2^32\<close>.
\<close>

theorem seqlock_store_load:
  assumes "wf_ctype T" and "even (load_u32 m 0)" and "object_of T data"
    and "m' = exec_acts (SeqlockWriter_store T data m) m"
  shows "SeqlockReader_load T (\<lambda>_. m') c = Some (data, c + 2 + sizeof T) \<and>
         fst (SeqlockReader_sequence (\<lambda>_. m') c) = fst (SeqlockReader_sequence (\<lambda>_. m) c) + 2"
  using assms load_seqlock_stored [of T data m]
  by (subst SeqlockReader_load_step)
    (simp add: object_of_def exec_store SeqlockReader_sequence_def layout_defs)

text \<open>
  C7. Every access of \<open>store\<close> stays inside the mapped \<open>total_size\<close> bytes, the counter and the
  object do not overlap, and the object is placed at a multiple of its alignment.
\<close>

theorem seqlock_accesses_in_bounds:
  assumes "wf_ctype T" and "object_of T data"
  shows "(\<Union>a \<in> set (SeqlockWriter_store T data m). touched a) \<subseteq> {0..<SeqlockRegion_total_size T} \<and>
         disjoint_range SeqlockWriter_seq SeqlockRegion_seq_size (SeqlockWriter_payload T) (sizeof T) \<and>
         alignof T dvd SeqlockWriter_payload T"
proof -
  have "touched a \<subseteq> {SeqlockRegion_data_offset T..<SeqlockRegion_data_offset T + sizeof T}"
    if "a \<in> set (memcpy_acts (SeqlockRegion_data_offset T) data)" for a
    using that assms(2) touched_memcpy by (fastforce simp: object_of_def)
  then show ?thesis
    using seqlock_layout [OF assms(1)] wf_ctypeD [OF assms(1)]
    by (auto simp: SeqlockWriter_store_def Let_def layout_defs) (fastforce dest: subsetD)+
qed

text \<open>
  The combined class \<open>Seqlock\<close> behaves as a \<open>SeqlockWriter\<close> and a \<open>SeqlockReader\<close> on the
  same segment: each of its methods makes the same accesses and returns the same results.
\<close>

theorem seqlock_combined_class:
  "Seqlock_store T data m = SeqlockWriter_store T data m \<and>
   Seqlock_load T view c = SeqlockReader_load T view c \<and>
   Seqlock_load_blocking T futex view last_seq timeout_ns c
     = SeqlockReader_load_blocking T futex view last_seq timeout_ns c \<and>
   Seqlock_sequence view c = SeqlockReader_sequence view c"
proof -
  have "Seqlock_load T view c = SeqlockReader_load T view c"
    using Seqlock_load_refines SeqlockReader_load_refines by (metis not_Some_eq)
  moreover have "Seqlock_load_blocking T futex view last_seq timeout_ns c
      = SeqlockReader_load_blocking T futex view last_seq timeout_ns c"
    using Seqlock_load_blocking_refines SeqlockReader_load_blocking_refines by (metis not_Some_eq)
  ultimately show ?thesis
    by (simp add: Seqlock_store_def SeqlockWriter_store_def Seqlock_sequence_def
        SeqlockReader_sequence_def Seqlock_addresses) (simp add: layout_defs)
qed

section \<open>Witnesses\<close>

text \<open>One store of the two-byte object \<open>[1, 2]\<close> into a fresh segment, read by a reader whose
  accesses alternate with the writer's.\<close>

definition sl_demo :: seqlock_run where
  "sl_demo = \<lparr>sl_type = flat 2 1, sl_mem0 = zero_mem, sl_stores = [[1, 2]]\<rparr>"

lemma sl_demo_invar: "sl_invar sl_demo"
  by (simp add: sl_demo_def sl_invar_def wf_ctype_def is_pow2_def)

lemma sl_demo_no_lap: "sl_ver sl_demo t < sl_ver sl_demo u + 2 ^ 32"
  using store_ver_le [of 2 1 t] by (simp add: sl_ver_def sl_demo_def)

lemma sl_demo_seq:
  "load_u32 (sl_mem sl_demo 0) 0 = 0" "load_u32 (sl_mem sl_demo 3) 0 = 1"
  "load_u32 (sl_mem sl_demo 4) 0 = 2" "load_u32 (sl_mem sl_demo 7) 0 = 2" "load_u32 (sl_mem sl_demo 8) 0 = 2"
  by code_simp+

lemma sl_demo_bytes: "read_bytes (sl_mem sl_demo \<circ> id) 5 4 2 = [1, 2]"
  by code_simp

lemma sl_demo_fields [simp]:
  "sl_type sl_demo = flat 2 1" "sl_mem0 sl_demo = zero_mem" "sl_stores sl_demo = [[1, 2]]"
  "SeqlockRegion_data_offset (flat 2 1) = 4"
  by (simp_all add: sl_demo_def layout_defs)

lemma sl_demo_load: "SeqlockReader_load (flat 2 1) (sl_mem sl_demo \<circ> id) 0 = Some ([1, 2], 8)"
proof -
  have "SeqlockReader_load (flat 2 1) (sl_mem sl_demo \<circ> id) 0
      = SeqlockReader_load (flat 2 1) (sl_mem sl_demo \<circ> id) 4"
    by (subst SeqlockReader_load_step)
      (simp add: sl_demo_seq Suc_numeral del: add_2_eq_Suc add_2_eq_Suc' One_nat_def)
  also have "\<dots> = Some ([1, 2], 8)"
    using sl_demo_bytes by (subst SeqlockReader_load_step)
      (simp add: sl_demo_seq del: add_2_eq_Suc add_2_eq_Suc' One_nat_def)
  finally show ?thesis .
qed

theorem seqlock_load_linearizable_witness:
  "\<exists>j. [1, 2] = sl_value sl_demo j \<and> sl_ver sl_demo (id 0) \<le> sl_ver sl_demo 0 + 2 * j \<and>
       sl_ver sl_demo 0 + 2 * j \<le> sl_ver sl_demo (id 8)"
proof -
  have "mono (id :: nat \<Rightarrow> nat)" by (simp add: mono_def)
  moreover have "SeqlockReader_load (sl_type sl_demo) (sl_mem sl_demo \<circ> id) 0 = Some ([1, 2], 8)"
    unfolding sl_demo_fields by (rule sl_demo_load)
  ultimately show ?thesis
    by (rule seqlock_load_linearizable [OF sl_demo_invar _ sl_demo_no_lap])
qed

theorem seqlock_load_returns_witness:
  "SeqlockReader_load (sl_type sl_demo) (sl_mem sl_demo \<circ> id) 5
     = Some (sl_value sl_demo (length (sl_stores sl_demo)), 5 + 2 + sl_size sl_demo)"
proof -
  have "length (sl_stores sl_demo) * (sl_size sl_demo + 3) \<le> id k" if "5 \<le> k" for k :: nat
    using that by simp
  then show ?thesis
    using seqlock_load_returns [OF sl_demo_invar] by blast
qed

text \<open>A kernel that answers as \<open>futex_spec\<close> asks, used where a wait must time out.\<close>

definition futex_demo :: futex where
  "futex_demo k v e ts = (if v \<noteq> e then FutexEAGAIN else if ts = None then FutexWoken else FutexETIMEDOUT)"

lemma futex_demo_spec: "futex_spec futex_demo"
  by (simp add: futex_spec_def futex_demo_def)

lemma sl_demo_blocking:
  "SeqlockReader_load_blocking (sl_type sl_demo) futex_demo (sl_mem sl_demo \<circ> id) 0 None 4 = Some ((Some [1, 2], 2), 8)"
  "SeqlockReader_load_blocking (sl_type sl_demo) futex_demo (sl_mem sl_demo \<circ> id) 2 (Some 1500000000) 7 = Some ((None, 2), 9)"
proof -
  show "SeqlockReader_load_blocking (sl_type sl_demo) futex_demo (sl_mem sl_demo \<circ> id) 0 None 4 = Some ((Some [1, 2], 2), 8)"
    using sl_demo_bytes by (subst SeqlockReader_load_blocking.simps)
      (simp add: sl_demo_seq Let_def SeqlockReader_seq_def SeqlockReader_payload_def
        del: add_2_eq_Suc add_2_eq_Suc' One_nat_def)
  show "SeqlockReader_load_blocking (sl_type sl_demo) futex_demo (sl_mem sl_demo \<circ> id) 2 (Some 1500000000) 7 = Some ((None, 2), 9)"
    by (subst SeqlockReader_load_blocking.simps)
      (simp add: sl_demo_seq Let_def SeqlockReader_seq_def futex_demo_def del: add_2_eq_Suc add_2_eq_Suc' One_nat_def)
qed

text \<open>A call that finds the store of the run, and one that waits a second and a half for another.\<close>

theorem seqlock_load_blocking_correct_witness:
  "SeqlockReader_load_blocking (sl_type sl_demo) futex_demo (sl_mem sl_demo \<circ> id) 0 None 4 = Some ((Some [1, 2], 2), 8) \<and>
   (\<exists>t. id 4 \<le> t \<and> t \<le> id 8 \<and> even (sl_ver sl_demo t) \<and>
      2 = (of_nat (sl_ver sl_demo t) :: u32) \<and> [1, 2] = sl_published sl_demo (sl_ver sl_demo t)) \<and>
   SeqlockReader_load_blocking (sl_type sl_demo) futex_demo (sl_mem sl_demo \<circ> id) 2 (Some 1500000000) 7 = Some ((None, 2), 9) \<and>
   (\<exists>ns k w. Some 1500000000 = Some ns \<and> 7 \<le> k \<and> 9 = k + 2 \<and> (w = 2 \<or> odd w) \<and>
      load_u32 (sl_mem sl_demo (id k)) 0 = w \<and> load_u32 (sl_mem sl_demo (id (Suc k))) 0 = w \<and>
      futex_demo (Suc k) w w (Some \<lparr>tv_sec = int (unat (ns :: u64) div 10 ^ 9), tv_nsec = int (unat ns mod 10 ^ 9)\<rparr>)
        = FutexETIMEDOUT)"
proof -
  have "mono (id :: nat \<Rightarrow> nat)" by (simp add: mono_def)
  note ok = seqlock_load_blocking_correct [OF sl_demo_invar this futex_demo_spec sl_demo_no_lap refl]
  show ?thesis
    using ok [of 0 None 4, THEN conjunct1, rule_format, OF sl_demo_blocking(1)]
      ok [of 2 "Some 1500000000" 7, THEN conjunct2, THEN conjunct1, rule_format, OF sl_demo_blocking(2)] sl_demo_blocking
    by blast
qed

theorem seqlock_no_lost_wakeup_witness:
  "\<exists>w \<ge> 0. trace (SeqlockWriter_store (sl_type sl_demo)) (sl_stores sl_demo) (sl_mem0 sl_demo) ! w = FutexWake 0 \<and>
     w < length (trace (SeqlockWriter_store (sl_type sl_demo)) (sl_stores sl_demo) (sl_mem0 sl_demo)) \<and>
     even (sl_ver sl_demo w) \<and> sl_ver sl_demo 0 < sl_ver sl_demo w"
  by (rule seqlock_no_lost_wakeup [OF sl_demo_invar]) (simp add: sl_ver_def)

theorem seqlock_store_load_witness:
  "SeqlockReader_load (flat 2 1) (\<lambda>_. exec_acts (SeqlockWriter_store (flat 2 1) [7, 9] zero_mem) zero_mem) 0
     = Some ([7, 9], 0 + 2 + sizeof (flat 2 1))"
  using seqlock_store_load [of "flat 2 1" zero_mem "[7, 9]" _ 0]
  by (simp add: wf_ctype_def is_pow2_def object_of_def)

theorem seqlock_accesses_in_bounds_witness:
  "(\<Union>a \<in> set (SeqlockWriter_store (flat 8 8) [1, 2, 3, 4, 5, 6, 7, 8] zero_mem). touched a)
     \<subseteq> {0..<SeqlockRegion_total_size (flat 8 8)}"
proof -
  have "wf_ctype (flat 8 8)" by (simp add: wf_ctype_def) code_simp
  then show ?thesis
    using seqlock_accesses_in_bounds [of "flat 8 8" "[1, 2, 3, 4, 5, 6, 7, 8]" zero_mem]
    by (simp add: object_of_def)
qed

end
