(* ===== verification/Cyclic_Buffer.thy ===== *)
theory Cyclic_Buffer
  imports Shared_Access Flat_Type
begin

text \<open>
  \<^verbatim>\<open>cyclic_buffer.hpp\<close>: a ring of \<open>N\<close> slots in shared memory, each slot an object guarded by its
  own sequence counter, and a 64-bit count of all insertions that doubles as the futex word.
  The theory holds the layout, the writer, the reader and the combined class.
\<close>

section \<open>Layout\<close>

definition CyclicSlot_seq_size :: nat where
  "CyclicSlot_seq_size = 4"

definition CyclicSlot_data_offset :: "ctype \<Rightarrow> nat" where
  "CyclicSlot_data_offset T = align_up CyclicSlot_seq_size (alignof T)"

definition CyclicSlot_slot_size :: "ctype \<Rightarrow> nat" where
  "CyclicSlot_slot_size T = CyclicSlot_data_offset T + sizeof T"

definition CyclicRegion_header_size :: nat where
  "CyclicRegion_header_size = 8"

definition CyclicRegion_slots_offset :: "ctype \<Rightarrow> nat" where
  "CyclicRegion_slots_offset T = align_up CyclicRegion_header_size (alignof T)"

definition CyclicRegion_slot_size :: "ctype \<Rightarrow> nat" where
  "CyclicRegion_slot_size T = CyclicSlot_slot_size T"

definition CyclicRegion_total_size :: "ctype \<Rightarrow> nat \<Rightarrow> nat" where
  "CyclicRegion_total_size T N = CyclicRegion_slots_offset T + CyclicRegion_slot_size T * N"

text \<open>The compile-time condition on the capacity, a \<open>size_t\<close>.\<close>

definition CyclicBuffer_capacity_ok :: "nat \<Rightarrow> bool" where
  "CyclicBuffer_capacity_ok N \<longleftrightarrow> is_pow2 N \<and> N < 2 ^ 64"

section \<open>Writer\<close>

definition CyclicBufferWriter_total_writes_ptr :: nat where
  "CyclicBufferWriter_total_writes_ptr = 0"

definition CyclicBufferWriter_slot_seq :: "ctype \<Rightarrow> nat \<Rightarrow> nat" where
  "CyclicBufferWriter_slot_seq T idx =
     CyclicRegion_slots_offset T + idx * CyclicSlot_slot_size T"

definition CyclicBufferWriter_slot_data :: "ctype \<Rightarrow> nat \<Rightarrow> nat" where
  "CyclicBufferWriter_slot_data T idx =
     CyclicRegion_slots_offset T + idx * CyclicSlot_slot_size T + CyclicSlot_data_offset T"

definition CyclicBufferWriter_insert :: "ctype \<Rightarrow> nat \<Rightarrow> byte list \<Rightarrow> mem \<Rightarrow> act list" where
  "CyclicBufferWriter_insert T N data m =
     (let tw = CyclicBufferWriter_total_writes_ptr;
          writes = load_u64 m tw;
          idx = unat (writes AND (of_nat N - 1));
          s = CyclicBufferWriter_slot_seq T idx;
          cur = load_u32 m s
      in [Store32 s (cur + 1)]
         @ memcpy_acts (CyclicBufferWriter_slot_data T idx) data
         @ [Store32 s (cur + 2), Store64 tw (writes + 1), FutexWake tw])"

definition CyclicBufferWriter_total_writes :: "(nat \<Rightarrow> mem) \<Rightarrow> nat \<Rightarrow> u64 \<times> nat" where
  "CyclicBufferWriter_total_writes view c =
     (load_u64 (view c) CyclicBufferWriter_total_writes_ptr, c + 1)"

section \<open>Reader\<close>

definition CyclicBufferReader_total_writes_ptr :: nat where
  "CyclicBufferReader_total_writes_ptr = 0"

definition CyclicBufferReader_slot_seq :: "ctype \<Rightarrow> nat \<Rightarrow> nat" where
  "CyclicBufferReader_slot_seq T idx =
     CyclicRegion_slots_offset T + idx * CyclicSlot_slot_size T"

definition CyclicBufferReader_slot_data :: "ctype \<Rightarrow> nat \<Rightarrow> nat" where
  "CyclicBufferReader_slot_data T idx =
     CyclicRegion_slots_offset T + idx * CyclicSlot_slot_size T + CyclicSlot_data_offset T"

partial_function (option) CyclicBufferReader_read_slot ::
    "ctype \<Rightarrow> (nat \<Rightarrow> mem) \<Rightarrow> nat \<Rightarrow> nat \<Rightarrow> (byte list \<times> nat) option" where
  "CyclicBufferReader_read_slot T view idx c =
     (let s = CyclicBufferReader_slot_seq T idx;
          before = load_u32 (view c) s
      in if before AND 1 \<noteq> 0 then CyclicBufferReader_read_slot T view idx (c + 1)
         else
           let result = read_bytes view (c + 1) (CyclicBufferReader_slot_data T idx) (sizeof T);
               after = load_u32 (view (c + 1 + sizeof T)) s
           in if before = after then Some (result, c + 2 + sizeof T)
              else CyclicBufferReader_read_slot T view idx (c + 2 + sizeof T))"

text \<open>
  The bounded retry loop counts its attempts in an \<open>unsigned\<close>, which wraps: with the largest
  \<open>max_retries\<close> the loop condition never fails. Hence the outer option.
\<close>

partial_function (option) CyclicBufferReader_try_read_slot_from ::
    "ctype \<Rightarrow> (nat \<Rightarrow> mem) \<Rightarrow> nat \<Rightarrow> u32 \<Rightarrow> u32 \<Rightarrow> nat \<Rightarrow> (byte list option \<times> nat) option" where
  "CyclicBufferReader_try_read_slot_from T view idx max_retries attempt c =
     (if attempt \<le> max_retries then
        let s = CyclicBufferReader_slot_seq T idx;
            before = load_u32 (view c) s
        in if before AND 1 \<noteq> 0
           then CyclicBufferReader_try_read_slot_from T view idx max_retries (attempt + 1) (c + 1)
           else
             let result = read_bytes view (c + 1) (CyclicBufferReader_slot_data T idx) (sizeof T);
                 after = load_u32 (view (c + 1 + sizeof T)) s
             in if before = after then Some (Some result, c + 2 + sizeof T)
                else CyclicBufferReader_try_read_slot_from T view idx max_retries
                       (attempt + 1) (c + 2 + sizeof T)
      else Some (None, c))"

definition CyclicBufferReader_try_read_slot ::
    "ctype \<Rightarrow> (nat \<Rightarrow> mem) \<Rightarrow> nat \<Rightarrow> u32 \<Rightarrow> nat \<Rightarrow> (byte list option \<times> nat) option" where
  "CyclicBufferReader_try_read_slot T view idx max_retries c =
     CyclicBufferReader_try_read_slot_from T view idx max_retries 0 c"

definition CyclicBufferReader_total_writes :: "(nat \<Rightarrow> mem) \<Rightarrow> nat \<Rightarrow> u64 \<times> nat" where
  "CyclicBufferReader_total_writes view c =
     (load_u64 (view c) CyclicBufferReader_total_writes_ptr, c + 1)"

definition CyclicBufferReader_get_latest ::
    "ctype \<Rightarrow> nat \<Rightarrow> (nat \<Rightarrow> mem) \<Rightarrow> nat \<Rightarrow> (byte list \<times> nat) option" where
  "CyclicBufferReader_get_latest T N view c =
     (let writes = load_u64 (view c) CyclicBufferReader_total_writes_ptr
      in if writes = 0 then Some (value_init T, c + 1)
         else CyclicBufferReader_read_slot T view (unat ((writes - 1) AND (of_nat N - 1))) (c + 1))"

definition CyclicBufferReader_get ::
    "ctype \<Rightarrow> nat \<Rightarrow> (nat \<Rightarrow> mem) \<Rightarrow> u64 \<Rightarrow> nat \<Rightarrow> (byte list \<times> nat) option" where
  "CyclicBufferReader_get T N view reverse_index c =
     (let writes = load_u64 (view c) CyclicBufferReader_total_writes_ptr;
          idx = unat ((writes - 1 - reverse_index) AND (of_nat N - 1))
      in CyclicBufferReader_read_slot T view idx (c + 1))"

definition CyclicBufferReader_try_get ::
    "ctype \<Rightarrow> nat \<Rightarrow> (nat \<Rightarrow> mem) \<Rightarrow> u64 \<Rightarrow> u32 \<Rightarrow> nat \<Rightarrow> (byte list option \<times> nat) option" where
  "CyclicBufferReader_try_get T N view reverse_index max_retries c =
     (let writes = load_u64 (view c) CyclicBufferReader_total_writes_ptr
      in if min writes (of_nat N) \<le> reverse_index then Some (None, c + 1)
         else
           let idx = unat ((writes - 1 - reverse_index) AND (of_nat N - 1))
           in CyclicBufferReader_try_read_slot T view idx max_retries (c + 1))"

definition CyclicBufferReader_available :: "nat \<Rightarrow> (nat \<Rightarrow> mem) \<Rightarrow> nat \<Rightarrow> u64 \<times> nat" where
  "CyclicBufferReader_available N view c =
     (let writes = load_u64 (view c) CyclicBufferReader_total_writes_ptr
      in (min writes (of_nat N), c + 1))"

partial_function (option) CyclicBufferReader_wait_for_write ::
    "futex \<Rightarrow> (nat \<Rightarrow> mem) \<Rightarrow> u64 \<Rightarrow> u64 option \<Rightarrow> nat \<Rightarrow> (u64 option \<times> nat) option" where
  "CyclicBufferReader_wait_for_write futex view last_seen timeout_ns c =
     (let tw = CyclicBufferReader_total_writes_ptr;
          ts_ptr = map_option timespec_of timeout_ns;
          cur = load_u64 (view c) tw
      in if cur \<noteq> last_seen then Some (Some cur, c + 1)
         else
           let expected_lo = ucast last_seen :: u32
           in if futex (c + 1) (load_u32 (view (c + 1)) tw) expected_lo ts_ptr = FutexETIMEDOUT
              then Some (None, c + 2)
              else CyclicBufferReader_wait_for_write futex view last_seen timeout_ns (c + 2))"

definition CyclicBufferReader_capacity :: "nat \<Rightarrow> nat" where
  "CyclicBufferReader_capacity N = N"

section \<open>Layout facts\<close>

lemmas cyclic_layout_defs [layout_defs] =
  CyclicSlot_seq_size_def CyclicSlot_data_offset_def CyclicSlot_slot_size_def
  CyclicRegion_header_size_def CyclicRegion_slots_offset_def CyclicRegion_slot_size_def
  CyclicRegion_total_size_def
  CyclicBufferWriter_total_writes_ptr_def CyclicBufferReader_total_writes_ptr_def

text \<open>The one formula behind the reader's and the writer's slot accessors.\<close>

abbreviation slot_seq :: "ctype \<Rightarrow> nat \<Rightarrow> nat" where
  "slot_seq \<equiv> CyclicBufferWriter_slot_seq"

abbreviation slot_data :: "ctype \<Rightarrow> nat \<Rightarrow> nat" where
  "slot_data \<equiv> CyclicBufferWriter_slot_data"

lemma reader_slot_addresses [simp]:
  "CyclicBufferReader_slot_seq = slot_seq" "CyclicBufferReader_slot_data = slot_data"
  "CyclicBufferReader_total_writes_ptr = 0" "CyclicBufferWriter_total_writes_ptr = 0"
  by (auto simp: fun_eq_iff CyclicBufferReader_slot_seq_def CyclicBufferReader_slot_data_def
      CyclicBufferWriter_slot_seq_def CyclicBufferWriter_slot_data_def layout_defs)

lemma cyclic_offsets:
  assumes "wf_ctype T"
  shows "8 \<le> CyclicRegion_slots_offset T" and "4 \<le> CyclicSlot_data_offset T"
    and "alignof T dvd CyclicRegion_slots_offset T" and "alignof T dvd CyclicSlot_data_offset T"
  using wf_ctypeD [OF assms] align_up_ge [of "alignof T"] dvd_align_up [of "alignof T"]
  by (auto simp: layout_defs)

lemma slot_separation:
  assumes "i \<noteq> j" and "x + a \<le> z" and "y + b \<le> z"
  shows "disjoint_range (off + i * z + x) a (off + j * z + y) b"
proof -
  have "i * z + z \<le> j * z \<or> j * z + z \<le> i * z"
    using assms(1) by (metis add.commute linorder_neqE_nat mult_Suc mult_le_mono1 not_less_eq_eq not_le)
  with assms(2,3) show ?thesis by (auto simp: disjoint_range_def)
qed

lemma cyclic_slots_disjoint [layout_simps]:
  assumes "wf_ctype T" and "i \<noteq> j"
  shows "disjoint_range (slot_seq T i) 4 (slot_seq T j) 4"
    and "disjoint_range (slot_seq T i) 4 (slot_data T j) (sizeof T)"
    and "disjoint_range (slot_data T i) (sizeof T) (slot_seq T j) 4"
    and "disjoint_range (slot_data T i) (sizeof T) (slot_data T j) (sizeof T)"
  using slot_separation [OF assms(2), of 0 4 "CyclicSlot_slot_size T" 0 4]
    slot_separation [OF assms(2), of 0 4 "CyclicSlot_slot_size T" "CyclicSlot_data_offset T" "sizeof T"]
    slot_separation [OF assms(2), of "CyclicSlot_data_offset T" "sizeof T" "CyclicSlot_slot_size T" 0 4]
    slot_separation [OF assms(2), of "CyclicSlot_data_offset T" "sizeof T" "CyclicSlot_slot_size T"
      "CyclicSlot_data_offset T" "sizeof T"]
    cyclic_offsets [OF assms(1)]
  by (simp_all add: CyclicBufferWriter_slot_seq_def CyclicBufferWriter_slot_data_def
      CyclicSlot_slot_size_def)

lemma cyclic_slot_parts_disjoint [layout_simps]:
  assumes "wf_ctype T"
  shows "disjoint_range (slot_seq T i) 4 (slot_data T i) (sizeof T)"
    and "disjoint_range (slot_data T i) (sizeof T) (slot_seq T i) 4"
    and "disjoint_range 0 8 (slot_seq T i) 4" and "disjoint_range (slot_seq T i) 4 0 8"
    and "disjoint_range 0 8 (slot_data T i) (sizeof T)"
    and "disjoint_range (slot_data T i) (sizeof T) 0 8"
  using cyclic_offsets [OF assms]
  by (simp_all add: CyclicBufferWriter_slot_seq_def CyclicBufferWriter_slot_data_def disjoint_range_def)

lemma slot_in_region:
  assumes "i < N"
  shows "slot_data T i + sizeof T \<le> CyclicRegion_total_size T N"
proof -
  have "i * CyclicSlot_slot_size T + CyclicSlot_slot_size T \<le> CyclicSlot_slot_size T * N"
    using assms mult_le_mono1 [of "Suc i" N "CyclicSlot_slot_size T"] by (simp add: algebra_simps)
  then show ?thesis
    by (simp add: CyclicBufferWriter_slot_data_def CyclicRegion_total_size_def CyclicRegion_slot_size_def
        CyclicSlot_slot_size_def)
qed

lemma disjoint_range_shorter:
  "disjoint_range a n b k \<Longrightarrow> l \<le> n \<Longrightarrow> disjoint_range a l b k"
  by (auto simp: disjoint_range_def)

section \<open>One insertion\<close>

definition cyclic_slot_done :: "ctype \<Rightarrow> nat \<Rightarrow> byte list \<Rightarrow> mem \<Rightarrow> mem" where
  "cyclic_slot_done T i data m =
     store_u32 (load_u32 m (slot_seq T i) + 2) (slot_seq T i)
       (store_bytes data (slot_data T i)
         (store_u32 (load_u32 m (slot_seq T i) + 1) (slot_seq T i) m))"

definition cyclic_inserted :: "ctype \<Rightarrow> nat \<Rightarrow> byte list \<Rightarrow> mem \<Rightarrow> mem" where
  "cyclic_inserted T i data m = store_u64 (load_u64 m 0 + 1) 0 (cyclic_slot_done T i data m)"

text \<open>The slot the next insertion goes to.\<close>

definition next_slot :: "nat \<Rightarrow> mem \<Rightarrow> nat" where
  "next_slot N m = unat (load_u64 m 0) mod N"

lemma capacity_exponent:
  assumes "CyclicBuffer_capacity_ok N"
  obtains k where "N = 2 ^ k" and "k < 64"
proof -
  from assms have "is_pow2 N" and less: "N < 2 ^ 64"
    by (simp_all only: CyclicBuffer_capacity_ok_def)
  then obtain k where k: "N = 2 ^ k"
    by (auto simp: is_pow2_iff)
  have "k < 64"
    by (rule power_less_imp_less_exp [of "2::nat"]) (simp, use less k in \<open>simp only:\<close>)
  with k show thesis by (rule that)
qed

lemma unat_and_capacity:
  assumes "CyclicBuffer_capacity_ok N"
  shows "unat (x AND (of_nat N - 1) :: u64) = unat x mod N"
  using assms by (rule capacity_exponent) (intro unat_and_mask, simp_all)

lemma capacity_dvd: "CyclicBuffer_capacity_ok N \<Longrightarrow> N dvd 2 ^ 64"
  by (erule capacity_exponent) (simp only: le_imp_power_dvd less_imp_le)

lemma capacity_pos: "CyclicBuffer_capacity_ok N \<Longrightarrow> 0 < N"
  by (simp add: CyclicBuffer_capacity_ok_def is_pow2_pos)

lemma length_insert_acts [simp]:
  "length (CyclicBufferWriter_insert T N data m) = length data + 4"
  by (simp add: CyclicBufferWriter_insert_def Let_def)

lemma exec_insert_prefix:
  assumes "CyclicBuffer_capacity_ok N" and "i = next_slot N m"
  shows "exec_acts (take t (CyclicBufferWriter_insert T N data m)) m =
     (if t = 0 then m
      else if t < length data + 2 then
        store_bytes (take (t - 1) data) (slot_data T i)
          (store_u32 (load_u32 m (slot_seq T i) + 1) (slot_seq T i) m)
      else if t < length data + 3 then cyclic_slot_done T i data m
      else cyclic_inserted T i data m)"
proof (cases t)
  case (Suc k)
  have i: "unat (load_u64 m 0 AND (of_nat N - 1)) = i"
    using assms by (simp add: unat_and_capacity next_slot_def)
  have acts: "CyclicBufferWriter_insert T N data m =
      Store32 (slot_seq T i) (load_u32 m (slot_seq T i) + 1) # memcpy_acts (slot_data T i) data @
      [Store32 (slot_seq T i) (load_u32 m (slot_seq T i) + 2), Store64 0 (load_u64 m 0 + 1), FutexWake 0]"
    by (simp add: CyclicBufferWriter_insert_def Let_def i)
  consider "k \<le> length data" | "k = Suc (length data)" | "k = Suc (Suc (length data))"
    | "Suc (Suc (Suc (length data))) \<le> k"
    by linarith
  then show ?thesis
  proof cases
    case 4
    then have "take t (CyclicBufferWriter_insert T N data m) = CyclicBufferWriter_insert T N data m"
      by (simp add: Suc)
    with 4 show ?thesis by (simp add: Suc acts cyclic_slot_done_def cyclic_inserted_def)
  qed (simp_all add: Suc acts cyclic_slot_done_def cyclic_inserted_def)
qed simp

lemma exec_insert:
  assumes "CyclicBuffer_capacity_ok N"
  shows "exec_acts (CyclicBufferWriter_insert T N data m) m = cyclic_inserted T (next_slot N m) data m"
  using exec_insert_prefix [OF assms refl, of "length data + 4" T data m] by simp

lemma load_slot_done [mem_simps]:
  assumes "wf_ctype T" and "length data = sizeof T"
  shows "load_u32 (cyclic_slot_done T i data m) (slot_seq T i) = load_u32 m (slot_seq T i) + 2"
    and "load_bytes (cyclic_slot_done T i data m) (slot_data T i) (sizeof T) = data"
    and "load_u64 (cyclic_slot_done T i data m) 0 = load_u64 m 0"
    and "i \<noteq> j \<Longrightarrow> load_u32 (cyclic_slot_done T i data m) (slot_seq T j) = load_u32 m (slot_seq T j)"
    and "i \<noteq> j \<Longrightarrow> load_bytes (cyclic_slot_done T i data m) (slot_data T j) (sizeof T)
           = load_bytes m (slot_data T j) (sizeof T)"
  using assms by (simp_all add: cyclic_slot_done_def mem_simps layout_simps)

lemma load_inserted [mem_simps]:
  assumes "wf_ctype T" and "length data = sizeof T"
  shows "load_u32 (cyclic_inserted T i data m) (slot_seq T i) = load_u32 m (slot_seq T i) + 2"
    and "load_bytes (cyclic_inserted T i data m) (slot_data T i) (sizeof T) = data"
    and "load_u64 (cyclic_inserted T i data m) 0 = load_u64 m 0 + 1"
    and "i \<noteq> j \<Longrightarrow> load_u32 (cyclic_inserted T i data m) (slot_seq T j) = load_u32 m (slot_seq T j)"
    and "i \<noteq> j \<Longrightarrow> load_bytes (cyclic_inserted T i data m) (slot_data T j) (sizeof T)
           = load_bytes m (slot_data T j) (sizeof T)"
  using assms by (simp_all add: cyclic_inserted_def mem_simps layout_simps)

lemma load_slot_writing:
  assumes "wf_ctype T" and "length data \<le> sizeof T"
    and "m' = store_bytes data (slot_data T i) (store_u32 v (slot_seq T i) m)"
  shows "load_u32 m' (slot_seq T i) = v"
    and "load_u64 m' 0 = load_u64 m 0"
    and "i \<noteq> j \<Longrightarrow> load_u32 m' (slot_seq T j) = load_u32 m (slot_seq T j)"
    and "i \<noteq> j \<Longrightarrow> load_bytes m' (slot_data T j) (sizeof T) = load_bytes m (slot_data T j) (sizeof T)"
  using assms(1,2) layout_simps(1-)
  by (simp_all add: assms(3) mem_simps layout_simps disjoint_range_shorter [OF _ assms(2)])

section \<open>Sequential view: a sliding window\<close>

record cbuf =
  cb_T :: ctype
  cb_N :: nat
  cb_m :: mem

definition cb_count :: "cbuf \<Rightarrow> nat" where
  "cb_count b = unat (load_u64 (cb_m b) 0)"

definition cb_ok :: "cbuf \<Rightarrow> bool" where
  "cb_ok b \<longleftrightarrow> wf_ctype (cb_T b) \<and> CyclicBuffer_capacity_ok (cb_N b) \<and>
     (\<forall>i < cb_N b. even (load_u32 (cb_m b) (slot_seq (cb_T b) i)))"

definition cb_object :: "cbuf \<Rightarrow> byte list \<Rightarrow> bool" where
  "cb_object b d \<longleftrightarrow> object_of (cb_T b) d"

text \<open>Newest first.\<close>

definition cb_contents :: "cbuf \<Rightarrow> byte list list" where
  "cb_contents b =
     map (\<lambda>i. load_bytes (cb_m b) (slot_data (cb_T b) ((cb_count b - 1 - i) mod cb_N b)) (sizeof (cb_T b)))
       [0..<min (cb_count b) (cb_N b)]"

definition cb_insert :: "byte list \<Rightarrow> cbuf \<Rightarrow> cbuf" where
  "cb_insert d b = b\<lparr>cb_m := exec_acts (CyclicBufferWriter_insert (cb_T b) (cb_N b) d (cb_m b)) (cb_m b)\<rparr>"

text \<open>What \<open>try_get(i)\<close> answers on a buffer nobody writes to, with no retry.\<close>

definition cb_lookup :: "cbuf \<Rightarrow> nat \<Rightarrow> byte list option" where
  "cb_lookup b i =
     (case CyclicBufferReader_try_get (cb_T b) (cb_N b) (\<lambda>_. cb_m b) (of_nat i) 0 0 of
        Some (r, _) \<Rightarrow> r | None \<Rightarrow> None)"

locale ring_buffer =
  fixes invar :: "'b \<Rightarrow> bool"
    and cap :: "'b \<Rightarrow> nat"
    and count :: "'b \<Rightarrow> nat"
    and elem :: "'b \<Rightarrow> 'a \<Rightarrow> bool"
    and contents :: "'b \<Rightarrow> 'a list"
    and insert :: "'a \<Rightarrow> 'b \<Rightarrow> 'b"
    and lookup :: "'b \<Rightarrow> nat \<Rightarrow> 'a option"
    and limit :: nat
  assumes invar_insert: "invar b \<Longrightarrow> elem b x \<Longrightarrow> invar (insert x b)"
    and cap_insert: "cap (insert x b) = cap b"
    and elem_insert: "elem (insert x b) y = elem b y"
    and count_insert: "invar b \<Longrightarrow> elem b x \<Longrightarrow> Suc (count b) < limit \<Longrightarrow> count (insert x b) = Suc (count b)"
    and contents_insert: "invar b \<Longrightarrow> elem b x \<Longrightarrow> Suc (count b) < limit \<Longrightarrow>
          contents (insert x b) = take (cap b) (x # contents b)"
    and length_contents: "invar b \<Longrightarrow> length (contents b) = min (count b) (cap b)"
    and lookup: "invar b \<Longrightarrow> i < limit \<Longrightarrow>
          lookup b i = (if i < length (contents b) then Some (contents b ! i) else None)"
begin

lemma insert_many:
  assumes "invar b" and "\<And>x. x \<in> set xs \<Longrightarrow> elem b x" and "count b + length xs < limit"
  shows "invar (fold insert xs b)" and "cap (fold insert xs b) = cap b"
    and "count (fold insert xs b) = count b + length xs"
    and "contents (fold insert xs b) = take (cap b) (rev xs @ contents b)"
proof -
  have "invar (fold insert xs b) \<and> cap (fold insert xs b) = cap b \<and>
    count (fold insert xs b) = count b + length xs \<and>
    contents (fold insert xs b) = take (cap b) (rev xs @ contents b)"
    using assms
  proof (induction xs arbitrary: b)
    case Nil
    then show ?case using length_contents [of b] by simp
  next
    case (Cons x xs)
    then have b': "invar (insert x b)" "count (insert x b) = Suc (count b)"
        "contents (insert x b) = take (cap b) (x # contents b)"
      by (simp_all add: invar_insert count_insert contents_insert)
    moreover have "take (cap b) (rev xs @ take (cap b) (x # contents b)) = take (cap b) (rev xs @ x # contents b)"
      by (simp only: take_append take_take min.idem) (simp add: min_absorb1)
    ultimately show ?case
      using Cons.IH [of "insert x b"] Cons.prems by (simp add: cap_insert elem_insert)
  qed
  then show "invar (fold insert xs b)" and "cap (fold insert xs b) = cap b"
    and "count (fold insert xs b) = count b + length xs"
    and "contents (fold insert xs b) = take (cap b) (rev xs @ contents b)"
    by simp_all
qed

lemma lookup_many:
  assumes "invar b" and "\<And>x. x \<in> set xs \<Longrightarrow> elem b x" and "count b + length xs < limit"
    and "count b = 0" and "i < limit"
  shows "lookup (fold insert xs b) i =
           (if i < min (length xs) (cap b) then Some (rev xs ! i) else None)"
proof -
  have "contents b = []" using assms length_contents [of b] by simp
  with insert_many [OF assms(1-3)] assms(5) show ?thesis
    by (simp add: lookup)
qed

end

section \<open>Readers of a buffer at rest\<close>

lemma read_slot_step:
  "CyclicBufferReader_read_slot T view idx c =
     (if odd (load_u32 (view c) (slot_seq T idx)) then CyclicBufferReader_read_slot T view idx (c + 1)
      else if load_u32 (view c) (slot_seq T idx) = load_u32 (view (c + 1 + sizeof T)) (slot_seq T idx)
      then Some (read_bytes view (c + 1) (slot_data T idx) (sizeof T), c + 2 + sizeof T)
      else CyclicBufferReader_read_slot T view idx (c + 2 + sizeof T))"
  by (subst CyclicBufferReader_read_slot.simps) (simp add: Let_def)

lemma try_read_slot_step:
  "CyclicBufferReader_try_read_slot_from T view idx mx a c =
     (if \<not> a \<le> mx then Some (None, c)
      else if odd (load_u32 (view c) (slot_seq T idx))
      then CyclicBufferReader_try_read_slot_from T view idx mx (a + 1) (c + 1)
      else if load_u32 (view c) (slot_seq T idx) = load_u32 (view (c + 1 + sizeof T)) (slot_seq T idx)
      then Some (Some (read_bytes view (c + 1) (slot_data T idx) (sizeof T)), c + 2 + sizeof T)
      else CyclicBufferReader_try_read_slot_from T view idx mx (a + 1) (c + 2 + sizeof T))"
  by (subst CyclicBufferReader_try_read_slot_from.simps) (simp add: Let_def)

lemma read_slot_at_rest:
  "even (load_u32 m (slot_seq T i)) \<Longrightarrow>
     CyclicBufferReader_read_slot T (\<lambda>_. m) i c = Some (load_bytes m (slot_data T i) (sizeof T), c + 2 + sizeof T)"
  by (subst read_slot_step) simp

lemma try_read_slot_at_rest:
  "even (load_u32 m (slot_seq T i)) \<Longrightarrow>
     CyclicBufferReader_try_read_slot T (\<lambda>_. m) i mx c
       = Some (Some (load_bytes m (slot_data T i) (sizeof T)), c + 2 + sizeof T)"
  unfolding CyclicBufferReader_try_read_slot_def by (subst try_read_slot_step) simp

text \<open>The index arithmetic of the readers.\<close>

lemma unat_of_nat_small: "k < 2 ^ 64 \<Longrightarrow> unat (of_nat k :: u64) = k"
  by (simp add: unat_of_nat)

lemma capacity_less: "CyclicBuffer_capacity_ok N \<Longrightarrow> N < 2 ^ 64"
  by (simp only: CyclicBuffer_capacity_ok_def)

lemma min_writes:
  assumes "CyclicBuffer_capacity_ok N"
  shows "unat (min w (of_nat N) :: u64) = min (unat w) N"
  using unat_of_nat_small [OF capacity_less [OF assms]] by (simp add: min_def word_le_nat_alt)

lemma reverse_slot:
  assumes "CyclicBuffer_capacity_ok N" and "unat ri < unat w"
  shows "unat ((w - 1 - ri) AND (of_nat N - 1) :: u64) = (unat w - 1 - unat ri) mod N"
proof -
  have "1 \<le> w" using assms(2) by (auto simp: word_le_nat_alt)
  then have "unat (w - 1) = unat w - 1" by (simp add: unat_sub)
  moreover have "ri \<le> w - 1" using assms(2) calculation by (simp add: word_le_nat_alt)
  ultimately have "unat (w - 1 - ri) = unat w - 1 - unat ri" by (simp add: unat_sub)
  then show ?thesis using assms(1) by (simp add: unat_and_capacity)
qed

lemma length_cb_contents [simp]: "length (cb_contents b) = min (cb_count b) (cb_N b)"
  by (simp add: cb_contents_def)

lemma nth_cb_contents [simp]:
  "i < cb_count b \<Longrightarrow> i < cb_N b \<Longrightarrow> cb_contents b ! i =
     load_bytes (cb_m b) (slot_data (cb_T b) ((cb_count b - 1 - i) mod cb_N b)) (sizeof (cb_T b))"
  by (simp add: cb_contents_def)

lemma cb_okD:
  assumes "cb_ok b"
  shows "wf_ctype (cb_T b)" and "CyclicBuffer_capacity_ok (cb_N b)" and "0 < cb_N b"
    and "even (load_u32 (cb_m b) (slot_seq (cb_T b) (k mod cb_N b)))"
  using assms capacity_pos [of "cb_N b"] by (auto simp: cb_ok_def)

lemma try_get_at_rest:
  assumes "cb_ok b"
  shows "CyclicBufferReader_try_get (cb_T b) (cb_N b) (\<lambda>_. cb_m b) ri mx c =
     (if unat ri < length (cb_contents b)
      then Some (Some (cb_contents b ! unat ri), c + 3 + sizeof (cb_T b))
      else Some (None, c + 1))"
proof (cases "unat ri < length (cb_contents b)")
  case True
  then have "unat ri < unat (load_u64 (cb_m b) 0)" by (simp add: cb_count_def)
  note idx = reverse_slot [OF cb_okD(2) [OF assms] this]
  have "\<not> min (load_u64 (cb_m b) 0) (of_nat (cb_N b)) \<le> ri"
    using True min_writes [OF cb_okD(2) [OF assms]] by (auto simp: word_le_nat_alt cb_count_def)
  with True assms show ?thesis
    by (simp add: CyclicBufferReader_try_get_def Let_def idx try_read_slot_at_rest cb_okD cb_count_def)
next
  case False
  then have "min (load_u64 (cb_m b) 0) (of_nat (cb_N b)) \<le> ri"
    using min_writes [OF cb_okD(2) [OF assms]] by (auto simp: word_le_nat_alt cb_count_def)
  with False show ?thesis by (simp add: CyclicBufferReader_try_get_def Let_def)
qed

lemma get_at_rest:
  assumes "cb_ok b" and "unat ri < length (cb_contents b)"
  shows "CyclicBufferReader_get (cb_T b) (cb_N b) (\<lambda>_. cb_m b) ri c
           = Some (cb_contents b ! unat ri, c + 3 + sizeof (cb_T b))"
proof -
  have "unat ri < unat (load_u64 (cb_m b) 0)" using assms(2) by (simp add: cb_count_def)
  note idx = reverse_slot [OF cb_okD(2) [OF assms(1)] this]
  with assms show ?thesis
    by (simp add: CyclicBufferReader_get_def Let_def read_slot_at_rest cb_okD cb_count_def)
qed

lemma get_latest_at_rest:
  assumes "cb_ok b"
  shows "map_option fst (CyclicBufferReader_get_latest (cb_T b) (cb_N b) (\<lambda>_. cb_m b) c)
           = Some (case cb_contents b of [] \<Rightarrow> value_init (cb_T b) | d # _ \<Rightarrow> d)"
proof (cases "load_u64 (cb_m b) 0 = 0")
  case True
  then show ?thesis by (simp add: CyclicBufferReader_get_latest_def cb_contents_def cb_count_def)
next
  case False
  then have pos: "0 < unat (load_u64 (cb_m b) 0)" by (simp add: unat_gt_0)
  note idx = reverse_slot [OF cb_okD(2) [OF assms], of 0, simplified, OF pos]
  have "cb_contents b = cb_contents b ! 0 # tl (cb_contents b)"
    using pos cb_okD(3) [OF assms] by (cases "cb_contents b") (auto simp: cb_contents_def cb_count_def)
  moreover have "cb_contents b ! 0 =
      load_bytes (cb_m b) (slot_data (cb_T b) ((cb_count b - 1) mod cb_N b)) (sizeof (cb_T b))"
    using pos cb_okD(3) [OF assms] by (simp add: cb_count_def)
  ultimately show ?thesis
    using False idx assms
    by (cases "cb_contents b") (simp_all add: CyclicBufferReader_get_latest_def Let_def read_slot_at_rest cb_okD cb_count_def)
qed

section \<open>The buffer is a sliding window\<close>

lemma mod_back_neq:
  fixes w k n :: nat
  assumes "0 < k" and "k < n" and "k \<le> w"
  shows "(w - k) mod n \<noteq> w mod n"
proof
  assume "(w - k) mod n = w mod n"
  then have "n dvd w - (w - k)"
    using mod_eq_dvd_iff_nat [of "w - k" w n] by simp
  with assms show False by (auto dest: dvd_imp_le)
qed

lemma cb_insert_fields [simp]:
  "cb_T (cb_insert d b) = cb_T b" "cb_N (cb_insert d b) = cb_N b"
  by (simp_all add: cb_insert_def)

lemma cb_insert_mem:
  "cb_ok b \<Longrightarrow> cb_m (cb_insert d b) = cyclic_inserted (cb_T b) (cb_count b mod cb_N b) d (cb_m b)"
  by (simp add: cb_insert_def exec_insert cb_okD next_slot_def cb_count_def)

lemma cb_ok_insert:
  assumes "cb_ok b" and "cb_object b d"
  shows "cb_ok (cb_insert d b)"
proof -
  have "even (load_u32 (cb_m (cb_insert d b)) (slot_seq (cb_T b) i))" if "i < cb_N b" for i
  proof -
    have "even (load_u32 (cb_m b) (slot_seq (cb_T b) i))"
      using assms(1) that by (simp add: cb_ok_def)
    then show ?thesis
      using assms by (cases "cb_count b mod cb_N b = i")
        (simp_all add: cb_insert_mem load_inserted cb_okD cb_object_def object_of_def)
  qed
  with assms(1) show ?thesis by (simp add: cb_ok_def)
qed

lemma cb_count_insert:
  assumes "cb_ok b" and "cb_object b d" and "Suc (cb_count b) < 2 ^ 64"
  shows "cb_count (cb_insert d b) = Suc (cb_count b)"
proof -
  have "load_u64 (cb_m (cb_insert d b)) 0 = load_u64 (cb_m b) 0 + 1"
    using assms(1,2) by (simp add: cb_insert_mem load_inserted cb_okD cb_object_def object_of_def)
  then show ?thesis
    using assms(3) by (simp add: cb_count_def unat_word_ariths)
qed

lemma cb_contents_insert:
  assumes "cb_ok b" and "cb_object b d" and "Suc (cb_count b) < 2 ^ 64"
  shows "cb_contents (cb_insert d b) = take (cb_N b) (d # cb_contents b)"
proof (rule nth_equalityI)
  note cnt = cb_count_insert [OF assms] and mem = cb_insert_mem [OF assms(1), of d]
  have obj: "length d = sizeof (cb_T b)" using assms(2) by (simp add: cb_object_def object_of_def)
  note ld = load_inserted [OF cb_okD(1) [OF assms(1)] obj]
  show len: "length (cb_contents (cb_insert d b)) = length (take (cb_N b) (d # cb_contents b))"
    using cb_okD(3) [OF assms(1)] by (simp add: cnt)
  fix i assume "i < length (cb_contents (cb_insert d b))"
  then have i: "i < Suc (cb_count b)" "i < cb_N b" by (simp_all add: cnt)
  show "cb_contents (cb_insert d b) ! i = take (cb_N b) (d # cb_contents b) ! i"
  proof (cases i)
    case 0
    with i show ?thesis by (simp add: cnt mem ld)
  next
    case (Suc k)
    have "cb_count b mod cb_N b \<noteq> (cb_count b - Suc k) mod cb_N b"
      using mod_back_neq [of "Suc k" "cb_N b" "cb_count b"] i Suc by auto
    with i Suc show ?thesis by (simp add: cnt mem ld(5))
  qed
qed

interpretation cb: ring_buffer cb_ok cb_N cb_count cb_object cb_contents cb_insert cb_lookup "2 ^ 64"
proof
  fix b :: cbuf and i :: nat
  assume "cb_ok b" and "i < 2 ^ 64"
  then show "cb_lookup b i = (if i < length (cb_contents b) then Some (cb_contents b ! i) else None)"
    by (simp only: cb_lookup_def try_get_at_rest unat_of_nat_small) simp
qed (simp_all add: cb_ok_insert cb_count_insert cb_contents_insert cb_object_def)

section \<open>Properties of the sequential buffer\<close>

text \<open>
  C14. The ring refines a sliding window: one insertion on a well-formed buffer keeps it
  well-formed, counts one more write, and puts the object in front of the window, dropping the
  oldest element once the window holds \<open>N\<close>.
\<close>

theorem cyclic_insert_refines_window:
  assumes "cb_ok b" and "cb_object b d" and "Suc (cb_count b) < 2 ^ 64"
  shows "cb_ok (cb_insert d b) \<and> cb_count (cb_insert d b) = Suc (cb_count b) \<and>
         cb_contents (cb_insert d b) = take (cb_N b) (d # cb_contents b)"
  using assms cb.invar_insert cb.count_insert cb.contents_insert by blast

text \<open>
  What every reader answers on a buffer at rest: \<open>available\<close> is the size of the window,
  \<open>try_get(i)\<close> and \<open>get(i)\<close> return its \<open>i\<close>-th newest element, \<open>try_get\<close> returns nothing
  beyond it, and \<open>get_latest\<close> returns the newest element or \<open>T{}\<close> when nothing was ever written.
\<close>

theorem cyclic_readers_at_rest:
  assumes "cb_ok b"
  shows "unat (fst (CyclicBufferReader_available (cb_N b) (\<lambda>_. cb_m b) c)) = length (cb_contents b) \<and>
    map_option fst (CyclicBufferReader_try_get (cb_T b) (cb_N b) (\<lambda>_. cb_m b) ri max_retries c)
      = Some (if unat ri < length (cb_contents b) then Some (cb_contents b ! unat ri) else None) \<and>
    (unat ri < length (cb_contents b) \<longrightarrow>
      map_option fst (CyclicBufferReader_get (cb_T b) (cb_N b) (\<lambda>_. cb_m b) ri c)
        = Some (cb_contents b ! unat ri)) \<and>
    map_option fst (CyclicBufferReader_get_latest (cb_T b) (cb_N b) (\<lambda>_. cb_m b) c)
      = Some (case cb_contents b of [] \<Rightarrow> value_init (cb_T b) | d # _ \<Rightarrow> d)"
  using assms min_writes [OF cb_okD(2) [OF assms]]
  by (simp add: try_get_at_rest get_at_rest get_latest_at_rest CyclicBufferReader_available_def cb_count_def)

text \<open>
  C15. Insert/lookup: after the objects \<open>xs\<close> are inserted into an empty buffer of capacity \<open>N\<close>,
  \<open>try_get(i)\<close> returns the \<open>i\<close>-th last of them for every \<open>i\<close> below \<open>min(length xs, N)\<close> and
  nothing for every other \<open>i\<close>.
\<close>

theorem cyclic_insert_lookup:
  assumes "cb_ok b" and "cb_count b = 0" and "list_all (cb_object b) xs"
    and "length xs < 2 ^ 64" and "i < 2 ^ 64"
  shows "cb_lookup (fold cb_insert xs b) i =
           (if i < min (length xs) (cb_N b) then Some (rev xs ! i) else None)"
  by (rule cb.lookup_many) (use assms in \<open>simp_all add: list_all_iff\<close>)

text \<open>
  Every access of \<open>insert\<close> stays inside the mapped \<open>total_size\<close> bytes, whatever the counts
  in the segment are; the object of every slot is placed at a multiple of its alignment, and the
  slot counters are aligned for their atomic accesses when the object's own alignment is at least
  that of the counter.
\<close>

theorem cyclic_accesses_in_bounds:
  assumes "wf_ctype T" and "CyclicBuffer_capacity_ok N" and "object_of T data"
  shows "(\<Union>a \<in> set (CyclicBufferWriter_insert T N data m). touched a) \<subseteq> {0..<CyclicRegion_total_size T N} \<and>
         alignof T dvd CyclicBufferWriter_slot_data T i \<and>
         (4 dvd alignof T \<longrightarrow> 4 dvd CyclicBufferWriter_slot_seq T i)"
proof -
  let ?i = "next_slot N m"
  note off = cyclic_offsets [OF assms(1)]
  have i: "unat (load_u64 m 0 AND (of_nat N - 1)) = ?i"
    using assms(2) by (simp add: unat_and_capacity next_slot_def)
  have "?i < N" using capacity_pos [OF assms(2)] by (simp add: next_slot_def)
  then have slot: "slot_data T ?i + sizeof T \<le> CyclicRegion_total_size T N"
    by (rule slot_in_region)
  have le: "slot_seq T ?i + 4 \<le> slot_data T ?i" "8 \<le> slot_seq T ?i"
    using off by (simp_all add: CyclicBufferWriter_slot_seq_def CyclicBufferWriter_slot_data_def)
  have cp: "(\<Union>a \<in> set (memcpy_acts (slot_data T ?i) data). touched a)
      \<subseteq> {slot_data T ?i..<slot_data T ?i + sizeof T}"
    using assms(3) touched_memcpy by (fastforce simp: object_of_def)
  have acts: "(\<Union>a \<in> set (CyclicBufferWriter_insert T N data m). touched a) =
      {slot_seq T ?i..<slot_seq T ?i + 4} \<union> {0..<8} \<union>
      (\<Union>a \<in> set (memcpy_acts (slot_data T ?i) data). touched a)"
    by (auto simp: CyclicBufferWriter_insert_def Let_def i)
  have "alignof T dvd CyclicSlot_slot_size T"
    using off wf_ctypeD(2) [OF assms(1)] by (simp add: CyclicSlot_slot_size_def)
  then have al: "alignof T dvd slot_data T i" "alignof T dvd slot_seq T i"
    using off by (simp_all add: CyclicBufferWriter_slot_seq_def CyclicBufferWriter_slot_data_def)
  from cp slot le have "(\<Union>a \<in> set (CyclicBufferWriter_insert T N data m). touched a) \<subseteq> {0..<CyclicRegion_total_size T N}"
    unfolding acts by (intro Un_least) (auto dest: subsetD)
  with al show ?thesis by (auto intro: dvd_trans)
qed

text \<open>
  The alignment of the slot counters does depend on the object: for a one-byte object the
  counter of slot 1 sits at offset 13, which is not a multiple of the counter's own alignment.
\<close>

theorem cyclic_slot_counter_misaligned:
  "wf_ctype (flat 1 1) \<and> FlatType (flat 1 1) \<and> CyclicBufferWriter_slot_seq (flat 1 1) 1 = 13 \<and>
   \<not> CyclicSlot_seq_size dvd CyclicBufferWriter_slot_seq (flat 1 1) 1"
  by (simp add: wf_ctype_def is_pow2_def FlatType_def CyclicBufferWriter_slot_seq_def layout_defs)

section \<open>Witnesses\<close>

text \<open>A fresh ring of two four-byte objects.\<close>

definition cb_demo :: cbuf where
  "cb_demo = \<lparr>cb_T = flat 4 4, cb_N = 2, cb_m = zero_mem\<rparr>"

lemma wf_flat_4_4: "wf_ctype (flat 4 4)"
  by (simp add: wf_ctype_def) code_simp

lemma capacity_ok_2: "CyclicBuffer_capacity_ok 2"
  by (simp add: CyclicBuffer_capacity_ok_def) code_simp

lemma cb_demo_fields [simp]:
  "cb_T cb_demo = flat 4 4" "cb_N cb_demo = 2" "cb_m cb_demo = zero_mem" "cb_count cb_demo = 0"
  by (simp_all add: cb_demo_def cb_count_def)

lemma cb_demo_ok: "cb_ok cb_demo"
  unfolding cb_ok_def cb_demo_fields using wf_flat_4_4 capacity_ok_2 by simp

lemma cb_demo_empty: "cb_contents cb_demo = []"
  by (simp add: cb_contents_def)

lemma cb_demo_object: "cb_object cb_demo [1, 2, 3, 4]"
  by (simp add: cb_object_def object_of_def)

theorem cyclic_insert_refines_window_witness:
  "cb_ok (cb_insert [1, 2, 3, 4] cb_demo) \<and> cb_contents (cb_insert [1, 2, 3, 4] cb_demo) = [[1, 2, 3, 4]]"
  using cyclic_insert_refines_window [OF cb_demo_ok cb_demo_object] by (simp add: cb_demo_empty)

theorem cyclic_readers_at_rest_witness:
  "map_option fst (CyclicBufferReader_try_get (flat 4 4) 2
     (\<lambda>_. cb_m (cb_insert [1, 2, 3, 4] cb_demo)) 0 4 0) = Some (Some [1, 2, 3, 4])"
proof -
  have "cb_contents (cb_insert [1, 2, 3, 4] cb_demo) = [[1, 2, 3, 4]]"
    using cb_contents_insert [OF cb_demo_ok cb_demo_object] by (simp add: cb_demo_empty)
  then show ?thesis
    using cyclic_readers_at_rest [OF cb_ok_insert [OF cb_demo_ok cb_demo_object], where ri = 0 and c = 0 and max_retries = 4]
    by simp
qed

theorem cyclic_insert_lookup_witness:
  "cb_lookup (fold cb_insert [[1, 1, 1, 1], [2, 2, 2, 2], [3, 3, 3, 3]] cb_demo) 1 = Some [2, 2, 2, 2]"
  using cyclic_insert_lookup [OF cb_demo_ok cb_demo_fields(4),
      of "[[1, 1, 1, 1], [2, 2, 2, 2], [3, 3, 3, 3]]" 1]
  by (simp add: cb_object_def object_of_def)

theorem cyclic_accesses_in_bounds_witness:
  "(\<Union>a \<in> set (CyclicBufferWriter_insert (flat 4 4) 2 [1, 2, 3, 4] zero_mem). touched a)
     \<subseteq> {0..<CyclicRegion_total_size (flat 4 4) 2} \<and> 4 dvd CyclicBufferWriter_slot_seq (flat 4 4) 1"
  using cyclic_accesses_in_bounds [OF wf_flat_4_4 capacity_ok_2, of "[1, 2, 3, 4]" zero_mem 1]
  by (simp add: object_of_def)

end
