(* ===== verification/Cyclic_History.thy ===== *)
theory Cyclic_History
  imports Cyclic_Buffer
begin

text \<open>
  The cyclic buffer under concurrency: runs of one writer, the version of every slot, and what
  a reader interleaved with the writer at single-access granularity can return.
\<close>

section \<open>Runs of one writer\<close>

record cyclic_run =
  cr_T :: ctype
  cr_N :: nat
  cr_mem0 :: mem
  cr_inserts :: "byte list list"

text \<open>
  Among the first \<open>t\<close> accesses of \<open>k\<close> insertions of \<open>n\<close>-byte objects: \<open>ins_pub\<close> insertions
  have completed their slot, \<open>ins_done\<close> have also advanced the total; \<open>ins_ver\<close> is the number
  of counter updates slot \<open>i\<close> has seen when the first insertion is number \<open>w\<close>.
\<close>

fun ins_pub :: "nat \<Rightarrow> nat \<Rightarrow> nat \<Rightarrow> nat" where
  "ins_pub n 0 t = 0"
| "ins_pub n (Suc k) t = (if t < n + 2 then 0 else Suc (ins_pub n k (t - (n + 4))))"

fun ins_done :: "nat \<Rightarrow> nat \<Rightarrow> nat \<Rightarrow> nat" where
  "ins_done n 0 t = 0"
| "ins_done n (Suc k) t = (if t < n + 3 then 0 else Suc (ins_done n k (t - (n + 4))))"

fun ins_ver :: "nat \<Rightarrow> nat \<Rightarrow> nat \<Rightarrow> nat \<Rightarrow> nat \<Rightarrow> nat \<Rightarrow> nat" where
  "ins_ver n N i w 0 t = 0"
| "ins_ver n N i w (Suc k) t =
     (if t = 0 then 0
      else if w mod N = i then
        (if t < n + 2 then 1 else 2 + ins_ver n N i (Suc w) k (t - (n + 4)))
      else ins_ver n N i (Suc w) k (t - (n + 4)))"

text \<open>The insertions that go to slot \<open>i\<close>, in order.\<close>

fun slot_writes :: "nat \<Rightarrow> nat \<Rightarrow> nat \<Rightarrow> 'a list \<Rightarrow> 'a list" where
  "slot_writes N i w [] = []"
| "slot_writes N i w (d # ds) = (if w mod N = i then [d] else []) @ slot_writes N i (Suc w) ds"

definition cr_invar :: "cyclic_run \<Rightarrow> bool" where
  "cr_invar r \<longleftrightarrow> wf_ctype (cr_T r) \<and> CyclicBuffer_capacity_ok (cr_N r) \<and>
     (\<forall>i < cr_N r. even (load_u32 (cr_mem0 r) (slot_seq (cr_T r) i))) \<and>
     (\<forall>d \<in> set (cr_inserts r). length d = sizeof (cr_T r))"

definition cr_mem :: "cyclic_run \<Rightarrow> nat \<Rightarrow> mem" where
  "cr_mem r = hist (CyclicBufferWriter_insert (cr_T r) (cr_N r)) (cr_inserts r) (cr_mem0 r)"

definition cr_done :: "cyclic_run \<Rightarrow> nat \<Rightarrow> nat" where
  "cr_done r t = ins_done (sizeof (cr_T r)) (length (cr_inserts r)) t"

definition cr_pub :: "cyclic_run \<Rightarrow> nat \<Rightarrow> nat" where
  "cr_pub r t = ins_pub (sizeof (cr_T r)) (length (cr_inserts r)) t"

abbreviation cr_count0 :: "cyclic_run \<Rightarrow> nat" where
  "cr_count0 r \<equiv> unat (load_u64 (cr_mem0 r) 0)"

abbreviation cr_seq0 :: "cyclic_run \<Rightarrow> nat \<Rightarrow> nat" where
  "cr_seq0 r i \<equiv> unat (load_u32 (cr_mem0 r) (slot_seq (cr_T r) i))"

text \<open>A slot of a run.\<close>

type_synonym run_slot = "cyclic_run \<times> nat"

definition cs_invar :: "run_slot \<Rightarrow> bool" where
  "cs_invar h \<longleftrightarrow> cr_invar (fst h) \<and> snd h < cr_N (fst h)"

definition cs_ver :: "run_slot \<Rightarrow> nat \<Rightarrow> nat" where
  "cs_ver h t = cr_seq0 (fst h) (snd h) +
     ins_ver (sizeof (cr_T (fst h))) (cr_N (fst h)) (snd h) (cr_count0 (fst h)) (length (cr_inserts (fst h))) t"

definition cs_published :: "run_slot \<Rightarrow> nat \<Rightarrow> byte list" where
  "cs_published h v =
     (let j = (v - cr_seq0 (fst h) (snd h)) div 2
      in if j = 0
         then load_bytes (cr_mem0 (fst h)) (slot_data (cr_T (fst h)) (snd h)) (sizeof (cr_T (fst h)))
         else slot_writes (cr_N (fst h)) (snd h) (cr_count0 (fst h)) (cr_inserts (fst h)) ! (j - 1))"

section \<open>Counting\<close>

lemma ins_0 [simp]: "ins_ver n N i w k 0 = 0" "ins_pub n k 0 = 0" "ins_done n k 0 = 0"
  by (cases k; simp)+

lemma ins_ver_mono: "t \<le> u \<Longrightarrow> ins_ver n N i w k t \<le> ins_ver n N i w k u"
proof (induction n N i w k t arbitrary: u rule: ins_ver.induct)
  case (2 n N i w k t)
  have "t - (n + 4) \<le> u - (n + 4)" using "2.prems" by (rule diff_le_mono)
  with "2.IH" "2.prems" show ?case by auto
qed simp

lemma ins_pub_mono: "t \<le> u \<Longrightarrow> ins_pub n k t \<le> ins_pub n k u"
proof (induction n k t arbitrary: u rule: ins_pub.induct)
  case (2 n k t)
  have "t - (n + 4) \<le> u - (n + 4)" using "2.prems" by (rule diff_le_mono)
  with "2.IH" "2.prems" show ?case by auto
qed simp

lemma ins_done_mono: "t \<le> u \<Longrightarrow> ins_done n k t \<le> ins_done n k u"
proof (induction n k t arbitrary: u rule: ins_done.induct)
  case (2 n k t)
  have "t - (n + 4) \<le> u - (n + 4)" using "2.prems" by (rule diff_le_mono)
  with "2.IH" "2.prems" show ?case by auto
qed simp

lemma ins_done_le_pub: "ins_done n k t \<le> ins_pub n k t"
  by (induction n k t rule: ins_done.induct) auto

lemma ins_pub_le: "ins_pub n k t \<le> k"
  by (induction n k t rule: ins_pub.induct) auto

lemma ins_ver_pub:
  "even (ins_ver n N i w (length ds) t) \<Longrightarrow>
     ins_ver n N i w (length ds) t = 2 * length (slot_writes N i w (take (ins_pub n (length ds) t) ds))"
proof (induction ds arbitrary: w t)
  case (Cons d ds)
  show ?case
  proof (cases "t < n + 2")
    case True
    with Cons.prems show ?thesis by (auto split: if_splits)
  next
    case False
    with Cons.prems Cons.IH [of "Suc w" "t - (n + 4)"] show ?thesis by (auto split: if_splits)
  qed
qed simp

lemma slot_writes_append:
  "slot_writes N i w (xs @ ys) = slot_writes N i w xs @ slot_writes N i (w + length xs) ys"
  by (induction xs arbitrary: w) auto

lemma slot_writes_last:
  assumes "p < length xs" and "(w + p) mod N = i"
  shows "\<exists>q. q < length xs \<and> (w + q) mod N = i \<and> p \<le> q \<and> slot_writes N i w xs \<noteq> [] \<and>
           last (slot_writes N i w xs) = xs ! q"
  using assms
proof (induction xs arbitrary: p rule: rev_induct)
  case (snoc x xs)
  show ?case
  proof (cases "(w + length xs) mod N = i")
    case True
    with snoc.prems show ?thesis
      by (intro exI [of _ "length xs"]) (auto simp: slot_writes_append)
  next
    case False
    with snoc.prems have "p < length xs" by (cases "p = length xs") auto
    then obtain q where "q < length xs" "(w + q) mod N = i" "p \<le> q" "slot_writes N i w xs \<noteq> []"
        "last (slot_writes N i w xs) = xs ! q"
      using snoc.IH [of p] snoc.prems by blast
    with False show ?thesis
      by (intro exI [of _ q]) (auto simp: slot_writes_append nth_append)
  qed
qed simp

lemma slot_writes_take_nth:
  assumes "j = length (slot_writes N i w (take p xs))" and "0 < j"
  shows "slot_writes N i w xs ! (j - 1) = last (slot_writes N i w (take p xs))"
proof -
  have "slot_writes N i w xs = slot_writes N i w (take p xs) @ slot_writes N i (w + length (take p xs)) (drop p xs)"
    using slot_writes_append [of N i w "take p xs" "drop p xs"] by simp
  with assms show ?thesis by (auto simp: nth_append last_conv_nth)
qed

section \<open>The segment during a run\<close>

lemma next_slot_of_nat:
  assumes "CyclicBuffer_capacity_ok N" and "load_u64 m 0 = of_nat w"
  shows "next_slot N m = w mod N"
proof -
  have "w mod 2 ^ 64 mod N = w mod N"
    using capacity_dvd [OF assms(1)] by (rule mod_mod_cancel)
  then show ?thesis using assms(2) by (simp add: next_slot_def unat_of_nat)
qed

lemma hist_insert_count:
  assumes "wf_ctype T" and N: "CyclicBuffer_capacity_ok N"
    and "\<And>d. d \<in> set ds \<Longrightarrow> length d = sizeof T"
  shows "load_u64 (hist (CyclicBufferWriter_insert T N) ds m t) 0
           = load_u64 m 0 + of_nat (ins_done (sizeof T) (length ds) t)"
  using assms(3)
proof (induction ds arbitrary: m t)
  case (Cons d ds)
  then have d: "length d = sizeof T" by simp
  show ?case
  proof (cases "t \<le> sizeof T + 4")
    case True
    then have "length (take (t - 1) d) \<le> sizeof T" and "t - (sizeof T + 4) = 0" using d by auto
    with True d assms(1) show ?thesis
      by (auto simp: hist_Cons exec_insert_prefix [OF N refl] load_slot_done load_inserted load_slot_writing [OF _ _ refl])
  next
    case False
    with Cons d assms(1) show ?thesis
      by (simp add: hist_Cons exec_insert [OF N] load_inserted)
  qed
qed simp

lemma hist_insert_seq:
  assumes "wf_ctype T" and N: "CyclicBuffer_capacity_ok N"
    and "\<And>d. d \<in> set ds \<Longrightarrow> length d = sizeof T" and "load_u64 m 0 = of_nat w"
  shows "load_u32 (hist (CyclicBufferWriter_insert T N) ds m t) (slot_seq T i)
           = load_u32 m (slot_seq T i) + of_nat (ins_ver (sizeof T) N i w (length ds) t)"
  using assms(3,4)
proof (induction ds arbitrary: m w t)
  case (Cons d ds)
  then have d: "length d = sizeof T" by simp
  note slot = next_slot_of_nat [OF N Cons.prems(2)]
  show ?case
  proof (cases "t \<le> sizeof T + 4")
    case True
    then have "length (take (t - 1) d) \<le> sizeof T" and "t - (sizeof T + 4) = 0" using d by auto
    with True d assms(1) show ?thesis
      by (auto simp: hist_Cons exec_insert_prefix [OF N slot [symmetric]] load_slot_done load_inserted
          load_slot_writing [OF _ _ refl])
  next
    case False
    let ?m = "cyclic_inserted T (w mod N) d m"
    have "load_u64 ?m 0 = of_nat (Suc w)"
      using d assms(1) Cons.prems(2) by (simp add: load_inserted)
    with Cons.IH [of ?m "Suc w" "t - (sizeof T + 4)"] Cons.prems(1) False d assms(1) show ?thesis
      by (auto simp: hist_Cons exec_insert [OF N] slot load_inserted)
  qed
qed simp

lemma hist_insert_data:
  assumes "wf_ctype T" and N: "CyclicBuffer_capacity_ok N"
    and "\<And>d. d \<in> set ds \<Longrightarrow> length d = sizeof T" and "load_u64 m 0 = of_nat w"
    and "even (ins_ver (sizeof T) N i w (length ds) t)"
  shows "load_bytes (hist (CyclicBufferWriter_insert T N) ds m t) (slot_data T i) (sizeof T)
           = (let j = ins_ver (sizeof T) N i w (length ds) t div 2
              in if j = 0 then load_bytes m (slot_data T i) (sizeof T)
                 else slot_writes N i w ds ! (j - 1))"
  using assms(3,4,5)
proof (induction ds arbitrary: m w t)
  case (Cons d ds)
  then have d: "length d = sizeof T" by simp
  note slot = next_slot_of_nat [OF N Cons.prems(2)]
  show ?case
  proof (cases "t \<le> sizeof T + 4")
    case True
    then have "length (take (t - 1) d) \<le> sizeof T" and "t - (sizeof T + 4) = 0" using d by auto
    with True d assms(1) Cons.prems(3) show ?thesis
      by (auto simp: hist_Cons exec_insert_prefix [OF N slot [symmetric]] load_slot_done load_inserted
          load_slot_writing [OF _ _ refl] split: if_splits)
  next
    case False
    let ?m = "cyclic_inserted T (w mod N) d m" and ?u = "t - (sizeof T + 4)"
    have m: "load_u64 ?m 0 = of_nat (Suc w)"
      using d assms(1) Cons.prems(2) by (simp add: load_inserted)
    have ev: "even (ins_ver (sizeof T) N i (Suc w) (length ds) ?u)"
      using Cons.prems(3) False by (auto split: if_splits)
    have "load_bytes (hist (CyclicBufferWriter_insert T N) ds ?m ?u) (slot_data T i) (sizeof T)
       = (let j = ins_ver (sizeof T) N i (Suc w) (length ds) ?u div 2
          in if j = 0 then load_bytes ?m (slot_data T i) (sizeof T) else slot_writes N i (Suc w) ds ! (j - 1))"
      using Cons.IH [OF _ m ev] Cons.prems(1) by simp
    with False d assms(1) show ?thesis
      by (auto simp: hist_Cons exec_insert [OF N] slot load_inserted Let_def nth_Cons' split: if_splits)
  qed
qed simp

interpretation cs: seqlock_history cs_invar "\<lambda>h. cr_mem (fst h)" "\<lambda>h. slot_seq (cr_T (fst h)) (snd h)"
  "\<lambda>h. slot_data (cr_T (fst h)) (snd h)" "\<lambda>h. sizeof (cr_T (fst h))" cs_ver cs_published
proof
  fix h :: run_slot and t u :: nat
  assume "cs_invar h" and "t \<le> u"
  then show "cs_ver h t \<le> cs_ver h u"
    by (simp add: cs_ver_def ins_ver_mono)
next
  fix h :: run_slot and t :: nat
  assume "cs_invar h"
  then show "load_u32 (cr_mem (fst h) t) (slot_seq (cr_T (fst h)) (snd h)) = of_nat (cs_ver h t)"
    by (simp add: cs_invar_def cr_invar_def cr_mem_def cs_ver_def
        hist_insert_seq [where w = "cr_count0 (fst h)"])
next
  fix h :: run_slot and t :: nat
  assume h: "cs_invar h" and "even (cs_ver h t)"
  moreover have "even (cr_seq0 (fst h) (snd h))"
    using h by (simp add: cs_invar_def cr_invar_def)
  ultimately show "load_bytes (cr_mem (fst h) t) (slot_data (cr_T (fst h)) (snd h)) (sizeof (cr_T (fst h)))
      = cs_published h (cs_ver h t)"
    by (simp add: cs_invar_def cr_invar_def cr_mem_def cs_ver_def cs_published_def
        hist_insert_data [where w = "cr_count0 (fst h)"])
qed

section \<open>Retry loops\<close>

text \<open>The pass of a loop over slot \<open>idx\<close> that succeeded, at access \<open>k\<close>.\<close>

definition slot_pass :: "ctype \<Rightarrow> (nat \<Rightarrow> mem) \<Rightarrow> nat \<Rightarrow> nat \<Rightarrow> byte list \<Rightarrow> bool" where
  "slot_pass T view idx k v \<longleftrightarrow> even (load_u32 (view k) (slot_seq T idx)) \<and>
     load_u32 (view k) (slot_seq T idx) = load_u32 (view (Suc k + sizeof T)) (slot_seq T idx) \<and>
     v = read_bytes view (Suc k) (slot_data T idx) (sizeof T)"

lemma read_slot_SomeD:
  assumes "CyclicBufferReader_read_slot T view idx c = Some (v, c')"
  shows "\<exists>k \<ge> c. c' = k + 2 + sizeof T \<and> slot_pass T view idx k v"
proof -
  let ?P = "\<lambda>T view idx c (v, c'). \<exists>k \<ge> c. c' = k + 2 + sizeof T \<and> slot_pass T view idx k v"
  have "?P T view idx c (v, c')"
  proof (rule CyclicBufferReader_read_slot.raw_induct [where P = ?P, OF _ assms])
    fix rd T view idx c r
    assume IH: "\<And>T view idx c r. rd T view idx c = Some r \<Longrightarrow> ?P T view idx c r"
      and eq: "(let s = CyclicBufferReader_slot_seq T idx; before = load_u32 (view c) s
        in if before AND 1 \<noteq> 0 then rd T view idx (c + 1)
           else let result = read_bytes view (c + 1) (CyclicBufferReader_slot_data T idx) (sizeof T);
                    after = load_u32 (view (c + 1 + sizeof T)) s
                in if before = after then Some (result, c + 2 + sizeof T)
                   else rd T view idx (c + 2 + sizeof T)) = Some r"
    from eq consider (retry) c2 where "rd T view idx c2 = Some r" "c \<le> c2"
      | (ok) "?P T view idx c r"
      by (auto simp: Let_def slot_pass_def split: if_splits)
    then show "?P T view idx c r"
    proof cases
      case retry
      then show ?thesis using IH [OF retry(1)] by (auto intro: order_trans)
    qed
  qed
  then show ?thesis by simp
qed

lemma try_read_slot_from_SomeD:
  assumes "CyclicBufferReader_try_read_slot_from T view idx mx a c = Some (Some v, c')"
  shows "\<exists>k \<ge> c. c' = k + 2 + sizeof T \<and> slot_pass T view idx k v"
proof -
  let ?P = "\<lambda>T view idx mx a c (res, c'). \<forall>v. res = Some v \<longrightarrow>
      (\<exists>k \<ge> c. c' = k + 2 + sizeof T \<and> slot_pass T view idx k v)"
  have "?P T view idx mx a c (Some v, c')"
  proof (rule CyclicBufferReader_try_read_slot_from.raw_induct [where P = ?P, OF _ assms])
    fix rd T view idx mx a c r
    assume IH: "\<And>T view idx mx a c r. rd T view idx mx a c = Some r \<Longrightarrow> ?P T view idx mx a c r"
      and eq: "(if a \<le> mx then
          let s = CyclicBufferReader_slot_seq T idx; before = load_u32 (view c) s
          in if before AND 1 \<noteq> 0 then rd T view idx mx (a + 1) (c + 1)
             else let result = read_bytes view (c + 1) (CyclicBufferReader_slot_data T idx) (sizeof T);
                      after = load_u32 (view (c + 1 + sizeof T)) s
                  in if before = after then Some (Some result, c + 2 + sizeof T)
                     else rd T view idx mx (a + 1) (c + 2 + sizeof T)
          else Some (None, c)) = Some r"
    from eq consider (retry) a2 c2 where "rd T view idx mx a2 c2 = Some r" "c \<le> c2"
      | (ok) "?P T view idx mx a c r"
      by (auto simp: Let_def slot_pass_def split: if_splits)
    then show "?P T view idx mx a c r"
    proof cases
      case retry
      then show ?thesis using IH [OF retry(1)] by (fastforce intro: order_trans)
    qed
  qed
  then show ?thesis by simp
qed

text \<open>A successful pass inside a run returns the newest insertion that had reached the slot.\<close>

lemma slot_pass_value:
  assumes r: "cr_invar r" and "mono clk" and "load_u64 (cr_mem0 r) 0 = 0"
    and i: "i = p mod cr_N r" and p: "p < cr_done r (clk c)" and "c \<le> k"
    and no_lap: "cs_ver (r, i) (clk (Suc k + sizeof (cr_T r))) < cs_ver (r, i) (clk k) + 2 ^ 32"
    and pass: "slot_pass (cr_T r) (cr_mem r \<circ> clk) i k v"
  shows "\<exists>q. v = cr_inserts r ! q \<and> q mod cr_N r = p mod cr_N r \<and> p \<le> q \<and> q < cr_pub r (clk k)"
proof -
  have inv: "cs_invar (r, i)"
    using r i capacity_pos [of "cr_N r"] by (simp add: cs_invar_def cr_invar_def)
  let ?n = "sizeof (cr_T r)" and ?ds = "cr_inserts r"
  let ?e = "cr_pub r (clk k)"
  have att: "v = cs_published (r, i) (cs_ver (r, i) (clk k))" "even (cs_ver (r, i) (clk k))"
    using cs.attempt_consistent(1,3) [OF inv \<open>mono clk\<close>, of k] pass no_lap by (auto simp: slot_pass_def)
  have "even (cr_seq0 r i)"
    using inv by (simp add: cs_invar_def cr_invar_def)
  with att(2) have ev: "even (ins_ver ?n (cr_N r) i 0 (length ?ds) (clk k))"
    using assms(3) by (simp add: cs_ver_def)
  have ver: "cs_ver (r, i) (clk k) = cr_seq0 r i + 2 * length (slot_writes (cr_N r) i 0 (take ?e ?ds))"
    using ins_ver_pub [OF ev] assms(3) by (simp add: cs_ver_def cr_pub_def)
  have "clk c \<le> clk k" using \<open>mono clk\<close> \<open>c \<le> k\<close> by (rule monoD)
  then have "cr_done r (clk c) \<le> cr_done r (clk k)" by (simp add: cr_done_def ins_done_mono)
  also have "\<dots> \<le> ?e" by (simp add: cr_done_def cr_pub_def ins_done_le_pub)
  finally have "p < ?e" using p by simp
  moreover have le: "?e \<le> length ?ds" by (simp add: cr_pub_def ins_pub_le)
  ultimately obtain q where q: "q < ?e" "q mod cr_N r = i" "p \<le> q"
      and ne: "slot_writes (cr_N r) i 0 (take ?e ?ds) \<noteq> []"
      and last: "last (slot_writes (cr_N r) i 0 (take ?e ?ds)) = take ?e ?ds ! q"
    using slot_writes_last [of p "take ?e ?ds" 0 "cr_N r" i] i by auto
  have "v = last (slot_writes (cr_N r) i 0 (take ?e ?ds))"
    using att(1) ver ne slot_writes_take_nth [OF refl, of "cr_N r" i 0 ?e ?ds] assms(3)
    by (simp add: cs_published_def)
  with last q i show ?thesis by auto
qed

section \<open>Bounded retry terminates\<close>

lemma unat_plus_1: "x \<noteq> - 1 \<Longrightarrow> unat (x + 1) = Suc (unat x)" for x :: "'a::len word"
  by (metis add.commute add_eq_0_iff unatSuc)

lemma try_read_slot_from_returns:
  assumes "mx < - 1" and "a \<le> mx + 1"
  shows "\<exists>r. CyclicBufferReader_try_read_slot_from T view idx mx a c = Some r"
  using assms(2)
proof (induction "unat (mx + 1) - unat a" arbitrary: a c rule: less_induct)
  case less
  show ?case
  proof (cases "a \<le> mx")
    case True
    have mx: "unat (mx + 1) = Suc (unat mx)"
      using assms(1) by (intro unat_plus_1) auto
    have "a \<noteq> - 1" using True assms(1) by auto
    then have "unat (a + 1) = Suc (unat a)" by (rule unat_plus_1)
    then have "unat (mx + 1) - unat (a + 1) < unat (mx + 1) - unat a" and "a + 1 \<le> mx + 1"
      using True mx by (simp_all add: word_le_nat_alt)
    with less.hyps show ?thesis by (subst try_read_slot_step) (auto simp: True)
  qed (subst try_read_slot_step, simp)
qed

lemma try_get_returns:
  "mx < - 1 \<Longrightarrow> \<exists>r. CyclicBufferReader_try_get T N view ri mx c = Some r"
  using try_read_slot_from_returns [of mx 0]
  by (auto simp: CyclicBufferReader_try_get_def CyclicBufferReader_try_read_slot_def Let_def)

lemma try_read_slot_stuck:
  assumes "\<And>k. c \<le> k \<Longrightarrow> odd (load_u32 (view k) (slot_seq T idx))"
  shows "CyclicBufferReader_try_read_slot_from T view idx (- 1) a c = None"
proof (rule ccontr)
  assume "CyclicBufferReader_try_read_slot_from T view idx (- 1) a c \<noteq> None"
  then obtain r where r: "CyclicBufferReader_try_read_slot_from T view idx (- 1) a c = Some r"
    by auto
  let ?P = "\<lambda>T view idx (mx :: u32) (a :: u32) c (r :: byte list option \<times> nat). \<not> (mx = - 1 \<and> (\<forall>k \<ge> c. odd (load_u32 (view k) (slot_seq T idx))))"
  have "?P T view idx (- 1) a c r"
  proof (rule CyclicBufferReader_try_read_slot_from.raw_induct [where P = ?P, OF _ r])
    fix rd T view idx mx a c r
    assume IH: "\<And>T view idx mx a c r. rd T view idx mx a c = Some r \<Longrightarrow> ?P T view idx mx a c r"
      and eq: "(if a \<le> mx then
          let s = CyclicBufferReader_slot_seq T idx; before = load_u32 (view c) s
          in if before AND 1 \<noteq> 0 then rd T view idx mx (a + 1) (c + 1)
             else let result = read_bytes view (c + 1) (CyclicBufferReader_slot_data T idx) (sizeof T);
                      after = load_u32 (view (c + 1 + sizeof T)) s
                  in if before = after then Some (Some result, c + 2 + sizeof T)
                     else rd T view idx mx (a + 1) (c + 2 + sizeof T)
          else Some (None, c)) = Some r"
    show "?P T view idx mx a c r"
    proof
      assume stuck: "mx = - 1 \<and> (\<forall>k \<ge> c. odd (load_u32 (view k) (slot_seq T idx)))"
      then have "rd T view idx mx (a + 1) (c + 1) = Some r"
        using eq by (simp add: Let_def)
      from IH [OF this] have "\<not> (mx = - 1 \<and> (\<forall>k \<ge> c + 1. odd (load_u32 (view k) (slot_seq T idx))))" .
      moreover from stuck have "mx = - 1 \<and> (\<forall>k \<ge> c + 1. odd (load_u32 (view k) (slot_seq T idx)))" by simp
      ultimately show False by blast
    qed
  qed
  with assms show False by blast
qed

section \<open>Waiting for a write\<close>

text \<open>The futex word is the low half of the 64-bit count.\<close>

lemma load_u32_low: "load_u32 m a = ucast (load_u64 m a)"
  by (rule bit_word_eqI) (auto simp: load_u32_def load_u64_def bit_le_word bit_simps)

lemma wait_for_write_SomeD:
  assumes "CyclicBufferReader_wait_for_write futex view lst timeout c = Some (res, c')"
  shows "case res of
     None \<Rightarrow> (\<exists>k \<ge> c. c' = k + 2 \<and> load_u64 (view k) 0 = lst \<and>
       futex (Suc k) (load_u32 (view (Suc k)) 0) (ucast lst) (map_option timespec_of timeout) = FutexETIMEDOUT)
   | Some n \<Rightarrow> n \<noteq> lst \<and> (\<exists>k \<ge> c. c' = Suc k \<and> load_u64 (view k) 0 = n)"
proof -
  let ?P = "\<lambda>futex view lst timeout c (res :: u64 option, c').
    case res of
     None \<Rightarrow> (\<exists>k \<ge> c. c' = k + 2 \<and> load_u64 (view k) 0 = lst \<and>
       futex (Suc k) (load_u32 (view (Suc k)) 0) (ucast lst) (map_option timespec_of timeout) = FutexETIMEDOUT)
   | Some n \<Rightarrow> n \<noteq> lst \<and> (\<exists>k \<ge> c. c' = Suc k \<and> load_u64 (view k) 0 = n)"
  have weaken: "?P futex view lst timeout c r"
    if "?P futex view lst timeout c2 r" and "c \<le> c2"
    for futex view lst timeout c c2 r
    using that by (auto split: option.splits intro: order_trans)
  have "?P futex view lst timeout c (res, c')"
  proof (rule CyclicBufferReader_wait_for_write.raw_induct [where P = ?P, OF _ assms])
    fix wt futex view lst timeout c r
    assume IH: "\<And>futex view lst timeout c r. wt futex view lst timeout c = Some r \<Longrightarrow> ?P futex view lst timeout c r"
      and eq: "(let tw = CyclicBufferReader_total_writes_ptr; ts_ptr = map_option timespec_of timeout;
                    cur = load_u64 (view c) tw
        in if cur \<noteq> lst then Some (Some cur, c + 1)
           else let expected_lo = ucast lst :: u32
             in if futex (c + 1) (load_u32 (view (c + 1)) tw) expected_lo ts_ptr = FutexETIMEDOUT
                then Some (None, c + 2) else wt futex view lst timeout (c + 2)) = Some r"
    from eq consider (retry) c2 where "wt futex view lst timeout c2 = Some r" "c \<le> c2"
      | (ok) "?P futex view lst timeout c r"
      by (auto simp: Let_def split: if_splits)
    then show "?P futex view lst timeout c r"
      by cases (use IH weaken in blast)+
  qed
  then show ?thesis by simp
qed

lemma wait_for_write_step:
  "CyclicBufferReader_wait_for_write futex view lst timeout c =
     (if load_u64 (view c) 0 \<noteq> lst then Some (Some (load_u64 (view c) 0), Suc c)
      else if futex (Suc c) (load_u32 (view (Suc c)) 0) (ucast lst) (map_option timespec_of timeout) = FutexETIMEDOUT
      then Some (None, c + 2)
      else CyclicBufferReader_wait_for_write futex view lst timeout (c + 2))"
  by (subst CyclicBufferReader_wait_for_write.simps) (simp add: Let_def)

lemma wait_for_write_returns:
  assumes "\<And>k. k0 \<le> k \<Longrightarrow> load_u64 (view k) 0 \<noteq> lst"
  shows "\<exists>r. CyclicBufferReader_wait_for_write futex view lst timeout c = Some r"
proof (induction "k0 - c" arbitrary: c rule: less_induct)
  case less
  show ?case
  proof (cases "k0 \<le> c")
    case True
    with assms show ?thesis by (subst wait_for_write_step) simp
  next
    case False
    then have "k0 - (c + 2) < k0 - c" by auto
    with less show ?thesis by (subst wait_for_write_step) auto
  qed
qed

lemma insert_wake_ahead:
  assumes "\<And>d. d \<in> set ds \<Longrightarrow> length d = sizeof T"
    and "ins_done (sizeof T) (length ds) t < length ds"
  shows "\<exists>u \<ge> t. u < length (trace (CyclicBufferWriter_insert T N) ds m) \<and>
           trace (CyclicBufferWriter_insert T N) ds m ! u = FutexWake 0 \<and>
           ins_done (sizeof T) (length ds) t < ins_done (sizeof T) (length ds) u"
  using assms
proof (induction ds arbitrary: m t)
  case (Cons d ds)
  then have d: "length d = sizeof T" by simp
  show ?case
  proof (cases "t < sizeof T + 3")
    case True
    have "CyclicBufferWriter_insert T N d m ! (sizeof T + 3) = FutexWake 0"
      using d by (simp add: CyclicBufferWriter_insert_def Let_def nth_append)
    with True d show ?thesis
      by (intro exI [of _ "sizeof T + 3"]) (simp add: nth_append)
  next
    case False
    let ?m = "exec_acts (CyclicBufferWriter_insert T N d m) m"
    have "ins_done (sizeof T) (length ds) (t - (sizeof T + 4)) < length ds"
      using False Cons.prems(2) by simp
    then obtain u where "u \<ge> t - (sizeof T + 4)"
        "u < length (trace (CyclicBufferWriter_insert T N) ds ?m)"
        "trace (CyclicBufferWriter_insert T N) ds ?m ! u = FutexWake 0"
        "ins_done (sizeof T) (length ds) (t - (sizeof T + 4)) < ins_done (sizeof T) (length ds) u"
      using Cons.IH [of "t - (sizeof T + 4)" ?m] Cons.prems(1) by auto
    with False d show ?thesis
      by (intro exI [of _ "sizeof T + 4 + u"]) (simp add: nth_append)
  qed
qed simp

lemma mod_coarser_add: "(w mod 18446744073709551616 + k) mod 4294967296 = (w + k) mod (4294967296 :: int)"
proof -
  have "(4294967296 :: int) dvd 18446744073709551616"
    by (rule dvdI [of _ _ 4294967296]) simp
  then have "w mod 18446744073709551616 mod 4294967296 = w mod 4294967296"
    by (rule mod_mod_cancel)
  then show ?thesis by (rule mod_add_cong) (rule refl)
qed

lemma ucast_plus_neq:
  assumes "0 < n" and "n < 2 ^ 32"
  shows "(ucast (w + of_nat n :: u64) :: u32) \<noteq> ucast w"
proof
  assume "(ucast (w + of_nat n :: u64) :: u32) = ucast w"
  moreover have "(ucast (w + of_nat n :: u64) :: u32) = ucast w + of_nat n"
    by transfer (simp add: take_bit_eq_mod mod_coarser_add mod_coarser_add [where k = 0, simplified])
  ultimately have "(of_nat n :: u32) = 0" by simp
  then have "unat (of_nat n :: u32) = 0" by simp
  with assms show False by (simp add: unat_of_nat)
qed

section \<open>One \<open>try_get\<close> inside a run\<close>

lemma try_get_in_run:
  assumes "cr_invar r" and "load_u64 (cr_mem0 r) 0 = 0" and "length (cr_inserts r) < 2 ^ 64"
    and "mono clk"
    and no_lap: "\<And>i k. cs_ver (r, i) (clk (Suc k + sizeof (cr_T r))) < cs_ver (r, i) (clk k) + 2 ^ 32"
    and ret: "CyclicBufferReader_try_get (cr_T r) (cr_N r) (cr_mem r \<circ> clk) ri max_retries c = Some (Some v, c')"
    and w: "w = cr_done r (clk c)" and p: "p = w - 1 - unat ri"
  shows "unat ri < min w (cr_N r) \<and>
         (\<exists>q. v = cr_inserts r ! q \<and> q mod cr_N r = p mod cr_N r \<and> p \<le> q \<and> q < cr_pub r (clk c') \<and>
              (cr_pub r (clk c') \<le> p + cr_N r \<longrightarrow> q = p))"
proof -
  have N: "CyclicBuffer_capacity_ok (cr_N r)" using assms(1) by (simp add: cr_invar_def)
  have "w \<le> length (cr_inserts r)"
    using w order_trans [OF ins_done_le_pub ins_pub_le] by (simp add: cr_done_def)
  then have "w < 2 ^ 64" using assms(3) by simp
  moreover have count: "load_u64 (cr_mem r (clk c)) 0 = of_nat w"
    using assms(1,2) by (simp add: cr_invar_def cr_mem_def w cr_done_def hist_insert_count)
  ultimately have uw: "unat (load_u64 (cr_mem r (clk c)) 0) = w" by (simp only: unat_of_nat_small)
  from ret have "\<not> min (load_u64 (cr_mem r (clk c)) 0) (of_nat (cr_N r)) \<le> ri"
    by (auto simp: CyclicBufferReader_try_get_def Let_def split: if_splits)
  then have ri: "unat ri < min w (cr_N r)"
    using min_writes [OF N, of "load_u64 (cr_mem r (clk c)) 0"] uw by (simp add: word_le_nat_alt not_le)
  then have "unat ri < unat (load_u64 (cr_mem r (clk c)) 0)" using uw by simp
  note idx = reverse_slot [OF N this]
  let ?i = "p mod cr_N r"
  have "CyclicBufferReader_try_read_slot_from (cr_T r) (cr_mem r \<circ> clk) ?i max_retries 0 (c + 1) = Some (Some v, c')"
    using ret idx uw p
    by (auto simp: CyclicBufferReader_try_get_def CyclicBufferReader_try_read_slot_def Let_def split: if_splits)
  then obtain k where k: "c + 1 \<le> k" "c' = k + 2 + sizeof (cr_T r)"
      and pass: "slot_pass (cr_T r) (cr_mem r \<circ> clk) ?i k v"
    using try_read_slot_from_SomeD by blast
  have "p < cr_done r (clk c)" and "c \<le> k" using ri p w k by auto
  then obtain q where q: "v = cr_inserts r ! q" "q mod cr_N r = p mod cr_N r" "p \<le> q" "q < cr_pub r (clk k)"
    using slot_pass_value [OF assms(1,4,2) refl _ _ no_lap pass] by blast
  have "cr_pub r (clk k) \<le> cr_pub r (clk c')"
    using \<open>mono clk\<close> k by (auto simp: cr_pub_def intro!: ins_pub_mono elim: monoD)
  with q have "q < cr_pub r (clk c')" by simp
  moreover have "q = p" if "q < p + cr_N r"
  proof (rule ccontr)
    assume "q \<noteq> p"
    with q(3) that have "0 < q - p" "q - p < cr_N r" "q - p \<le> q" by auto
    then show False using mod_back_neq [of "q - p" "cr_N r" q] q(2,3) by simp
  qed
  ultimately show ?thesis using ri q by (intro conjI exI [of _ q]) auto
qed

section \<open>Properties under concurrency\<close>

text \<open>
  C12. \<open>try_get\<close> under any interleaving with the writer never returns a torn object. What it
  returns is an object that was inserted: insertion number \<open>q\<close>, which is the requested one
  (number \<open>w - 1 - reverse_index\<close> where \<open>w\<close> insertions were complete at the call) or a later
  one that reached the same slot before the return. It is exactly the requested one as long as
  the slot has not been rewritten.
\<close>

theorem cyclic_try_get_untorn:
  assumes "cr_invar r" and "load_u64 (cr_mem0 r) 0 = 0" and "length (cr_inserts r) < 2 ^ 64"
    and "mono clk"
    and no_lap: "\<And>i k. cs_ver (r, i) (clk (Suc k + sizeof (cr_T r))) < cs_ver (r, i) (clk k) + 2 ^ 32"
    and ret: "CyclicBufferReader_try_get (cr_T r) (cr_N r) (cr_mem r \<circ> clk) ri max_retries c = Some (Some v, c')"
    and w: "w = cr_done r (clk c)" and p: "p = w - 1 - unat ri"
  shows "unat ri < min w (cr_N r) \<and>
         (\<exists>q. v = cr_inserts r ! q \<and> q mod cr_N r = p mod cr_N r \<and> p \<le> q \<and> q < cr_pub r (clk c') \<and>
              (cr_pub r (clk c') \<le> p + cr_N r \<longrightarrow> q = p))"
  by (rule try_get_in_run [OF assms])

text \<open>
  C13. \<open>get_latest\<close> under any interleaving: on a buffer that has been written to, it returns an
  untorn inserted object at least as recent as the newest one complete at the call.
\<close>

theorem cyclic_get_latest_recent:
  assumes "cr_invar r" and "load_u64 (cr_mem0 r) 0 = 0" and "length (cr_inserts r) < 2 ^ 64"
    and "mono clk"
    and no_lap: "\<And>i k. cs_ver (r, i) (clk (Suc k + sizeof (cr_T r))) < cs_ver (r, i) (clk k) + 2 ^ 32"
    and "0 < cr_done r (clk c)"
    and ret: "CyclicBufferReader_get_latest (cr_T r) (cr_N r) (cr_mem r \<circ> clk) c = Some (v, c')"
  shows "\<exists>q. v = cr_inserts r ! q \<and> cr_done r (clk c) - 1 \<le> q \<and> q < cr_pub r (clk c')"
proof -
  define w where "w = cr_done r (clk c)"
  have N: "CyclicBuffer_capacity_ok (cr_N r)" using assms(1) by (simp add: cr_invar_def)
  have "w \<le> length (cr_inserts r)"
    using w_def order_trans [OF ins_done_le_pub ins_pub_le] by (simp add: cr_done_def)
  then have "w < 2 ^ 64" using assms(3) by simp
  moreover have count: "load_u64 (cr_mem r (clk c)) 0 = of_nat w"
    using assms(1,2) by (simp add: cr_invar_def cr_mem_def w_def cr_done_def hist_insert_count)
  ultimately have uw: "unat (load_u64 (cr_mem r (clk c)) 0) = w" by (simp only: unat_of_nat_small)
  with assms(6) have "load_u64 (cr_mem r (clk c)) 0 \<noteq> 0" and "unat (0 :: u64) < unat (load_u64 (cr_mem r (clk c)) 0)"
    unfolding w_def by auto
  note idx = reverse_slot [OF N this(2)] and nz = this(1)
  have "CyclicBufferReader_read_slot (cr_T r) (cr_mem r \<circ> clk) ((w - 1) mod cr_N r) (c + 1) = Some (v, c')"
    using ret idx uw nz by (simp add: CyclicBufferReader_get_latest_def Let_def)
  then obtain k where k: "c + 1 \<le> k" "c' = k + 2 + sizeof (cr_T r)"
      and pass: "slot_pass (cr_T r) (cr_mem r \<circ> clk) ((w - 1) mod cr_N r) k v"
    using read_slot_SomeD by blast
  have "w - 1 < cr_done r (clk c)" and "c \<le> k" using assms(6) w_def k by auto
  then obtain q where "v = cr_inserts r ! q" "w - 1 \<le> q" "q < cr_pub r (clk k)"
    using slot_pass_value [OF assms(1,4,2) refl _ _ no_lap pass] by blast
  moreover have "cr_pub r (clk k) \<le> cr_pub r (clk c')"
    using \<open>mono clk\<close> k by (auto simp: cr_pub_def intro!: ins_pub_mono elim: monoD)
  ultimately show ?thesis unfolding w_def by (metis order_less_le_trans)
qed

text \<open>
  C18. The bounded retry of \<open>try_get\<close> always comes back, whatever the writer does, for every
  \<open>max_retries\<close> except the largest \<open>unsigned\<close> value; with that one the attempt counter wraps and
  a slot left odd by a writer that died inside \<open>insert\<close> keeps the caller forever.
\<close>

theorem cyclic_try_get_terminates:
  "(max_retries < - 1 \<longrightarrow> (\<exists>res c'. CyclicBufferReader_try_get T N view ri max_retries c = Some (res, c'))) \<and>
   ((\<forall>k \<ge> c. odd (load_u32 (view k) (CyclicBufferReader_slot_seq T idx))) \<longrightarrow>
      CyclicBufferReader_try_read_slot T view idx (- 1) c = None)"
  using try_get_returns [of max_retries T N view ri c] try_read_slot_stuck [of c view T idx 0]
  by (auto simp: CyclicBufferReader_try_read_slot_def)


text \<open>
  \<open>wait_for_write\<close>, under any interleaving and any behaviour of the kernel that \<^verbatim>\<open>futex(2)\<close>
  allows. It returns a count only when that count differs from \<open>last_seen\<close> and was the number
  of completed insertions at the moment of its last read; it returns nothing only when a timeout
  was given; and it does return when the count stays different from \<open>last_seen\<close>.
\<close>

theorem cyclic_wait_for_write_correct:
  assumes "cr_invar r" and "load_u64 (cr_mem0 r) 0 = 0" and "futex_spec futex"
  shows "(case CyclicBufferReader_wait_for_write futex (cr_mem r \<circ> clk) last_seen timeout_ns c of
            None \<Rightarrow> \<not> (\<exists>k0. \<forall>k \<ge> k0. load_u64 (cr_mem r (clk k)) 0 \<noteq> last_seen)
          | Some (None, c') \<Rightarrow> timeout_ns \<noteq> None
          | Some (Some n, c') \<Rightarrow> n \<noteq> last_seen \<and>
              (\<exists>k \<ge> c. c' = Suc k \<and> n = of_nat (cr_done r (clk k))))"
proof -
  have count: "load_u64 (cr_mem r t) 0 = of_nat (cr_done r t)" for t
    using assms(1,2) by (simp add: cr_invar_def cr_mem_def cr_done_def hist_insert_count)
  show ?thesis
  proof (cases "CyclicBufferReader_wait_for_write futex (cr_mem r \<circ> clk) last_seen timeout_ns c")
    case None
    then have "\<not> (\<exists>k0. \<forall>k \<ge> k0. load_u64 (cr_mem r (clk k)) 0 \<noteq> last_seen)"
      using wait_for_write_returns [of _ "cr_mem r \<circ> clk" last_seen futex timeout_ns c] by fastforce
    with None show ?thesis by simp
  next
    case (Some p)
    then obtain res c' where ret: "CyclicBufferReader_wait_for_write futex (cr_mem r \<circ> clk) last_seen timeout_ns c = Some (res, c')"
      by (cases p) auto
    show ?thesis
    proof (cases res)
      case None
      with wait_for_write_SomeD [OF ret] assms(3) have "timeout_ns \<noteq> None"
        by (cases timeout_ns) (auto simp: futex_spec_def)
      with ret None show ?thesis by simp
    next
      case (Some n)
      with wait_for_write_SomeD [OF ret] ret show ?thesis by (auto simp: count)
    qed
  qed
qed

section \<open>Witnesses\<close>

text \<open>Three insertions into a ring of two four-byte objects; each makes eight accesses.\<close>

definition cr_demo :: cyclic_run where
  "cr_demo = \<lparr>cr_T = flat 4 4, cr_N = 2, cr_mem0 = zero_mem,
     cr_inserts = [[1, 1, 1, 1], [2, 2, 2, 2], [3, 3, 3, 3]]\<rparr>"

lemma cr_demo_fields [simp]:
  "cr_T cr_demo = flat 4 4" "cr_N cr_demo = 2" "cr_mem0 cr_demo = zero_mem"
  "cr_inserts cr_demo = [[1, 1, 1, 1], [2, 2, 2, 2], [3, 3, 3, 3]]"
  by (simp_all add: cr_demo_def)

lemma cr_demo_invar: "cr_invar cr_demo"
  unfolding cr_invar_def cr_demo_fields using wf_flat_4_4 capacity_ok_2 by simp

lemma ins_ver_le: "ins_ver n N i w k t \<le> 2 * k"
  by (induction n N i w k t rule: ins_ver.induct) auto

lemma cs_ver_range:
  "cr_seq0 r i \<le> cs_ver (r, i) t" "cs_ver (r, i) t \<le> cr_seq0 r i + 2 * length (cr_inserts r)"
  using ins_ver_le by (simp_all add: cs_ver_def)

lemma cr_demo_no_lap: "cs_ver (cr_demo, i) t < cs_ver (cr_demo, i) u + 2 ^ 32"
  using cs_ver_range(1) [of cr_demo i u] cs_ver_range(2) [of cr_demo i t] by simp

lemma cr_demo_mem:
  "load_u64 (cr_mem cr_demo 8) 0 = 1" "load_u32 (cr_mem cr_demo 9) 8 = 2"
  "load_u32 (cr_mem cr_demo 14) 8 = 2" "load_u64 (cr_mem cr_demo 16) 0 = 2"
  "load_u32 (cr_mem cr_demo 24) 8 = 4"
  by code_simp+

lemma cr_demo_bytes: "read_bytes (cr_mem cr_demo \<circ> id) 10 12 4 = [1, 1, 1, 1]"
  "load_bytes (cr_mem cr_demo 24) 12 4 = [3, 3, 3, 3]"
  by code_simp+

lemma cr_demo_slot: "slot_seq (flat 4 4) 0 = 8" "slot_data (flat 4 4) 0 = 12"
  by code_simp+

lemma cr_demo_read: "CyclicBufferReader_try_get (cr_T cr_demo) (cr_N cr_demo) (cr_mem cr_demo \<circ> id) 0 4 8
    = Some (Some [1, 1, 1, 1], 15)"
  using cr_demo_bytes(1)
  by (simp add: CyclicBufferReader_try_get_def CyclicBufferReader_try_read_slot_def Let_def cr_demo_mem
      del: One_nat_def add_2_eq_Suc add_2_eq_Suc')
    (subst try_read_slot_step, simp add: cr_demo_mem cr_demo_slot del: One_nat_def add_2_eq_Suc add_2_eq_Suc')

lemma mono_id: "mono (id :: nat \<Rightarrow> nat)"
  by (simp add: mono_def)

theorem cyclic_try_get_untorn_witness:
  "unat (0 :: u64) < min (cr_done cr_demo (id 8)) 2 \<and>
   (\<exists>q. [1, 1, 1, 1] = cr_inserts cr_demo ! q \<and> q < cr_pub cr_demo (id 15))"
  using cyclic_try_get_untorn [OF cr_demo_invar _ _ mono_id cr_demo_no_lap cr_demo_read refl refl] by auto

lemma cr_demo_latest: "CyclicBufferReader_get_latest (cr_T cr_demo) (cr_N cr_demo) (cr_mem cr_demo \<circ> id) 8
    = Some ([1, 1, 1, 1], 15)"
  using cr_demo_bytes(1)
  by (simp add: CyclicBufferReader_get_latest_def Let_def cr_demo_mem
      del: One_nat_def add_2_eq_Suc add_2_eq_Suc')
    (subst read_slot_step, simp add: cr_demo_mem cr_demo_slot del: One_nat_def add_2_eq_Suc add_2_eq_Suc')

lemma cr_demo_done: "cr_done cr_demo 8 = 1" "cr_done cr_demo 16 = 2" "cr_done cr_demo 24 = 3"
  by code_simp+

theorem cyclic_get_latest_recent_witness:
  "\<exists>q. [1, 1, 1, 1] = cr_inserts cr_demo ! q \<and> cr_done cr_demo (id 8) - 1 \<le> q \<and> q < cr_pub cr_demo (id 15)"
  using cyclic_get_latest_recent [OF cr_demo_invar _ _ mono_id cr_demo_no_lap _ cr_demo_latest]
  by (simp add: cr_demo_done)

theorem cyclic_try_get_terminates_witness:
  "(\<exists>res c'. CyclicBufferReader_try_get (flat 4 4) 2 (\<lambda>_. store_u32 1 8 zero_mem) 0 4 0 = Some (res, c')) \<and>
   CyclicBufferReader_try_read_slot (flat 4 4) (\<lambda>_. store_u32 1 8 zero_mem) 0 (- 1) 0 = None"
proof -
  have "load_u32 (store_u32 1 8 zero_mem) (slot_seq (flat 4 4) 0) = 1"
    by (simp add: cr_demo_slot mem_simps)
  then show ?thesis
    using cyclic_try_get_terminates [of 4 "flat 4 4" 2 "\<lambda>_. store_u32 1 8 zero_mem" 0 0 0] by simp
qed

text \<open>A kernel that wakes every sleeper without a timeout and times out every other one.\<close>

definition futex_quick :: futex where
  "futex_quick k v e ts = (if v \<noteq> e then FutexEAGAIN else if ts = None then FutexWoken else FutexETIMEDOUT)"

lemma futex_quick_spec: "futex_spec futex_quick"
  by (simp add: futex_spec_def futex_quick_def)

theorem cyclic_wait_for_write_correct_witness:
  "\<exists>k \<ge> 8. (9 :: nat) = Suc k \<and> (1 :: u64) = of_nat (cr_done cr_demo (id k))"
proof -
  have "CyclicBufferReader_wait_for_write futex_quick (cr_mem cr_demo \<circ> id) 0 None 8 = Some (Some 1, 9)"
    by (subst wait_for_write_step) (simp add: cr_demo_mem)
  then show ?thesis
    using cyclic_wait_for_write_correct [OF cr_demo_invar _ futex_quick_spec, of id 0 None 8] by auto
qed

text \<open>
  The later object of the statement above does occur: \<open>try_get\<close> can answer with a newer object than the one
  requested. The request is for the element before the newest, insertion 0 of two; a third
  insertion replaces it between the read of the count and the read of the slot, and \<open>try_get\<close>
  returns that third object rather than nothing.
\<close>

theorem cyclic_try_get_newer:
  "\<exists>r clk c'. cr_invar r \<and> mono clk \<and> cr_N r = 2 \<and> cr_done r (clk 0) = 2 \<and>
     CyclicBufferReader_try_get (cr_T r) (cr_N r) (cr_mem r \<circ> clk) 1 4 0 = Some (Some (cr_inserts r ! 2), c') \<and>
     cr_inserts r ! 2 \<noteq> cr_inserts r ! 0"
proof -
  define clk :: "nat \<Rightarrow> nat" where "clk k = (if k = 0 then 16 else 24)" for k
  have bytes: "read_bytes (cr_mem cr_demo \<circ> clk) 2 12 4 = [3, 3, 3, 3]"
    by (rule read_bytes_stable) (simp_all add: clk_def cr_demo_bytes)
  have clk: "clk 0 = 16" "clk 1 = 24" "clk 6 = 24" by (simp_all add: clk_def)
  have "\<not> (2 :: u64) \<le> 1" by code_simp
  then have "CyclicBufferReader_try_get (cr_T cr_demo) (cr_N cr_demo) (cr_mem cr_demo \<circ> clk) 1 4 0
      = Some (Some [3, 3, 3, 3], 7)"
    by (simp add: CyclicBufferReader_try_get_def CyclicBufferReader_try_read_slot_def Let_def cr_demo_mem clk
        del: One_nat_def add_2_eq_Suc add_2_eq_Suc')
      (subst try_read_slot_step, simp add: cr_demo_mem cr_demo_slot clk bytes del: One_nat_def add_2_eq_Suc add_2_eq_Suc')
  moreover have "mono clk" by (auto simp: clk_def mono_def)
  ultimately show ?thesis
    using cr_demo_invar by (intro exI [of _ cr_demo] exI [of _ clk]) (simp add: clk_def cr_demo_done)
qed

end
