(* ===== verification/Cyclic_Combined.thy ===== *)
theory Cyclic_Combined
  imports Cyclic_Buffer
begin

text \<open>
  The class \<open>CyclicBuffer\<close> of \<^verbatim>\<open>cyclic_buffer.hpp\<close>: writer and reader in one object, for use
  within one process. The header writes its methods and accessors out a second time; so does
  this theory, and it shows that they agree with \<open>CyclicBufferWriter\<close> and
  \<open>CyclicBufferReader\<close> on the same segment.
\<close>

section \<open>Accessors\<close>

definition CyclicBuffer_total_writes_ptr :: nat where
  "CyclicBuffer_total_writes_ptr = 0"

definition CyclicBuffer_slot_seq :: "ctype \<Rightarrow> nat \<Rightarrow> nat" where
  "CyclicBuffer_slot_seq T idx = CyclicRegion_slots_offset T + idx * CyclicSlot_slot_size T"

definition CyclicBuffer_slot_data :: "ctype \<Rightarrow> nat \<Rightarrow> nat" where
  "CyclicBuffer_slot_data T idx =
     CyclicRegion_slots_offset T + idx * CyclicSlot_slot_size T + CyclicSlot_data_offset T"

definition CyclicBuffer_total_writes_cref :: nat where
  "CyclicBuffer_total_writes_cref = 0"

definition CyclicBuffer_slot_seq_c :: "ctype \<Rightarrow> nat \<Rightarrow> nat" where
  "CyclicBuffer_slot_seq_c T idx = CyclicRegion_slots_offset T + idx * CyclicSlot_slot_size T"

definition CyclicBuffer_slot_data_c :: "ctype \<Rightarrow> nat \<Rightarrow> nat" where
  "CyclicBuffer_slot_data_c T idx =
     CyclicRegion_slots_offset T + idx * CyclicSlot_slot_size T + CyclicSlot_data_offset T"

section \<open>Methods\<close>

definition CyclicBuffer_insert :: "ctype \<Rightarrow> nat \<Rightarrow> byte list \<Rightarrow> mem \<Rightarrow> act list" where
  "CyclicBuffer_insert T N data m =
     (let tw = CyclicBuffer_total_writes_ptr;
          writes = load_u64 m tw;
          idx = unat (writes AND (of_nat N - 1));
          s = CyclicBuffer_slot_seq T idx;
          cur = load_u32 m s
      in [Store32 s (cur + 1)]
         @ memcpy_acts (CyclicBuffer_slot_data T idx) data
         @ [Store32 s (cur + 2), Store64 tw (writes + 1), FutexWake tw])"

partial_function (option) CyclicBuffer_read_slot ::
    "ctype \<Rightarrow> (nat \<Rightarrow> mem) \<Rightarrow> nat \<Rightarrow> nat \<Rightarrow> (byte list \<times> nat) option" where
  "CyclicBuffer_read_slot T view idx c =
     (let s = CyclicBuffer_slot_seq_c T idx;
          before = load_u32 (view c) s
      in if before AND 1 \<noteq> 0 then CyclicBuffer_read_slot T view idx (c + 1)
         else
           let result = read_bytes view (c + 1) (CyclicBuffer_slot_data_c T idx) (sizeof T);
               after = load_u32 (view (c + 1 + sizeof T)) s
           in if before = after then Some (result, c + 2 + sizeof T)
              else CyclicBuffer_read_slot T view idx (c + 2 + sizeof T))"

partial_function (option) CyclicBuffer_try_read_slot_from ::
    "ctype \<Rightarrow> (nat \<Rightarrow> mem) \<Rightarrow> nat \<Rightarrow> u32 \<Rightarrow> u32 \<Rightarrow> nat \<Rightarrow> (byte list option \<times> nat) option" where
  "CyclicBuffer_try_read_slot_from T view idx max_retries attempt c =
     (if attempt \<le> max_retries then
        let s = CyclicBuffer_slot_seq_c T idx;
            before = load_u32 (view c) s
        in if before AND 1 \<noteq> 0
           then CyclicBuffer_try_read_slot_from T view idx max_retries (attempt + 1) (c + 1)
           else
             let result = read_bytes view (c + 1) (CyclicBuffer_slot_data_c T idx) (sizeof T);
                 after = load_u32 (view (c + 1 + sizeof T)) s
             in if before = after then Some (Some result, c + 2 + sizeof T)
                else CyclicBuffer_try_read_slot_from T view idx max_retries
                       (attempt + 1) (c + 2 + sizeof T)
      else Some (None, c))"

definition CyclicBuffer_try_read_slot ::
    "ctype \<Rightarrow> (nat \<Rightarrow> mem) \<Rightarrow> nat \<Rightarrow> u32 \<Rightarrow> nat \<Rightarrow> (byte list option \<times> nat) option" where
  "CyclicBuffer_try_read_slot T view idx max_retries c =
     CyclicBuffer_try_read_slot_from T view idx max_retries 0 c"

definition CyclicBuffer_get_latest ::
    "ctype \<Rightarrow> nat \<Rightarrow> (nat \<Rightarrow> mem) \<Rightarrow> nat \<Rightarrow> (byte list \<times> nat) option" where
  "CyclicBuffer_get_latest T N view c =
     (let writes = load_u64 (view c) CyclicBuffer_total_writes_cref
      in if writes = 0 then Some (value_init T, c + 1)
         else CyclicBuffer_read_slot T view (unat ((writes - 1) AND (of_nat N - 1))) (c + 1))"

definition CyclicBuffer_get ::
    "ctype \<Rightarrow> nat \<Rightarrow> (nat \<Rightarrow> mem) \<Rightarrow> u64 \<Rightarrow> nat \<Rightarrow> (byte list \<times> nat) option" where
  "CyclicBuffer_get T N view reverse_index c =
     (let writes = load_u64 (view c) CyclicBuffer_total_writes_cref;
          idx = unat ((writes - 1 - reverse_index) AND (of_nat N - 1))
      in CyclicBuffer_read_slot T view idx (c + 1))"

definition CyclicBuffer_try_get ::
    "ctype \<Rightarrow> nat \<Rightarrow> (nat \<Rightarrow> mem) \<Rightarrow> u64 \<Rightarrow> u32 \<Rightarrow> nat \<Rightarrow> (byte list option \<times> nat) option" where
  "CyclicBuffer_try_get T N view reverse_index max_retries c =
     (let writes = load_u64 (view c) CyclicBuffer_total_writes_cref
      in if min writes (of_nat N) \<le> reverse_index then Some (None, c + 1)
         else
           let idx = unat ((writes - 1 - reverse_index) AND (of_nat N - 1))
           in CyclicBuffer_try_read_slot T view idx max_retries (c + 1))"

definition CyclicBuffer_available :: "nat \<Rightarrow> (nat \<Rightarrow> mem) \<Rightarrow> nat \<Rightarrow> u64 \<times> nat" where
  "CyclicBuffer_available N view c =
     (let writes = load_u64 (view c) CyclicBuffer_total_writes_cref
      in (min writes (of_nat N), c + 1))"

definition CyclicBuffer_total_writes :: "(nat \<Rightarrow> mem) \<Rightarrow> nat \<Rightarrow> u64 \<times> nat" where
  "CyclicBuffer_total_writes view c =
     (load_u64 (view c) CyclicBuffer_total_writes_cref, c + 1)"

definition CyclicBuffer_capacity :: "nat \<Rightarrow> nat" where
  "CyclicBuffer_capacity N = N"

section \<open>Agreement with the reader and the writer\<close>

lemma CyclicBuffer_addresses [simp]:
  "CyclicBuffer_total_writes_ptr = CyclicBufferWriter_total_writes_ptr"
  "CyclicBuffer_slot_seq = CyclicBufferWriter_slot_seq" "CyclicBuffer_slot_data = CyclicBufferWriter_slot_data"
  "CyclicBuffer_total_writes_cref = CyclicBufferReader_total_writes_ptr"
  "CyclicBuffer_slot_seq_c = CyclicBufferReader_slot_seq" "CyclicBuffer_slot_data_c = CyclicBufferReader_slot_data"
  by (auto simp: fun_eq_iff CyclicBuffer_total_writes_ptr_def CyclicBuffer_slot_seq_def CyclicBuffer_slot_data_def
      CyclicBuffer_total_writes_cref_def CyclicBuffer_slot_seq_c_def CyclicBuffer_slot_data_c_def
      CyclicBufferWriter_slot_seq_def CyclicBufferWriter_slot_data_def)

lemma CyclicBuffer_read_slot_refines:
  assumes "CyclicBuffer_read_slot T view idx c = Some r"
  shows "CyclicBufferReader_read_slot T view idx c = Some r"
  by (rule CyclicBuffer_read_slot.raw_induct
        [where P = "\<lambda>T view idx c r. CyclicBufferReader_read_slot T view idx c = Some r", OF _ assms],
      subst CyclicBufferReader_read_slot.simps) (auto simp: Let_def split: if_splits)

lemma CyclicBufferReader_read_slot_refines:
  assumes "CyclicBufferReader_read_slot T view idx c = Some r"
  shows "CyclicBuffer_read_slot T view idx c = Some r"
  by (rule CyclicBufferReader_read_slot.raw_induct
        [where P = "\<lambda>T view idx c r. CyclicBuffer_read_slot T view idx c = Some r", OF _ assms],
      subst CyclicBuffer_read_slot.simps) (auto simp: Let_def split: if_splits)

lemma CyclicBuffer_try_read_slot_refines:
  assumes "CyclicBuffer_try_read_slot_from T view idx mx a c = Some r"
  shows "CyclicBufferReader_try_read_slot_from T view idx mx a c = Some r"
  by (rule CyclicBuffer_try_read_slot_from.raw_induct
        [where P = "\<lambda>T view idx mx a c r. CyclicBufferReader_try_read_slot_from T view idx mx a c = Some r", OF _ assms],
      subst CyclicBufferReader_try_read_slot_from.simps) (auto simp: Let_def split: if_splits)

lemma CyclicBufferReader_try_read_slot_refines:
  assumes "CyclicBufferReader_try_read_slot_from T view idx mx a c = Some r"
  shows "CyclicBuffer_try_read_slot_from T view idx mx a c = Some r"
  by (rule CyclicBufferReader_try_read_slot_from.raw_induct
        [where P = "\<lambda>T view idx mx a c r. CyclicBuffer_try_read_slot_from T view idx mx a c = Some r", OF _ assms],
      subst CyclicBuffer_try_read_slot_from.simps) (auto simp: Let_def split: if_splits)

lemma CyclicBuffer_slot_loops:
  "CyclicBuffer_read_slot T view idx c = CyclicBufferReader_read_slot T view idx c"
  "CyclicBuffer_try_read_slot T view idx mx c = CyclicBufferReader_try_read_slot T view idx mx c"
  unfolding CyclicBuffer_try_read_slot_def CyclicBufferReader_try_read_slot_def
  using CyclicBuffer_read_slot_refines CyclicBufferReader_read_slot_refines
    CyclicBuffer_try_read_slot_refines CyclicBufferReader_try_read_slot_refines
  by (metis not_Some_eq)+

lemma CyclicBuffer_methods:
  "CyclicBuffer_insert T N data m = CyclicBufferWriter_insert T N data m"
  "CyclicBuffer_get_latest T N view c = CyclicBufferReader_get_latest T N view c"
  "CyclicBuffer_get T N view ri c = CyclicBufferReader_get T N view ri c"
  "CyclicBuffer_try_get T N view ri mx c = CyclicBufferReader_try_get T N view ri mx c"
  "CyclicBuffer_available N view c = CyclicBufferReader_available N view c"
  "CyclicBuffer_total_writes view c = CyclicBufferReader_total_writes view c"
  by (simp_all add: CyclicBuffer_insert_def CyclicBufferWriter_insert_def CyclicBuffer_get_latest_def
      CyclicBufferReader_get_latest_def CyclicBuffer_get_def CyclicBufferReader_get_def CyclicBuffer_try_get_def
      CyclicBufferReader_try_get_def CyclicBuffer_available_def CyclicBufferReader_available_def
      CyclicBuffer_total_writes_def CyclicBufferReader_total_writes_def CyclicBuffer_slot_loops Let_def)

text \<open>
  The combined class \<open>CyclicBuffer\<close> behaves as a \<open>CyclicBufferWriter\<close> and a
  \<open>CyclicBufferReader\<close> on the same segment: every method makes the same accesses and returns
  the same results, so all that is shown of the pair holds of it.
\<close>

theorem cyclic_combined_class:
  "CyclicBuffer_insert T N data m = CyclicBufferWriter_insert T N data m \<and>
   CyclicBuffer_get_latest T N view c = CyclicBufferReader_get_latest T N view c \<and>
   CyclicBuffer_get T N view ri c = CyclicBufferReader_get T N view ri c \<and>
   CyclicBuffer_try_get T N view ri max_retries c = CyclicBufferReader_try_get T N view ri max_retries c \<and>
   CyclicBuffer_available N view c = CyclicBufferReader_available N view c \<and>
   CyclicBuffer_total_writes view c = CyclicBufferReader_total_writes view c \<and>
   CyclicBuffer_capacity N = CyclicBufferReader_capacity N"
  by (simp add: CyclicBuffer_methods CyclicBuffer_capacity_def CyclicBufferReader_capacity_def)

end
