(* ===== verification/Stamped.thy ===== *)
theory Stamped
  imports Shared_Access Flat_Type
begin

text \<open>
  \<^verbatim>\<open>stamped.hpp\<close>: the envelope \<open>Stamped<T>\<close> of a monotonic timestamp, a sequence number and an
  object. The struct layout is the one of the platform's C++ ABI: members in order, each at the
  next multiple of its alignment, the size rounded up to the alignment of the struct. Bytes of
  padding are unspecified, so the encoding takes them as a parameter \<open>pad\<close>. The answer of
  \<open>clock_gettime\<close> is a parameter \<open>now\<close>.
\<close>

section \<open>The struct\<close>

record stamped =
  timestamp_ns :: u64
  sequence :: u64
  stamped_data :: "byte list"

definition Stamped_data_offset :: "ctype \<Rightarrow> nat" where
  "Stamped_data_offset T = align_up 16 (alignof T)"

definition Stamped_align :: "ctype \<Rightarrow> nat" where
  "Stamped_align T = max 8 (alignof T)"

definition Stamped_size :: "ctype \<Rightarrow> nat" where
  "Stamped_size T = align_up (Stamped_data_offset T + sizeof T) (Stamped_align T)"

definition encode_stamped :: "ctype \<Rightarrow> (nat \<Rightarrow> byte) \<Rightarrow> stamped \<Rightarrow> byte list" where
  "encode_stamped T pad s =
     le_bytes 8 (timestamp_ns s) @ le_bytes 8 (sequence s)
     @ map pad [16..<Stamped_data_offset T]
     @ stamped_data s
     @ map pad [Stamped_data_offset T + sizeof T..<Stamped_size T]"

definition decode_stamped :: "ctype \<Rightarrow> byte list \<Rightarrow> stamped" where
  "decode_stamped T bs =
     \<lparr>timestamp_ns = le_word (take 8 bs), sequence = le_word (take 8 (drop 8 bs)),
      stamped_data = take (sizeof T) (drop (Stamped_data_offset T) bs)\<rparr>"

text \<open>The struct as a template argument of the buffers.\<close>

definition Stamped_type :: "ctype \<Rightarrow> ctype" where
  "Stamped_type T =
     \<lparr>sizeof = Stamped_size T, alignof = Stamped_align T,
      trivially_copyable = trivially_copyable T, standard_layout = standard_layout T,
      value_init = encode_stamped T (\<lambda>_. 0)
        \<lparr>timestamp_ns = 0, sequence = 0, stamped_data = value_init T\<rparr>\<rparr>"

section \<open>Operations\<close>

text \<open>The two casts to \<open>uint64_t\<close> and the arithmetic wrap.\<close>

definition monotonic_now_ns :: "timespec \<Rightarrow> u64" where
  "monotonic_now_ns now = word_of_int (tv_sec now) * 1000000000 + word_of_int (tv_nsec now)"

definition stamp :: "timespec \<Rightarrow> byte list \<Rightarrow> u64 \<Rightarrow> stamped" where
  "stamp now data seq = \<lparr>timestamp_ns = monotonic_now_ns now, sequence = seq, stamped_data = data\<rparr>"

section \<open>Layout\<close>

lemma is_pow2_max8: "is_pow2 a \<Longrightarrow> is_pow2 (max 8 a)"
proof -
  have "is_pow2 8" by code_simp
  then show "is_pow2 a \<Longrightarrow> is_pow2 (max 8 a)" by (simp add: max_def)
qed

lemma stamped_layout:
  assumes "wf_ctype T"
  shows "16 \<le> Stamped_data_offset T" and "alignof T dvd Stamped_data_offset T"
    and "Stamped_data_offset T + sizeof T \<le> Stamped_size T" and "Stamped_align T dvd Stamped_size T"
  using wf_ctypeD [OF assms] align_up_ge dvd_align_up is_pow2_max8
  by (simp_all add: Stamped_data_offset_def Stamped_size_def Stamped_align_def)

lemma length_encode_stamped:
  "wf_ctype T \<Longrightarrow> object_of T (stamped_data s) \<Longrightarrow> length (encode_stamped T pad s) = Stamped_size T"
  using stamped_layout [of T] by (simp add: encode_stamped_def object_of_def)

lemma Stamped_type_fields [simp]:
  "sizeof (Stamped_type T) = Stamped_size T" "alignof (Stamped_type T) = Stamped_align T"
  "trivially_copyable (Stamped_type T) = trivially_copyable T"
  "standard_layout (Stamped_type T) = standard_layout T"
  "value_init (Stamped_type T) = encode_stamped T (\<lambda>_. 0)
     \<lparr>timestamp_ns = 0, sequence = 0, stamped_data = value_init T\<rparr>"
  by (simp_all add: Stamped_type_def)

lemma wf_Stamped_type:
  assumes "wf_ctype T"
  shows "wf_ctype (Stamped_type T)"
proof -
  have "is_pow2 (Stamped_align T)"
    using is_pow2_max8 wf_ctypeD(1) [OF assms] by (simp add: Stamped_align_def)
  moreover have "length (value_init (Stamped_type T)) = Stamped_size T"
    using assms wf_ctypeD(4) [OF assms] by (simp add: length_encode_stamped object_of_def)
  ultimately show ?thesis
    using stamped_layout [OF assms] wf_ctypeD(3) [OF assms] unfolding wf_ctype_def by simp
qed

lemma decode_encode_stamped:
  assumes "wf_ctype T" and "object_of T (stamped_data s)"
  shows "decode_stamped T (encode_stamped T pad s) = s"
proof -
  have "Stamped_data_offset T - 16 + 16 = Stamped_data_offset T"
    using stamped_layout(1) [OF assms(1)] by simp
  with assms(2) stamped_layout(1) [OF assms(1)] show ?thesis
    by (simp add: decode_stamped_def encode_stamped_def object_of_def)
qed

section \<open>Stamped doubles\<close>

text \<open>\<open>double\<close> as a template argument; \<open>Stamped<double>\<close> has no padding.\<close>

definition double_type :: ctype where
  "double_type = flat 8 8"

lemma sizeof_double_type [simp]: "sizeof double_type = 8"
  by (simp add: double_type_def)

lemma wf_double_type: "wf_ctype double_type"
  by (simp add: double_type_def wf_ctype_def) code_simp

section \<open>Properties\<close>

text \<open>
  \<open>Stamped<T>\<close> of a flat type is itself a flat type with a consistent layout, and its bytes
  carry exactly the stamp: whatever the padding holds, the fields read back are the fields
  written.
\<close>

theorem stamped_roundtrip:
  assumes "wf_ctype T" and "FlatType T" and "object_of T data"
  shows "FlatType (Stamped_type T) \<and> wf_ctype (Stamped_type T) \<and>
         object_of (Stamped_type T) (encode_stamped T pad (stamp now data seq)) \<and>
         decode_stamped T (encode_stamped T pad (stamp now data seq)) = stamp now data seq"
  using assms wf_Stamped_type decode_encode_stamped length_encode_stamped
  by (simp add: FlatType_def object_of_def stamp_def)

lemma uint_monotonic_now_ns:
  assumes "0 \<le> tv_sec now" and "0 \<le> tv_nsec now" and "tv_sec now * 1000000000 + tv_nsec now < 2 ^ 64"
  shows "uint (monotonic_now_ns now) = tv_sec now * 1000000000 + tv_nsec now"
proof -
  have "monotonic_now_ns now = word_of_int (tv_sec now * 1000000000 + tv_nsec now)"
    by (simp add: monotonic_now_ns_def)
  then have "uint (monotonic_now_ns now) = (tv_sec now * 1000000000 + tv_nsec now) mod 2 ^ 64"
    by (simp only: uint_word_of_int) simp
  with assms show ?thesis by simp
qed

text \<open>
  The timestamp of \<open>stamp\<close> orders like the clock: for clock readings before year 584 of
  uptime it is the exact number of nanoseconds, so a later reading gives a larger key.
\<close>

theorem stamp_orders_like_clock:
  assumes "0 \<le> tv_sec now" and "0 \<le> tv_nsec now"
    and "tv_sec now < tv_sec later \<or> tv_sec now = tv_sec later \<and> tv_nsec now < tv_nsec later"
    and "tv_nsec now < 1000000000" and "0 \<le> tv_nsec later"
    and "tv_sec later * 1000000000 + tv_nsec later < 2 ^ 64"
  shows "timestamp_ns (stamp now data seq) < timestamp_ns (stamp later data' seq') \<and>
         uint (timestamp_ns (stamp now data seq)) = tv_sec now * 1000000000 + tv_nsec now"
proof -
  have "tv_sec now * 1000000000 + tv_nsec now < tv_sec later * 1000000000 + tv_nsec later"
    using assms by auto
  moreover have "0 \<le> tv_sec later" using assms by auto
  ultimately show ?thesis
    using assms uint_monotonic_now_ns [of now] uint_monotonic_now_ns [of later]
    by (simp add: stamp_def word_less_def)
qed

section \<open>Witnesses\<close>

theorem stamped_roundtrip_witness:
  "FlatType (Stamped_type (flat 4 4)) \<and>
   decode_stamped (flat 4 4) (encode_stamped (flat 4 4) (\<lambda>_. 255)
     (stamp \<lparr>tv_sec = 1, tv_nsec = 5\<rparr> [1, 2, 3, 4] 7)) = stamp \<lparr>tv_sec = 1, tv_nsec = 5\<rparr> [1, 2, 3, 4] 7"
proof -
  have "wf_ctype (flat 4 4)" by (simp add: wf_ctype_def) code_simp
  then show ?thesis
    using stamped_roundtrip [of "flat 4 4" "[1, 2, 3, 4]" "\<lambda>_. 255" "\<lparr>tv_sec = 1, tv_nsec = 5\<rparr>" 7]
    by (simp add: FlatType_def object_of_def)
qed

theorem stamp_orders_like_clock_witness:
  "timestamp_ns (stamp \<lparr>tv_sec = 1, tv_nsec = 999999999\<rparr> [] 0) < timestamp_ns (stamp \<lparr>tv_sec = 2, tv_nsec = 0\<rparr> [] 1)"
  using stamp_orders_like_clock [of "\<lparr>tv_sec = 1, tv_nsec = 999999999\<rparr>" "\<lparr>tv_sec = 2, tv_nsec = 0\<rparr>" "[]" 0 "[]" 1]
  by simp

end
