(* ===== verification/Sanitized_Key.thy ===== *)
theory Sanitized_Key
  imports Prelude
begin

text \<open>
  \<^verbatim>\<open>sanitized_key.hpp\<close>: keys that have passed a validator, and the built-in validators; and
  the three \<open>validate_*\<close> functions of the Python module (\<^verbatim>\<open>nanobind_safe_shm.cpp\<close>), which raise
  on the values the validators reject.
\<close>

section \<open>Sanitized keys\<close>

text \<open>The tag is a phantom type parameter, as in the code.\<close>

datatype 'tag SanitizedKey = SanitizedKey (SanitizedKey_value: u64)

definition sanitize :: "u64 \<Rightarrow> (u64 \<Rightarrow> bool) \<Rightarrow> 'tag SanitizedKey option" where
  "sanitize raw fn = (if fn raw then Some (SanitizedKey raw) else None)"

datatype MonotonicNsTag = MonotonicNsTag
datatype RangeCheckedTag = RangeCheckedTag
datatype ProximityCheckedTag = ProximityCheckedTag

section \<open>Validators\<close>

record range_validator =
  min_val :: u64
  max_val :: u64

definition RangeValidator :: "range_validator \<Rightarrow> u64 \<Rightarrow> bool" where
  "RangeValidator r v \<longleftrightarrow> v \<ge> min_val r \<and> v \<le> max_val r"

record proximity_validator =
  reference :: u64
  tolerance :: u64

definition ProximityValidator :: "proximity_validator \<Rightarrow> u64 \<Rightarrow> bool" where
  "ProximityValidator p v \<longleftrightarrow>
     (if v > reference p then v - reference p else reference p - v) \<le> tolerance p"

definition MIN_NS :: u64 where
  "MIN_NS = 1000000000"

definition MAX_NS :: u64 where
  "MAX_NS = 100 * 365 * 86400 * 1000000000"

definition MonotonicNsValidator :: "u64 \<Rightarrow> bool" where
  "MonotonicNsValidator v \<longleftrightarrow> v \<ge> MIN_NS \<and> v \<le> MAX_NS"

fun AllOf :: "(u64 \<Rightarrow> bool) list \<Rightarrow> u64 \<Rightarrow> bool" where
  "AllOf [] v = True"
| "AllOf (vd # vs) v = (vd v \<and> AllOf vs v)"

section \<open>The Python validators\<close>

text \<open>\<open>std::invalid_argument\<close>, with the numbers its message is made of.\<close>

datatype invalid_argument =
    NotMonotonicNs u64
  | OutsideRange u64 u64 u64
  | OutsideTolerance u64 u64 u64

definition validate_monotonic_ns :: "u64 \<Rightarrow> invalid_argument + u64" where
  "validate_monotonic_ns v = (if \<not> MonotonicNsValidator v then Inl (NotMonotonicNs v) else Inr v)"

definition validate_range :: "u64 \<Rightarrow> u64 \<Rightarrow> u64 \<Rightarrow> invalid_argument + u64" where
  "validate_range v mn mx =
     (if \<not> RangeValidator \<lparr>min_val = mn, max_val = mx\<rparr> v then Inl (OutsideRange v mn mx) else Inr v)"

definition validate_proximity :: "u64 \<Rightarrow> u64 \<Rightarrow> u64 \<Rightarrow> invalid_argument + u64" where
  "validate_proximity v ref tol =
     (if \<not> ProximityValidator \<lparr>reference = ref, tolerance = tol\<rparr> v then Inl (OutsideTolerance v ref tol) else Inr v)"

section \<open>Properties\<close>

lemma word_absdiff: "uint (if (a :: u64) > b then a - b else b - a) = \<bar>uint a - uint b\<bar>"
  by (auto simp: uint_minus_simple_alt [THEN iffD1] word_less_def uint_sub_if')

lemma uint_MAX_NS: "uint MAX_NS = 3153600000000000000"
  by (simp add: MAX_NS_def)

lemma uint_MIN_NS: "uint MIN_NS = 1000000000"
  by (simp add: MIN_NS_def)

lemma AllOf_iff: "AllOf vs v \<longleftrightarrow> (\<forall>vd \<in> set vs. vd v)"
  by (induction vs) auto

lemma validators_int:
  "RangeValidator r v \<longleftrightarrow> uint (min_val r) \<le> uint v \<and> uint v \<le> uint (max_val r)"
  "ProximityValidator p v \<longleftrightarrow> \<bar>uint v - uint (reference p)\<bar> \<le> uint (tolerance p)"
  "MonotonicNsValidator v \<longleftrightarrow> 1000000000 \<le> uint v \<and> uint v \<le> 3153600000000000000"
  by (simp_all add: RangeValidator_def ProximityValidator_def MonotonicNsValidator_def word_le_def
      word_absdiff uint_MIN_NS uint_MAX_NS)

text \<open>
  A key carries a value exactly when the validator accepts it, and the value is the raw one.
  The validators decide, over the unbounded integers and so with no wrap-around in their
  subtractions and constants, \<open>min \<le> v \<le> max\<close>, \<open>|v - reference| \<le> tolerance\<close> and one second
  to a hundred years of nanoseconds; a combination accepts what every one of them accepts.
\<close>

theorem sanitizer_exact:
  "(sanitize raw (AllOf vs) = Some (k :: 'tag SanitizedKey))
     = (list_all (\<lambda>vd. vd raw) vs \<and> SanitizedKey_value k = raw) \<and>
   RangeValidator r v = (uint (min_val r) \<le> uint v \<and> uint v \<le> uint (max_val r)) \<and>
   ProximityValidator p v = (\<bar>uint v - uint (reference p)\<bar> \<le> uint (tolerance p)) \<and>
   MonotonicNsValidator v = (10 ^ 9 \<le> uint v \<and> uint v \<le> 100 * 365 * 86400 * 10 ^ 9)"
proof -
  have "(sanitize raw (AllOf vs) = Some k) = (list_all (\<lambda>vd. vd raw) vs \<and> SanitizedKey_value k = raw)"
    by (cases k) (auto simp: sanitize_def AllOf_iff list_all_iff)
  then show ?thesis by (simp add: validators_int)
qed

text \<open>
  The Python functions return their argument or raise \<open>std::invalid_argument\<close> for it, the
  former exactly under the same integer conditions.
\<close>

theorem python_validators_raise:
  "validate_range v mn mx =
     (if uint mn \<le> uint v \<and> uint v \<le> uint mx then Inr v else Inl (OutsideRange v mn mx)) \<and>
   validate_proximity v ref tol =
     (if \<bar>uint v - uint ref\<bar> \<le> uint tol then Inr v else Inl (OutsideTolerance v ref tol)) \<and>
   validate_monotonic_ns v =
     (if 10 ^ 9 \<le> uint v \<and> uint v \<le> 100 * 365 * 86400 * 10 ^ 9 then Inr v else Inl (NotMonotonicNs v))"
  by (simp add: validate_range_def validate_proximity_def validate_monotonic_ns_def validators_int)

end
