(* ===== verification/Double.thy ===== *)
theory Double
  imports Complex_Main "HOL-Library.Log_Nat" Prelude
begin

text \<open>
  The part of IEEE 754 arithmetic that the library uses: for the interpolation factor of
  \<^verbatim>\<open>time_series.hpp\<close> the conversion \<open>static_cast<double>(uint64_t)\<close> and the division of two
  converted values, and for the image size of \<^verbatim>\<open>image.hpp\<close> the conversion of an integer to
  \<open>float\<close> and a product. All round the exact result, to 53 or 24 significant bits, to nearest with
  ties to even. All values that occur are zero or lie between \<open>2^-64\<close> and \<open>2^64\<close>, far from overflow
  and from the subnormal range, so a floating-point number is the rational number it denotes.
\<close>

section \<open>Rounding\<close>

definition round_half_even :: "rat \<Rightarrow> int" where
  "round_half_even x =
     (let n = \<lfloor>x\<rfloor>; f = x - of_int n
      in if f < 1 / 2 then n else if 1 / 2 < f then n + 1 else if even n then n else n + 1)"

text \<open>The binary exponent of a positive number.\<close>

definition ilog2 :: "rat \<Rightarrow> int" where
  "ilog2 x =
     (let (p, q) = quotient_of x;
          e = int (floorlog 2 (nat p)) - int (floorlog 2 (nat q))
      in if 2 powi e \<le> x then e else e - 1)"

text \<open>Rounding to \<open>prec\<close> significant bits: 53 for \<open>double\<close>, 24 for \<open>float\<close>.\<close>

definition round_binary :: "nat \<Rightarrow> rat \<Rightarrow> rat" where
  "round_binary prec x =
     (if x = 0 then 0
      else let ulp = 2 powi (ilog2 x - (int prec - 1)) in of_int (round_half_even (x / ulp)) * ulp)"

definition round_double :: "rat \<Rightarrow> rat" where
  "round_double x = round_binary 53 x"

definition round_float :: "rat \<Rightarrow> rat" where
  "round_float x = round_binary 24 x"

definition u64_to_double :: "u64 \<Rightarrow> rat" where
  "u64_to_double w = round_double (of_nat (unat w))"

definition double_div :: "rat \<Rightarrow> rat \<Rightarrow> rat" where
  "double_div x y = round_double (x / y)"

lemma round_double_alt:
  "round_double x = (if x = 0 then 0
     else let ulp = 2 powi (ilog2 x - 52) in of_int (round_half_even (x / ulp)) * ulp)"
  by (simp add: round_double_def round_binary_def)

section \<open>Monotonicity\<close>

lemma round_half_even_of_int [simp]: "round_half_even (of_int n) = n"
  by (simp add: round_half_even_def)

lemma round_half_even_bounds: "\<lfloor>x\<rfloor> \<le> round_half_even x" "round_half_even x \<le> \<lfloor>x\<rfloor> + 1"
  by (auto simp: round_half_even_def Let_def)

lemma round_half_even_mono:
  assumes "x \<le> y"
  shows "round_half_even x \<le> round_half_even y"
proof (cases "\<lfloor>x\<rfloor> = \<lfloor>y\<rfloor>")
  case True
  with assms show ?thesis by (auto simp: round_half_even_def Let_def)
next
  case False
  with assms have "\<lfloor>x\<rfloor> + 1 \<le> \<lfloor>y\<rfloor>" using floor_mono [OF assms] by simp
  then show ?thesis using round_half_even_bounds [of x] round_half_even_bounds [of y] by linarith
qed

lemma powi2_le: "a \<le> b \<Longrightarrow> (2 :: rat) powi a \<le> 2 powi b"
  by (rule power_int_increasing) auto

lemma powi2_Suc: "(2 :: rat) powi (a + 1) = 2 * 2 powi a"
  by (simp add: power_int_add)

lemma floorlog_bounds:
  assumes "0 < n"
  shows "(2 :: rat) powi (int (floorlog 2 n) - 1) \<le> of_nat n"
    and "of_nat n < (2 :: rat) powi int (floorlog 2 n)"
proof -
  have "2 ^ (floorlog 2 n - 1) \<le> n" "n < 2 ^ floorlog 2 n" "0 < floorlog 2 n"
    using floorlog_bounds [of n 2] assms by (simp_all add: floorlog_def)
  moreover from this(1) have "(2 :: rat) ^ (floorlog 2 n - 1) \<le> of_nat n"
    by (metis of_nat_le_iff of_nat_numeral of_nat_power)
  moreover from calculation(2) have "(of_nat n :: rat) < 2 ^ floorlog 2 n"
    by (metis of_nat_less_iff of_nat_numeral of_nat_power)
  moreover from calculation(3) have "int (floorlog 2 n) - 1 = int (floorlog 2 n - 1)"
    by simp
  ultimately show "(2 :: rat) powi (int (floorlog 2 n) - 1) \<le> of_nat n"
    and "of_nat n < (2 :: rat) powi int (floorlog 2 n)"
    by (simp_all only: power_int_of_nat)
qed

lemma ilog2_bounds:
  assumes "0 < x"
  shows "2 powi ilog2 x \<le> x" and "x < 2 powi (ilog2 x + 1)"
proof -
  obtain p q where pq: "quotient_of x = (p, q)" by (cases "quotient_of x")
  have q: "0 < q" and x: "x = of_int p / of_int q"
    using pq quotient_of_denom_pos quotient_of_div by auto
  with assms have p: "0 < p" by (simp add: zero_less_divide_iff)
  let ?p = "floorlog 2 (nat p)" and ?q = "floorlog 2 (nat q)"
  let ?e = "int ?p - int ?q"
  have P: "2 powi (int ?p - 1) \<le> (of_int p :: rat)" "(of_int p :: rat) < 2 powi int ?p"
    and Q: "2 powi (int ?q - 1) \<le> (of_int q :: rat)" "(of_int q :: rat) < 2 powi int ?q"
    using Double.floorlog_bounds [of "nat p"] Double.floorlog_bounds [of "nat q"] p q by simp_all
  have "2 powi (?e - 1) = (2 powi (int ?p - 1) / 2 powi int ?q :: rat)"
    by (simp add: power_int_diff)
  also have "\<dots> \<le> of_int p / of_int q"
    using P Q p q by (intro frac_le) auto
  finally have lo: "2 powi (?e - 1) \<le> x" using x by simp
  have "of_int p / of_int q < (2 powi int ?p / 2 powi (int ?q - 1) :: rat)"
    using P Q p q by (intro frac_less) auto
  also have "\<dots> = 2 powi (?e + 1)"
    by (simp add: power_int_diff power_int_add)
  finally have hi: "x < 2 powi (?e + 1)" using x by simp
  show "2 powi ilog2 x \<le> x" and "x < 2 powi (ilog2 x + 1)"
    using lo hi by (auto simp: ilog2_def pq Let_def)
qed

lemma ilog2_eqI:
  assumes "2 powi e \<le> x" and "x < 2 powi (e + 1)"
  shows "ilog2 x = e"
proof -
  have "0 < x" using assms(1) by (rule less_le_trans [rotated]) simp
  note b = ilog2_bounds [OF this]
  have "\<not> e + 1 \<le> ilog2 x" using powi2_le [of "e + 1" "ilog2 x"] b assms by force
  moreover have "\<not> ilog2 x + 1 \<le> e" using powi2_le [of "ilog2 x + 1" e] b assms by force
  ultimately show ?thesis by linarith
qed

text \<open>A number that is a whole multiple of its unit in the last place is represented exactly.\<close>

lemma round_binary_exact:
  assumes "2 powi e \<le> x" and "x < 2 powi (e + 1)" and "x = of_int k * 2 powi (e - (int prec - 1))"
  shows "round_binary prec x = x"
proof -
  have "ilog2 x = e" using assms(1,2) by (rule ilog2_eqI)
  moreover have "x \<noteq> 0" using assms(1) by (metis not_le zero_less_numeral zero_less_power_int)
  moreover have "x / 2 powi (e - (int prec - 1)) = of_int k" using assms(3) by simp
  ultimately show ?thesis using assms(3) by (simp add: round_binary_def Let_def)
qed

lemma ilog2_mono: "0 < x \<Longrightarrow> x \<le> y \<Longrightarrow> ilog2 x \<le> ilog2 y"
proof (rule ccontr)
  assume "0 < x" "x \<le> y" and "\<not> ilog2 x \<le> ilog2 y"
  then have "(2 :: rat) powi (ilog2 y + 1) \<le> 2 powi ilog2 x" by (intro powi2_le) simp
  with ilog2_bounds [of x] ilog2_bounds [of y] \<open>0 < x\<close> \<open>x \<le> y\<close> show False by linarith
qed

text \<open>A rounded number stays within the binade of the exact one.\<close>

lemma round_double_binade:
  assumes "0 < x"
  shows "2 powi ilog2 x \<le> round_double x" and "round_double x \<le> 2 powi (ilog2 x + 1)"
proof -
  define ulp :: rat where "ulp = 2 powi (ilog2 x - 52)"
  have ulp: "0 < ulp" by (simp add: ulp_def)
  have lo: "2 powi ilog2 x = of_int (2 ^ 52) * ulp" and hi: "2 powi (ilog2 x + 1) = of_int (2 ^ 53) * ulp"
    by (simp_all add: ulp_def power_int_diff power_int_add)
  have "of_int (2 ^ 52) \<le> x / ulp" "x / ulp \<le> of_int (2 ^ 53)"
    using ilog2_bounds [OF assms] ulp unfolding lo hi by (simp_all add: pos_le_divide_eq pos_divide_le_eq)
  then have "2 ^ 52 \<le> round_half_even (x / ulp)" "round_half_even (x / ulp) \<le> 2 ^ 53"
    using round_half_even_mono [of "of_int (2 ^ 52)" "x / ulp"] round_half_even_mono [of "x / ulp" "of_int (2 ^ 53)"]
    by (simp_all only: round_half_even_of_int)
  then have "(of_int (2 ^ 52) :: rat) \<le> of_int (round_half_even (x / ulp))"
      "of_int (round_half_even (x / ulp)) \<le> (of_int (2 ^ 53) :: rat)"
    by (simp_all only: of_int_le_iff)
  then have "of_int (2 ^ 52) * ulp \<le> of_int (round_half_even (x / ulp)) * ulp"
      "of_int (round_half_even (x / ulp)) * ulp \<le> of_int (2 ^ 53) * ulp"
    using ulp by (intro mult_right_mono; simp)+
  then show "2 powi ilog2 x \<le> round_double x" and "round_double x \<le> 2 powi (ilog2 x + 1)"
    using assms unfolding lo hi by (simp_all add: round_double_alt Let_def ulp_def)
qed

lemma round_double_0 [simp]: "round_double 0 = 0"
  by (simp add: round_double_alt)

lemma round_double_pos: "0 < x \<Longrightarrow> 0 < round_double x"
  using round_double_binade(1) [of x] by (rule less_le_trans [rotated]) simp_all

lemma round_double_mono:
  assumes "0 \<le> x" and "x \<le> y"
  shows "round_double x \<le> round_double y"
proof (cases "x = 0")
  case True
  with assms show ?thesis using round_double_pos [of y] by (cases "y = 0") auto
next
  case False
  with assms have x: "0 < x" and y: "0 < y" by auto
  show ?thesis
  proof (cases "ilog2 x = ilog2 y")
    case True
    let ?u = "2 powi (ilog2 y - 52) :: rat"
    have "round_half_even (x / ?u) \<le> round_half_even (y / ?u)"
      using assms(2) by (intro round_half_even_mono divide_right_mono) auto
    then have "(of_int (round_half_even (x / ?u)) :: rat) \<le> of_int (round_half_even (y / ?u))"
      by (simp only: of_int_le_iff)
    then have "of_int (round_half_even (x / ?u)) * ?u \<le> of_int (round_half_even (y / ?u)) * ?u"
      by (rule mult_right_mono) simp
    with x y True show ?thesis by (simp add: round_double_alt Let_def)
  next
    case False
    with ilog2_mono [OF x assms(2)] have "(2 :: rat) powi (ilog2 x + 1) \<le> 2 powi ilog2 y"
      by (intro powi2_le) simp
    with round_double_binade(2) [OF x] round_double_binade(1) [OF y] show ?thesis by linarith
  qed
qed

lemma round_double_1: "round_double 1 = 1"
  by code_simp

section \<open>Quotients of converted words\<close>

lemma u64_to_double_0 [simp]: "u64_to_double 0 = 0"
  by (simp add: u64_to_double_def)

lemma u64_to_double_pos: "w \<noteq> 0 \<Longrightarrow> 0 < u64_to_double w"
  unfolding u64_to_double_def by (rule round_double_pos) (simp add: unat_gt_0 del: of_nat_unat)

lemma u64_to_double_mono: "v \<le> w \<Longrightarrow> u64_to_double v \<le> u64_to_double w"
  unfolding u64_to_double_def by (rule round_double_mono) (simp_all add: word_le_nat_alt del: of_nat_unat)

text \<open>The quotient of two converted words \<open>v \<le> w\<close> is between 0 and 1, and zero only for \<open>v = 0\<close>.\<close>

lemma double_ratio_range:
  assumes "v \<le> w" and "w \<noteq> 0"
  shows "0 \<le> double_div (u64_to_double v) (u64_to_double w)"
    and "double_div (u64_to_double v) (u64_to_double w) \<le> 1"
    and "double_div (u64_to_double v) (u64_to_double w) = 0 \<longleftrightarrow> v = 0"
proof -
  have w: "0 < u64_to_double w" and le: "u64_to_double v \<le> u64_to_double w"
    using assms by (simp_all add: u64_to_double_pos u64_to_double_mono)
  have v: "0 \<le> u64_to_double v" by (cases "v = 0") (auto dest: u64_to_double_pos)
  then have q: "0 \<le> u64_to_double v / u64_to_double w" "u64_to_double v / u64_to_double w \<le> 1"
    using w le by simp_all
  show "0 \<le> double_div (u64_to_double v) (u64_to_double w)"
    using round_double_mono [OF order.refl q(1)] by (simp add: double_div_def)
  show "double_div (u64_to_double v) (u64_to_double w) \<le> 1"
    using round_double_mono [OF q] by (simp add: double_div_def round_double_1)
  show "double_div (u64_to_double v) (u64_to_double w) = 0 \<longleftrightarrow> v = 0"
  proof (cases "v = 0")
    case False
    then have "0 < u64_to_double v / u64_to_double w" using w u64_to_double_pos [of v] by simp
    then show ?thesis using False round_double_pos by (force simp: double_div_def)
  qed (simp add: double_div_def)
qed

end
