(* ===== verification/Time_Series.thy ===== *)
theory Time_Series
  imports Cyclic_History Stamped Sanitized_Key Double "HOL-Library.Monad_Syntax"
begin

text \<open>
  \<^verbatim>\<open>time_series.hpp\<close>: lookup by key on top of a cyclic-buffer reader. \<open>TimeSeries\<close> holds a
  \<open>CyclicBufferReader\<close> and a key extractor; every element it sees comes from a call of the
  reader's \<open>available\<close> or \<open>try_get\<close>, so the operations take the reader as a record of these
  two calls (\<open>cyclic_reader\<close> fills it with the cyclic buffer's own) and the extractor as a
  function. Each call threads the index of the reader's next access to the segment; an outer
  \<open>None\<close> would be a call that never returns. Reverse indices stay below \<open>available() \<le> N\<close>, so
  their arithmetic cannot wrap and they are natural numbers; keys are 64-bit words.
\<close>

section \<open>The reader a series is built on\<close>

record 'e ts_reader =
  rd_available :: "nat \<Rightarrow> nat \<times> nat"
  rd_try_get :: "nat \<Rightarrow> nat \<Rightarrow> ('e option \<times> nat) option"

text \<open>The default \<open>max_retries = 4\<close>.\<close>

definition cyclic_reader :: "ctype \<Rightarrow> nat \<Rightarrow> (nat \<Rightarrow> mem) \<Rightarrow> byte list ts_reader" where
  "cyclic_reader T N view =
     \<lparr>rd_available = (\<lambda>c. let (a, c') = CyclicBufferReader_available N view c in (unat a, c')),
      rd_try_get = (\<lambda>i c. CyclicBufferReader_try_get T N view (of_nat i) 4 c)\<rparr>"

definition StampedKeyExtractor :: "ctype \<Rightarrow> byte list \<Rightarrow> u64" where
  "StampedKeyExtractor T s = timestamp_ns (decode_stamped T s)"

definition key_diff :: "u64 \<Rightarrow> u64 \<Rightarrow> u64" where
  "key_diff a b = (if a > b then a - b else b - a)"

section \<open>Closest element\<close>

text \<open>How the binary search ends.\<close>

datatype 'e search =
    Overwritten       \<comment> \<open>a slot could not be read\<close>
  | Exact 'e          \<comment> \<open>an element with the target key\<close>
  | Stopped nat       \<comment> \<open>the loop ended with this \<open>lo\<close>\<close>

function find_closest_loop ::
    "'e ts_reader \<Rightarrow> ('e \<Rightarrow> u64) \<Rightarrow> u64 \<Rightarrow> nat \<Rightarrow> nat \<Rightarrow> nat \<Rightarrow> ('e search \<times> nat) option" where
  "find_closest_loop rd key target lo hi c =
     (if lo < hi then
        let mid = lo + (hi - lo) div 2
        in do {
          (elem, c) \<leftarrow> rd_try_get rd mid c;
          case elem of
            None \<Rightarrow> Some (Overwritten, c)
          | Some e \<Rightarrow>
              let mid_key = key e
              in if mid_key > target then find_closest_loop rd key target (mid + 1) hi c
                 else if mid_key < target then
                   if mid = 0 then Some (Stopped lo, c)
                   else find_closest_loop rd key target lo (mid - 1) c
                 else Some (Exact e, c)
        }
      else Some (Stopped lo, c))"
  by pat_completeness auto
termination
  by (relation "measure (\<lambda>(rd, key, target, lo, hi, c). hi - lo)") auto

fun find_closest_linear_loop ::
    "'e ts_reader \<Rightarrow> ('e \<Rightarrow> u64) \<Rightarrow> u64 \<Rightarrow> nat list \<Rightarrow> 'e option \<Rightarrow> u64 \<Rightarrow> nat
       \<Rightarrow> (('e option \<times> u64) \<times> nat) option" where
  "find_closest_linear_loop rd key target [] best best_diff c = Some ((best, best_diff), c)"
| "find_closest_linear_loop rd key target (i # is) best best_diff c =
     do {
       (elem, c) \<leftarrow> rd_try_get rd i c;
       case elem of
         None \<Rightarrow> find_closest_linear_loop rd key target is best best_diff c
       | Some e \<Rightarrow>
           let d = key_diff (key e) target
           in if d < best_diff then find_closest_linear_loop rd key target is (Some e) d c
              else find_closest_linear_loop rd key target is best best_diff c
     }"

definition find_closest_linear ::
    "'e ts_reader \<Rightarrow> ('e \<Rightarrow> u64) \<Rightarrow> u64 \<Rightarrow> nat \<Rightarrow> u64 option \<Rightarrow> nat \<Rightarrow> ('e option \<times> nat) option" where
  "find_closest_linear rd key target avail max_distance c =
     do {
       ((best, best_diff), c) \<leftarrow> find_closest_linear_loop rd key target [0..<avail] None (- 1) c;
       Some (case max_distance of
               Some md \<Rightarrow> if best \<noteq> None \<and> best_diff > md then None else best
             | None \<Rightarrow> best, c)
     }"

text \<open>The check of one neighbour: an element that can be read and is strictly closer wins.\<close>

definition closer :: "('e \<Rightarrow> u64) \<Rightarrow> u64 \<Rightarrow> 'e \<Rightarrow> 'e option \<Rightarrow> 'e" where
  "closer key target best nb =
     (case nb of
        None \<Rightarrow> best
      | Some e \<Rightarrow> if key_diff (key e) target < key_diff (key best) target then e else best)"

text \<open>
  The part of \<open>find_closest\<close> after the loop. When the element at \<open>lo\<close> cannot be read the code
  calls \<open>find_closest_linear(target, avail)\<close>, without the caller's \<open>max_distance\<close>.
\<close>

definition find_closest_around ::
    "'e ts_reader \<Rightarrow> ('e \<Rightarrow> u64) \<Rightarrow> u64 \<Rightarrow> nat \<Rightarrow> u64 option \<Rightarrow> nat \<Rightarrow> nat \<Rightarrow> ('e option \<times> nat) option" where
  "find_closest_around rd key target avail max_distance lo c =
     do {
       (best, c) \<leftarrow> rd_try_get rd lo c;
       case best of
         None \<Rightarrow> find_closest_linear rd key target avail None c
       | Some best \<Rightarrow> do {
           (prev, c) \<leftarrow> (if lo > 0 then rd_try_get rd (lo - 1) c else Some (None, c));
           let best = closer key target best prev;
           (next, c) \<leftarrow> (if lo + 1 < avail then rd_try_get rd (lo + 1) c else Some (None, c));
           let best = closer key target best next;
           Some (case max_distance of
                   Some md \<Rightarrow> if key_diff (key best) target > md then None else Some best
                 | None \<Rightarrow> Some best, c)
         }
     }"

definition find_closest ::
    "'e ts_reader \<Rightarrow> ('e \<Rightarrow> u64) \<Rightarrow> u64 \<Rightarrow> u64 option \<Rightarrow> nat \<Rightarrow> ('e option \<times> nat) option" where
  "find_closest rd key target max_distance c =
     (let (avail, c) = rd_available rd c
      in if avail = 0 then Some (None, c)
         else do {
           (s, c) \<leftarrow> find_closest_loop rd key target 0 (avail - 1) c;
           case s of
             Overwritten \<Rightarrow> find_closest_linear rd key target avail max_distance c
           | Exact e \<Rightarrow> Some (Some e, c)
           | Stopped lo \<Rightarrow> find_closest_around rd key target avail max_distance lo c
         })"

section \<open>Interpolation pair\<close>

record 'e InterpPair =
  before :: 'e
  after :: 'e
  alpha :: rat

definition interp_alpha :: "u64 \<Rightarrow> u64 \<Rightarrow> u64 \<Rightarrow> rat" where
  "interp_alpha target before_key after_key =
     double_div (u64_to_double (target - before_key)) (u64_to_double (after_key - before_key))"

text \<open>The bracketing elements seen so far by the linear scan, each with its key and distance.\<close>

record 'e bracket =
  before_elem :: "'e option"
  before_key :: u64
  before_diff :: u64
  after_elem :: "'e option"
  after_key :: u64
  after_diff :: u64

definition bracket_step :: "('e \<Rightarrow> u64) \<Rightarrow> u64 \<Rightarrow> 'e \<Rightarrow> 'e bracket \<Rightarrow> 'e bracket" where
  "bracket_step key target e b =
     (let k = key e;
          b1 = (if k \<le> target \<and> target - k < before_diff b
                then b\<lparr>before_elem := Some e, before_key := k, before_diff := target - k\<rparr> else b)
      in if k \<ge> target \<and> k - target < after_diff b1
         then b1\<lparr>after_elem := Some e, after_key := k, after_diff := k - target\<rparr> else b1)"

fun interp_linear_loop ::
    "'e ts_reader \<Rightarrow> ('e \<Rightarrow> u64) \<Rightarrow> u64 \<Rightarrow> nat list \<Rightarrow> 'e bracket \<Rightarrow> nat \<Rightarrow> ('e bracket \<times> nat) option" where
  "interp_linear_loop rd key target [] b c = Some (b, c)"
| "interp_linear_loop rd key target (i # is) b c =
     do {
       (elem, c) \<leftarrow> rd_try_get rd i c;
       interp_linear_loop rd key target is
         (case elem of None \<Rightarrow> b | Some e \<Rightarrow> bracket_step key target e b) c
     }"

definition find_interpolation_pair_linear ::
    "'e ts_reader \<Rightarrow> ('e \<Rightarrow> u64) \<Rightarrow> u64 \<Rightarrow> nat \<Rightarrow> nat \<Rightarrow> ('e InterpPair option \<times> nat) option" where
  "find_interpolation_pair_linear rd key target avail c =
     do {
       (b, c) \<leftarrow> interp_linear_loop rd key target [0..<avail]
         \<lparr>before_elem = None, before_key = 0, before_diff = - 1,
          after_elem = None, after_key = 0, after_diff = - 1\<rparr> c;
       Some (case (before_elem b, after_elem b) of
               (Some x, Some y) \<Rightarrow>
                 Some \<lparr>before = x, after = y,
                   alpha = (if after_key b = before_key b then 0
                            else interp_alpha target (before_key b) (after_key b))\<rparr>
             | _ \<Rightarrow> None, c)
     }"

function interp_loop ::
    "'e ts_reader \<Rightarrow> ('e \<Rightarrow> u64) \<Rightarrow> u64 \<Rightarrow> nat \<Rightarrow> nat \<Rightarrow> nat \<Rightarrow> ((nat \<times> nat) option \<times> nat) option" where
  "interp_loop rd key target lo hi c =
     (if lo + 1 < hi then
        let mid = lo + (hi - lo) div 2
        in do {
          (elem, c) \<leftarrow> rd_try_get rd mid c;
          case elem of
            None \<Rightarrow> Some (None, c)
          | Some e \<Rightarrow>
              if key e > target then interp_loop rd key target mid hi c
              else interp_loop rd key target lo mid c
        }
      else Some (Some (lo, hi), c))"
  by pat_completeness auto
termination
  by (relation "measure (\<lambda>(rd, key, target, lo, hi, c). hi - lo)") auto

text \<open>The part of \<open>find_interpolation_pair\<close> after the range checks.\<close>

definition interp_search ::
    "'e ts_reader \<Rightarrow> ('e \<Rightarrow> u64) \<Rightarrow> u64 \<Rightarrow> nat \<Rightarrow> nat \<Rightarrow> ('e InterpPair option \<times> nat) option" where
  "interp_search rd key target avail c =
     do {
       (s, c) \<leftarrow> interp_loop rd key target 0 (avail - 1) c;
       case s of
         None \<Rightarrow> find_interpolation_pair_linear rd key target avail c
       | Some (lo, hi) \<Rightarrow> do {
           (after_elem, c) \<leftarrow> rd_try_get rd lo c;
           (before_elem, c) \<leftarrow> rd_try_get rd hi c;
           Some (case (before_elem, after_elem) of
                   (Some x, Some y) \<Rightarrow>
                     Some \<lparr>before = x, after = y,
                       alpha = (if key y = key x then 0 else interp_alpha target (key x) (key y))\<rparr>
                 | _ \<Rightarrow> None, c)
         }
     }"

definition find_interpolation_pair ::
    "'e ts_reader \<Rightarrow> ('e \<Rightarrow> u64) \<Rightarrow> u64 \<Rightarrow> nat \<Rightarrow> ('e InterpPair option \<times> nat) option" where
  "find_interpolation_pair rd key target c =
     (let (avail, c) = rd_available rd c
      in if avail < 2 then Some (None, c)
         else do {
           (newest, c) \<leftarrow> rd_try_get rd 0 c;
           (oldest, c) \<leftarrow> rd_try_get rd (avail - 1) c;
           case (newest, oldest) of
             (Some n, Some d) \<Rightarrow>
               if target > key n \<or> target < key d then Some (None, c)
               else if target = key n then Some (Some \<lparr>before = n, after = n, alpha = 0\<rparr>, c)
               else if target = key d then Some (Some \<lparr>before = d, after = d, alpha = 0\<rparr>, c)
               else interp_search rd key target avail c
           | _ \<Rightarrow> Some (None, c)
         })"

section \<open>Freshness and delegation\<close>

definition get_latest_if_fresh ::
    "'e ts_reader \<Rightarrow> ('e \<Rightarrow> u64) \<Rightarrow> u64 \<Rightarrow> nat \<Rightarrow> ('e option \<times> nat) option" where
  "get_latest_if_fresh rd key min_key c =
     (let (avail, c) = rd_available rd c
      in if avail = 0 then Some (None, c)
         else do {
           (latest, c) \<leftarrow> rd_try_get rd 0 c;
           Some (case latest of
                   None \<Rightarrow> None
                 | Some e \<Rightarrow> if key e \<ge> min_key then Some e else None, c)
         })"

definition find_closest_sanitized ::
    "'e ts_reader \<Rightarrow> ('e \<Rightarrow> u64) \<Rightarrow> 'tag SanitizedKey \<Rightarrow> u64 option \<Rightarrow> nat \<Rightarrow> ('e option \<times> nat) option" where
  "find_closest_sanitized rd key target max_distance c = find_closest rd key (SanitizedKey_value target) max_distance c"

definition find_interpolation_pair_sanitized ::
    "'e ts_reader \<Rightarrow> ('e \<Rightarrow> u64) \<Rightarrow> 'tag SanitizedKey \<Rightarrow> nat \<Rightarrow> ('e InterpPair option \<times> nat) option" where
  "find_interpolation_pair_sanitized rd key target c = find_interpolation_pair rd key (SanitizedKey_value target) c"

definition get_latest_if_fresh_sanitized ::
    "'e ts_reader \<Rightarrow> ('e \<Rightarrow> u64) \<Rightarrow> 'tag SanitizedKey \<Rightarrow> nat \<Rightarrow> ('e option \<times> nat) option" where
  "get_latest_if_fresh_sanitized rd key min_key c = get_latest_if_fresh rd key (SanitizedKey_value min_key) c"

definition TimeSeries_get_latest ::
    "ctype \<Rightarrow> nat \<Rightarrow> (nat \<Rightarrow> mem) \<Rightarrow> nat \<Rightarrow> (byte list \<times> nat) option" where
  "TimeSeries_get_latest T N view c = CyclicBufferReader_get_latest T N view c"

definition TimeSeries_available :: "nat \<Rightarrow> (nat \<Rightarrow> mem) \<Rightarrow> nat \<Rightarrow> u64 \<times> nat" where
  "TimeSeries_available N view c = CyclicBufferReader_available N view c"

definition TimeSeries_total_writes :: "(nat \<Rightarrow> mem) \<Rightarrow> nat \<Rightarrow> u64 \<times> nat" where
  "TimeSeries_total_writes view c = CyclicBufferReader_total_writes view c"

definition TimeSeries_capacity :: "nat \<Rightarrow> nat" where
  "TimeSeries_capacity N = N"

declare find_closest_loop.simps [simp del] interp_loop.simps [simp del]

section \<open>Distances\<close>

lemma uint_key_diff: "uint (key_diff a b) = \<bar>uint a - uint b\<bar>"
  unfolding key_diff_def by (rule word_absdiff)

lemma key_diff_self [simp]: "key_diff a a = 0"
  by (simp add: key_diff_def)

lemma key_diff_eq_0 [simp]: "key_diff a b = 0 \<longleftrightarrow> a = b"
  by (auto simp: key_diff_def)

lemma key_diff_above: "t < a \<Longrightarrow> a \<le> b \<Longrightarrow> key_diff a t \<le> key_diff b t"
  by (simp add: word_le_def word_less_def uint_key_diff)

lemma key_diff_below: "a < t \<Longrightarrow> b \<le> a \<Longrightarrow> key_diff a t \<le> key_diff b t"
  by (simp add: word_le_def word_less_def uint_key_diff)

lemma closer_le:
  "key_diff (key (closer key target x nb)) target \<le> key_diff (key x) target"
  "nb = Some e \<Longrightarrow> key_diff (key (closer key target x nb)) target \<le> key_diff (key e) target"
  "closer key target x nb \<in> insert x (set_option nb)"
  by (auto simp: closer_def split: option.splits)

lemma interp_alpha_range:
  assumes "kx \<le> t" and "t \<le> ky" and "kx \<noteq> ky"
  shows "0 \<le> interp_alpha t kx ky" and "interp_alpha t kx ky \<le> 1"
    and "interp_alpha t kx ky = 0 \<longleftrightarrow> t = kx"
proof -
  have "t - kx \<le> ky - kx" and "ky - kx \<noteq> 0"
    using assms by (auto simp: word_le_def uint_sub_if')
  from double_ratio_range [OF this] show "0 \<le> interp_alpha t kx ky" and "interp_alpha t kx ky \<le> 1"
    and "interp_alpha t kx ky = 0 \<longleftrightarrow> t = kx"
    by (simp_all add: interp_alpha_def)
qed

text \<open>
  \<open>brackets key target w p\<close>: the elements of \<open>p\<close> sit at adjacent positions of \<open>w\<close> around the
  target, or are one element with exactly the target key; the factor lies in the unit interval
  and is zero exactly when the older element has the target key.
\<close>

definition brackets :: "('e \<Rightarrow> u64) \<Rightarrow> u64 \<Rightarrow> 'e list \<Rightarrow> 'e InterpPair \<Rightarrow> bool" where
  "brackets key target w p \<longleftrightarrow>
     key (before p) \<le> target \<and> target \<le> key (after p) \<and> 0 \<le> alpha p \<and> alpha p \<le> 1 \<and>
     (alpha p = 0) = (key (before p) = target) \<and>
     alpha p = (if key (after p) = key (before p) then 0 else interp_alpha target (key (before p)) (key (after p))) \<and>
     (\<exists>i < length w. after p = w ! i \<and>
        (before p = w ! i \<and> target = key (w ! i) \<or>
         Suc i < length w \<and> before p = w ! Suc i \<and> target < key (w ! i)))"

section \<open>Contract of the reader on a window at rest\<close>

text \<open>
  \<open>window b\<close> is the list of readable elements, newest first. The client lemmas below are about
  any reader that answers from such a window. Keys must not increase towards older elements.
\<close>

locale window_reader =
  fixes invar :: "'b \<Rightarrow> bool"
    and reader :: "'b \<Rightarrow> 'e ts_reader"
    and window :: "'b \<Rightarrow> 'e list"
  assumes available: "invar b \<Longrightarrow> fst (rd_available (reader b) c) = length (window b)"
    and try_get: "invar b \<Longrightarrow> i < length (window b) \<Longrightarrow>
          \<exists>c'. rd_try_get (reader b) i c = Some (Some (window b ! i), c')"
begin

abbreviation ordered :: "('e \<Rightarrow> u64) \<Rightarrow> 'b \<Rightarrow> bool" where
  "ordered key b \<equiv> sorted_wrt (\<lambda>x y. key y \<le> key x) (window b)"

lemma key_le: "ordered key b \<Longrightarrow> i \<le> j \<Longrightarrow> j < length (window b) \<Longrightarrow> key (window b ! j) \<le> key (window b ! i)"
  by (cases "i = j") (auto simp: sorted_wrt_iff_nth_less)

lemma loop_step:
  assumes b: "invar b" and lt: "lo < hi" "hi < length (window b)"
    and mid_def: "mid = lo + (hi - lo) div 2"
  obtains c2 where "find_closest_loop (reader b) key target lo hi c =
       (if key (window b ! mid) > target then find_closest_loop (reader b) key target (mid + 1) hi c2
        else if key (window b ! mid) < target then
          if mid = 0 then Some (Stopped lo, c2) else find_closest_loop (reader b) key target lo (mid - 1) c2
        else Some (Exact (window b ! mid), c2))"
proof -
  have "mid < length (window b)" using lt by (auto simp: mid_def)
  from try_get [OF b this] obtain c2 where "rd_try_get (reader b) mid c = Some (Some (window b ! mid), c2)"
    by blast
  with lt(1) show thesis
    by (intro that [of c2]) (subst find_closest_loop.simps, simp add: Let_def flip: mid_def)
qed

lemma loop_correct:
  assumes b: "invar b" "ordered key b"
    and "lo < length (window b)" "hi < length (window b)"
    and "\<And>i. i < lo \<Longrightarrow> target < key (window b ! i)"
    and "\<And>i. hi < i \<Longrightarrow> i < length (window b) \<Longrightarrow> key (window b ! i) < target"
  shows "\<exists>s c'. find_closest_loop (reader b) key target lo hi c = Some (s, c') \<and>
     (case s of Overwritten \<Rightarrow> False
      | Exact e \<Rightarrow> e \<in> set (window b) \<and> key e = target
      | Stopped l \<Rightarrow> l < length (window b) \<and> (\<forall>i < l. target < key (window b ! i)) \<and>
          (\<forall>i. l < i \<and> i < length (window b) \<longrightarrow> key (window b ! i) < target))"
  using assms(3-6)
proof (induction "hi - lo" arbitrary: lo hi c rule: less_induct)
  case less
  let ?w = "window b"
  show ?case
  proof (cases "lo < hi")
    case False
    then show ?thesis
      using less.prems by (subst find_closest_loop.simps) auto
  next
    case True
    define mid where "mid = lo + (hi - lo) div 2"
    have mid: "lo \<le> mid" "mid < hi" "mid < length ?w"
      using True less.prems(2) by (auto simp: mid_def)
    obtain c2 where step: "find_closest_loop (reader b) key target lo hi c =
       (if key (?w ! mid) > target then find_closest_loop (reader b) key target (mid + 1) hi c2
        else if key (?w ! mid) < target then
          if mid = 0 then Some (Stopped lo, c2) else find_closest_loop (reader b) key target lo (mid - 1) c2
        else Some (Exact (?w ! mid), c2))"
      using loop_step [OF b(1) True less.prems(2) mid_def] .
    have above: "target < key (?w ! i)" if "target < key (?w ! mid)" "i < mid + 1" for i
      using that key_le [OF b(2), of i mid] mid(3) by (auto intro: less_le_trans)
    have below: "key (?w ! i) < target" if "key (?w ! mid) < target" "mid \<le> i" "i < length ?w" for i
      using that key_le [OF b(2), of mid i] by (auto intro: le_less_trans)
    consider "target < key (?w ! mid)" | "key (?w ! mid) < target" "mid = 0"
      | "key (?w ! mid) < target" "0 < mid" | "key (?w ! mid) = target"
      by (metis linorder_neqE neq0_conv)
    then show ?thesis
    proof cases
      case 1
      have "hi - (mid + 1) < hi - lo" "mid + 1 < length ?w" using mid True less.prems(2) by auto
      then show ?thesis
        using less.hyps [of hi "mid + 1" c2] less.prems above [OF 1] 1 unfolding step by auto
    next
      case 2
      then have "\<not> target < key (?w ! mid)" by auto
      with 2 show ?thesis unfolding step using mid less.prems(1) below [OF 2(1)] by auto
    next
      case 3
      have "mid - 1 - lo < hi - lo" "mid - 1 < length ?w" using mid True by auto
      moreover have "key (?w ! i) < target" if "mid - 1 < i" "i < length ?w" for i
        using that 3 below by auto
      moreover have "\<not> target < key (?w ! mid)" using 3 by auto
      ultimately show ?thesis
        using less.hyps [of "mid - 1" lo c2] less.prems 3 unfolding step by auto
    next
      case 4
      then show ?thesis unfolding step using mid(3) by auto
    qed
  qed
qed

lemma around_correct:
  assumes b: "invar b" "ordered key b" and l: "l < length (window b)"
    and above: "\<And>i. i < l \<Longrightarrow> target < key (window b ! i)"
    and below: "\<And>i. l < i \<Longrightarrow> i < length (window b) \<Longrightarrow> key (window b ! i) < target"
  shows "\<exists>e c'. e \<in> set (window b) \<and>
     (\<forall>x \<in> set (window b). key_diff (key e) target \<le> key_diff (key x) target) \<and>
     find_closest_around (reader b) key target (length (window b)) md l c
       = Some (if (\<exists>m. md = Some m \<and> m < key_diff (key e) target) then None else Some e, c')"
proof -
  let ?w = "window b" and ?d = "\<lambda>e. key_diff (key e) target"
  obtain c1 where c1: "rd_try_get (reader b) l c = Some (Some (?w ! l), c1)"
    using try_get [OF b(1) l] by blast
  define prev where "prev = (if l > 0 then Some (?w ! (l - 1)) else None)"
  obtain c2 where c2: "(if l > 0 then rd_try_get (reader b) (l - 1) c1 else Some (None, c1)) = Some (prev, c2)"
    using try_get [OF b(1), of "l - 1" c1] less_imp_diff_less [OF l, of 1] by (cases "l > 0") (auto simp: prev_def)
  define nxt where "nxt = (if l + 1 < length ?w then Some (?w ! (l + 1)) else None)"
  obtain c3 where c3: "(if l + 1 < length ?w then rd_try_get (reader b) (l + 1) c2 else Some (None, c2)) = Some (nxt, c3)"
    using try_get [OF b(1), of "l + 1" c2] by (cases "l + 1 < length ?w") (auto simp: nxt_def)
  define x where "x = closer key target (?w ! l) prev"
  define e where "e = closer key target x nxt"
  have run: "find_closest_around (reader b) key target (length ?w) md l c
      = Some (if (\<exists>m. md = Some m \<and> m < ?d e) then None else Some e, c3)"
    using c1 c2 c3 by (auto simp: find_closest_around_def x_def e_def Let_def split: option.split)
  have "x \<in> set ?w" using closer_le(3) [of key target "?w ! l" prev] l by (auto simp: x_def prev_def split: if_splits)
  then have mem: "e \<in> set ?w" using closer_le(3) [of key target x nxt] by (auto simp: e_def nxt_def split: if_splits)
  have ex: "?d e \<le> ?d x" "?d x \<le> ?d (?w ! l)" by (simp_all add: e_def x_def closer_le)
  have "?d e \<le> ?d (?w ! i)" if i: "i < length ?w" for i
  proof (cases i l rule: linorder_cases)
    case less
    then have "?d x \<le> ?d (?w ! (l - 1))" by (simp add: x_def prev_def closer_le)
    moreover have "?d (?w ! (l - 1)) \<le> ?d (?w ! i)"
      using less l by (intro key_diff_above above key_le [OF b(2)]) auto
    ultimately show ?thesis using ex by simp
  next
    case greater
    then have "?d e \<le> ?d (?w ! (l + 1))" using i by (simp add: e_def nxt_def closer_le)
    moreover have "?d (?w ! (l + 1)) \<le> ?d (?w ! i)"
      using greater i by (intro key_diff_below below key_le [OF b(2)]) auto
    ultimately show ?thesis by simp
  qed (use ex in simp)
  then have "\<forall>x \<in> set ?w. ?d e \<le> ?d x" by (auto simp: in_set_conv_nth)
  with mem run show ?thesis by blast
qed

lemma find_closest_correct:
  assumes b: "invar b" "ordered key b" and ne: "window b \<noteq> []"
  shows "\<exists>e c'. e \<in> set (window b) \<and>
     (\<forall>x \<in> set (window b). key_diff (key e) target \<le> key_diff (key x) target) \<and>
     find_closest (reader b) key target md c
       = Some (if (\<exists>m. md = Some m \<and> m < key_diff (key e) target) then None else Some e, c')"
proof -
  let ?n = "length (window b)"
  obtain c0 where c0: "rd_available (reader b) c = (?n, c0)"
    using available [OF b(1), of c] by (metis prod.collapse)
  obtain s c1 where s: "find_closest_loop (reader b) key target 0 (?n - 1) c0 = Some (s, c1)"
    and post: "case s of Overwritten \<Rightarrow> False
      | Exact e \<Rightarrow> e \<in> set (window b) \<and> key e = target
      | Stopped l \<Rightarrow> l < ?n \<and> (\<forall>i < l. target < key (window b ! i)) \<and>
          (\<forall>i. l < i \<and> i < ?n \<longrightarrow> key (window b ! i) < target)"
    using loop_correct [OF b, of 0 "?n - 1" target c0] ne by (fastforce simp: neq_Nil_conv)
  have run: "find_closest (reader b) key target md c =
     (case s of Overwritten \<Rightarrow> find_closest_linear (reader b) key target ?n md c1
      | Exact e \<Rightarrow> Some (Some e, c1)
      | Stopped lo \<Rightarrow> find_closest_around (reader b) key target ?n md lo c1)"
    using ne s by (simp add: find_closest_def c0)
  show ?thesis
  proof (cases s)
    case (Exact e)
    with run post show ?thesis by (intro exI [of _ e]) (auto simp: word_le_def word_less_def)
  next
    case (Stopped l)
    with run post around_correct [OF b, of l target md c1] show ?thesis by auto
  qed (use post in auto)
qed

lemma find_closest_empty:
  "invar b \<Longrightarrow> window b = [] \<Longrightarrow> \<exists>c'. find_closest (reader b) key target md c = Some (None, c')"
  using available [of b c] by (auto simp: find_closest_def split: prod.split)

lemma linear_loop_correct:
  assumes b: "invar b" and "\<And>i. i \<in> set is \<Longrightarrow> i < length (window b)"
  shows "\<exists>best' bd' c'. find_closest_linear_loop (reader b) key target is best bd c = Some ((best', bd'), c') \<and>
     bd' \<le> bd \<and> (\<forall>i \<in> set is. bd' \<le> key_diff (key (window b ! i)) target) \<and>
     (best' = best \<and> bd' = bd \<or>
      bd' < bd \<and> (\<exists>e \<in> set (window b). best' = Some e \<and> key_diff (key e) target = bd'))"
  using assms(2)
proof (induction "is" arbitrary: best bd c)
  case (Cons i "is")
  then have i: "i < length (window b)" by simp
  let ?e = "window b ! i"
  let ?d = "key_diff (key ?e) target"
  obtain c1 where c1: "rd_try_get (reader b) i c = Some (Some ?e, c1)"
    using try_get [OF b i] by blast
  define bt where "bt = (if ?d < bd then Some ?e else best)"
  define m where "m = min ?d bd"
  have step: "find_closest_linear_loop (reader b) key target (i # is) best bd c
      = find_closest_linear_loop (reader b) key target is bt m c1"
    using c1 by (simp add: Let_def bt_def m_def min_def less_le_not_le)
  have "i < length (window b)" if "i \<in> set is" for i using Cons.prems that by simp
  then obtain best' bd' c' where run: "find_closest_linear_loop (reader b) key target is bt m c1 = Some ((best', bd'), c')"
      and le: "bd' \<le> m" "\<forall>i \<in> set is. bd' \<le> key_diff (key (window b ! i)) target"
      and res: "best' = bt \<and> bd' = m \<or> bd' < m \<and> (\<exists>e \<in> set (window b). best' = Some e \<and> key_diff (key e) target = bd')"
    using Cons.IH [of bt m c1] by blast
  have "?e \<in> set (window b)" using i by simp
  moreover have "bd' \<le> ?d" "bd' \<le> bd" using le(1) by (simp_all add: m_def)
  moreover have "best' = best \<and> bd' = bd \<or>
      bd' < bd \<and> (\<exists>e \<in> set (window b). best' = Some e \<and> key_diff (key e) target = bd')"
    using res \<open>?e \<in> set (window b)\<close> by (cases "?d < bd") (auto simp: bt_def m_def)
  ultimately show ?case
    using run le(2) unfolding step by (intro exI [of _ best'] exI [of _ bd'] exI [of _ c']) simp
qed simp

lemma find_closest_linear_correct:
  assumes b: "invar b" and near: "\<exists>x \<in> set (window b). key_diff (key x) target \<noteq> - 1"
  shows "\<exists>e c'. e \<in> set (window b) \<and>
     (\<forall>x \<in> set (window b). key_diff (key e) target \<le> key_diff (key x) target) \<and>
     find_closest_linear (reader b) key target (length (window b)) md c
       = Some (if (\<exists>m. md = Some m \<and> m < key_diff (key e) target) then None else Some e, c')"
proof -
  obtain best bd c' where run: "find_closest_linear_loop (reader b) key target [0..<length (window b)] None (- 1) c
      = Some ((best, bd), c')"
    and le: "\<forall>i \<in> set [0..<length (window b)]. bd \<le> key_diff (key (window b ! i)) target"
    and res: "best = None \<and> bd = - 1 \<or> bd < - 1 \<and>
      (\<exists>e \<in> set (window b). best = Some e \<and> key_diff (key e) target = bd)"
    using linear_loop_correct [OF b, of "[0..<length (window b)]" key target None "- 1" c] by auto
  from le have all: "\<forall>x \<in> set (window b). bd \<le> key_diff (key x) target"
    by (auto simp: in_set_conv_nth)
  with near have "bd \<noteq> - 1" by (auto simp: word_order.extremum_unique)
  with res obtain e where e: "e \<in> set (window b)" "best = Some e" "key_diff (key e) target = bd" by auto
  with run all show ?thesis
    by (intro exI [of _ e] exI [of _ c']) (auto simp: find_closest_linear_def split: option.split)
qed

lemma interp_loop_correct:
  assumes b: "invar b" and "lo < hi" "hi < length (window b)"
    and "target < key (window b ! lo)" "key (window b ! hi) \<le> target"
  shows "\<exists>l c'. interp_loop (reader b) key target lo hi c = Some (Some (l, Suc l), c') \<and>
     Suc l < length (window b) \<and> target < key (window b ! l) \<and> key (window b ! Suc l) \<le> target"
  using assms(2-)
proof (induction "hi - lo" arbitrary: lo hi c rule: less_induct)
  case less
  show ?case
  proof (cases "lo + 1 < hi")
    case False
    with less.prems show ?thesis
      by (subst interp_loop.simps) (auto intro!: exI [of _ lo] dest!: Suc_leI simp: le_antisym)
  next
    case True
    define mid where "mid = lo + (hi - lo) div 2"
    have mid: "lo < mid" "mid < hi" "mid < length (window b)"
      using True less.prems(2) by (auto simp: mid_def)
    obtain c2 where get: "rd_try_get (reader b) mid c = Some (Some (window b ! mid), c2)"
      using try_get [OF b mid(3)] by blast
    have step: "interp_loop (reader b) key target lo hi c =
       (if key (window b ! mid) > target then interp_loop (reader b) key target mid hi c2
        else interp_loop (reader b) key target lo mid c2)"
      using True get unfolding mid_def by (subst interp_loop.simps) (simp add: Let_def)
    show ?thesis
    proof (cases "target < key (window b ! mid)")
      case True
      then show ?thesis using less.hyps [of hi mid c2] less.prems mid unfolding step by auto
    next
      case False
      then show ?thesis using less.hyps [of mid lo c2] less.prems mid unfolding step by auto
    qed
  qed
qed

lemma interp_search_correct:
  assumes b: "invar b" and len: "2 \<le> length (window b)"
    and "target < key (window b ! 0)" "key (window b ! (length (window b) - 1)) < target"
  shows "\<exists>p c'. interp_search (reader b) key target (length (window b)) c = Some (Some p, c') \<and>
     brackets key target (window b) p"
proof -
  let ?w = "window b" and ?n = "length (window b)"
  have "0 < ?n - 1" "?n - 1 < ?n" using len by auto
  then obtain l c1 where loop: "interp_loop (reader b) key target 0 (?n - 1) c = Some (Some (l, Suc l), c1)"
      and l: "Suc l < ?n" "target < key (?w ! l)" "key (?w ! Suc l) \<le> target"
    using interp_loop_correct [OF b _ _ assms(3) less_imp_le [OF assms(4)], of c] by auto
  obtain c2 where c2: "rd_try_get (reader b) l c1 = Some (Some (?w ! l), c2)"
    using try_get [OF b, of l c1] l(1) by auto
  obtain c3 where c3: "rd_try_get (reader b) (Suc l) c2 = Some (Some (?w ! Suc l), c3)"
    using try_get [OF b, of "Suc l" c2] l(1) by auto
  have ne: "key (?w ! l) \<noteq> key (?w ! Suc l)" using l by auto
  let ?p = "\<lparr>before = ?w ! Suc l, after = ?w ! l,
    alpha = interp_alpha target (key (?w ! Suc l)) (key (?w ! l))\<rparr>"
  have "interp_search (reader b) key target ?n c = Some (Some ?p, c3)"
    using loop c2 c3 ne by (simp add: interp_search_def)
  moreover have "brackets key target ?w ?p"
    using interp_alpha_range [of "key (?w ! Suc l)" target "key (?w ! l)"] l ne
    by (auto simp: brackets_def intro!: exI [of _ l])
  ultimately show ?thesis by blast
qed

lemma find_interpolation_pair_run:
  assumes b: "invar b" and n: "2 \<le> length (window b)"
  obtains c2 where "find_interpolation_pair (reader b) key target c =
       (if target > key (hd (window b)) \<or> target < key (last (window b)) then Some (None, c2)
        else if target = key (hd (window b)) then
          Some (Some \<lparr>before = hd (window b), after = hd (window b), alpha = 0\<rparr>, c2)
        else if target = key (last (window b)) then
          Some (Some \<lparr>before = last (window b), after = last (window b), alpha = 0\<rparr>, c2)
        else interp_search (reader b) key target (length (window b)) c2)"
proof -
  let ?w = "window b" and ?n = "length (window b)"
  obtain c0 where c0: "rd_available (reader b) c = (?n, c0)"
    using available [OF b, of c] by (metis prod.collapse)
  from n have ne: "?w \<noteq> []" "0 < ?n" "?n - 1 < ?n" by auto
  then have hd: "?w ! 0 = hd ?w" and lst: "?w ! (?n - 1) = last ?w"
    by (simp_all add: hd_conv_nth last_conv_nth)
  obtain c1 where c1: "rd_try_get (reader b) 0 c0 = Some (Some (hd ?w), c1)"
    using try_get [OF b ne(2)] hd by metis
  obtain c2 where c2: "rd_try_get (reader b) (?n - 1) c1 = Some (Some (last ?w), c2)"
    using try_get [OF b ne(3)] lst by metis
  show thesis
    using n c1 c2 by (intro that [of c2]) (simp add: find_interpolation_pair_def c0)
qed

lemma find_interpolation_pair_correct:
  assumes b: "invar b"
  shows "\<exists>res c'. find_interpolation_pair (reader b) key target c = Some (res, c') \<and>
    (if length (window b) < 2 \<or> key (hd (window b)) < target \<or> target < key (last (window b)) then res = None
     else \<exists>p. res = Some p \<and> brackets key target (window b) p)"
proof (cases "length (window b) < 2")
  case True
  moreover obtain c0 where "rd_available (reader b) c = (length (window b), c0)"
    using available [OF b, of c] by (metis prod.collapse)
  ultimately show ?thesis by (simp add: find_interpolation_pair_def)
next
  case False
  let ?w = "window b" and ?n = "length (window b)"
  from False have ne: "?w \<noteq> []" "0 < ?n" "2 \<le> ?n" by auto
  then have hd: "?w ! 0 = hd ?w" and lst: "?w ! (?n - 1) = last ?w"
    by (simp_all add: hd_conv_nth last_conv_nth)
  note find_interpolation_pair_run [OF b ne(3), of key target c]
  then obtain c2 where run: "find_interpolation_pair (reader b) key target c =
       (if target > key (hd ?w) \<or> target < key (last ?w) then Some (None, c2)
        else if target = key (hd ?w) then Some (Some \<lparr>before = hd ?w, after = hd ?w, alpha = 0\<rparr>, c2)
        else if target = key (last ?w) then Some (Some \<lparr>before = last ?w, after = last ?w, alpha = 0\<rparr>, c2)
        else interp_search (reader b) key target ?n c2)" .
  consider (out) "key (hd ?w) < target \<or> target < key (last ?w)"
    | (ends) "target = key (hd ?w) \<or> target = key (last ?w)" "\<not> (key (hd ?w) < target \<or> target < key (last ?w))"
    | (inside) "target < key (hd ?w)" "key (last ?w) < target"
    by force
  then show ?thesis
  proof cases
    case inside
    then obtain p c' where p: "interp_search (reader b) key target ?n c2 = Some (Some p, c')" "brackets key target ?w p"
      using interp_search_correct [OF b ne(3), of target key c2] hd lst by auto
    with inside run have "find_interpolation_pair (reader b) key target c = Some (Some p, c')" by auto
    with inside False p(2) show ?thesis by auto
  next
    case ends
    have "brackets key target ?w \<lparr>before = hd ?w, after = hd ?w, alpha = 0\<rparr>" if "target = key (hd ?w)"
      using that ne hd by (auto simp: brackets_def intro!: exI [of _ 0])
    moreover have "brackets key target ?w \<lparr>before = last ?w, after = last ?w, alpha = 0\<rparr>" if "target = key (last ?w)"
      using that ne lst by (auto simp: brackets_def intro!: exI [of _ "?n - 1"])
    ultimately show ?thesis using ends False run by auto
  qed (use False run in auto)
qed

end

interpretation ts: window_reader cb_ok "\<lambda>b. cyclic_reader (cb_T b) (cb_N b) (\<lambda>_. cb_m b)" cb_contents
proof
  fix b :: cbuf and c i :: nat
  assume b: "cb_ok b"
  show "fst (rd_available (cyclic_reader (cb_T b) (cb_N b) (\<lambda>_. cb_m b)) c) = length (cb_contents b)"
    using min_writes [OF cb_okD(2) [OF b]]
    by (simp add: cyclic_reader_def CyclicBufferReader_available_def cb_count_def)
  assume "i < length (cb_contents b)"
  moreover then have "i < 2 ^ 64" using capacity_less [OF cb_okD(2) [OF b]] by simp
  ultimately show "\<exists>c'. rd_try_get (cyclic_reader (cb_T b) (cb_N b) (\<lambda>_. cb_m b)) i c = Some (Some (cb_contents b ! i), c')"
    using try_get_at_rest [OF b, of "of_nat i" 4 c] unat_of_nat_small [of i]
    by (simp only: cyclic_reader_def ts_reader.simps) simp
qed

section \<open>Any reader, any interleaving\<close>

text \<open>A reader whose \<open>try_get\<close> always comes back, whatever it answers.\<close>

definition returning :: "'e ts_reader \<Rightarrow> bool" where
  "returning rd \<longleftrightarrow> (\<forall>i c. \<exists>r c'. rd_try_get rd i c = Some (r, c'))"

text \<open>The elements a reader may answer with.\<close>

definition answers :: "'e ts_reader \<Rightarrow> 'e \<Rightarrow> bool" where
  "answers rd e \<longleftrightarrow> (\<exists>i c c'. rd_try_get rd i c = Some (Some e, c'))"

lemma returningE:
  assumes "returning rd"
  obtains r c' where "rd_try_get rd i c = Some (r, c')" and "\<And>e. r = Some e \<Longrightarrow> answers rd e"
  using assms unfolding returning_def answers_def by metis

lemma optional_read:
  assumes "returning rd"
  shows "\<exists>r c'. (if P then rd_try_get rd i c else Some (None, c)) = Some (r, c') \<and>
    (\<forall>e. r = Some e \<longrightarrow> answers rd e)"
  by (rule returningE [OF assms, of i c]) (cases P; auto)

lemma loop_returns:
  assumes "returning rd"
  shows "\<exists>s c'. find_closest_loop rd key target lo hi c = Some (s, c') \<and>
    (case s of Exact e \<Rightarrow> answers rd e \<and> key e = target | _ \<Rightarrow> True)"
proof (induction "hi - lo" arbitrary: lo hi c rule: less_induct)
  case less
  show ?case
  proof (cases "lo < hi")
    case True
    define mid where "mid = lo + (hi - lo) div 2"
    have m: "hi - (mid + 1) < hi - lo" "mid - 1 - lo < hi - lo" using True by (auto simp: mid_def)
    obtain r c2 where r: "rd_try_get rd mid c = Some (r, c2)" "\<And>e. r = Some e \<Longrightarrow> answers rd e"
      using returningE [OF assms] by blast
    show ?thesis
    proof (cases r)
      case None
      with True r show ?thesis unfolding mid_def by (subst find_closest_loop.simps) (simp add: Let_def)
    next
      case (Some e)
      with True r(1) have step: "find_closest_loop rd key target lo hi c =
         (if key e > target then find_closest_loop rd key target (mid + 1) hi c2
          else if key e < target then
            if mid = 0 then Some (Stopped lo, c2) else find_closest_loop rd key target lo (mid - 1) c2
          else Some (Exact e, c2))"
        unfolding mid_def by (subst find_closest_loop.simps) (simp add: Let_def)
      show ?thesis
        unfolding step using less(1) [OF m(1), of c2] less(1) [OF m(2), of c2] r(2) [OF Some] by auto
    qed
  qed (subst find_closest_loop.simps, simp)
qed

lemma linear_loop_returns:
  assumes "returning rd" and "\<And>e. best = Some e \<Longrightarrow> answers rd e \<and> key_diff (key e) target = bd"
  shows "\<exists>best' bd' c'. find_closest_linear_loop rd key target is best bd c = Some ((best', bd'), c') \<and>
    (\<forall>e. best' = Some e \<longrightarrow> answers rd e \<and> key_diff (key e) target = bd')"
  using assms(2)
proof (induction "is" arbitrary: best bd c)
  case (Cons i "is")
  obtain r c2 where "rd_try_get rd i c = Some (r, c2)" "\<And>e. r = Some e \<Longrightarrow> answers rd e"
    using returningE [OF assms(1)] by blast
  with Cons.IH [of best bd c2] Cons.prems show ?case
    using Cons.IH [of r "key_diff (key (the r)) target" c2] by (cases r) (simp_all add: Let_def)
qed auto

lemma find_closest_linear_returns:
  assumes "returning rd"
  shows "\<exists>res c'. find_closest_linear rd key target avail md c = Some (res, c') \<and>
    (\<forall>e. res = Some e \<longrightarrow> answers rd e \<and> (\<forall>m. md = Some m \<longrightarrow> key_diff (key e) target \<le> m))"
  using linear_loop_returns [OF assms, of None key target "- 1" "[0..<avail]" c]
  by (fastforce simp: find_closest_linear_def not_less split: option.split)

lemma closer_answers: "answers rd x \<Longrightarrow> (\<And>e. nb = Some e \<Longrightarrow> answers rd e) \<Longrightarrow> answers rd (closer key target x nb)"
  by (auto simp: closer_def split: option.split)

lemma find_closest_around_returns:
  assumes "returning rd"
  shows "\<exists>res c'. find_closest_around rd key target avail md lo c = Some (res, c') \<and>
    (\<forall>e. res = Some e \<longrightarrow> answers rd e)"
proof -
  obtain b c1 where b: "rd_try_get rd lo c = Some (b, c1)" "\<And>e. b = Some e \<Longrightarrow> answers rd e"
    using returningE [OF assms] by blast
  obtain p c2 where p: "(if lo > 0 then rd_try_get rd (lo - 1) c1 else Some (None, c1)) = Some (p, c2)"
      "\<And>e. p = Some e \<Longrightarrow> answers rd e"
    using optional_read [OF assms] by blast
  obtain n c3 where n: "(if lo + 1 < avail then rd_try_get rd (lo + 1) c2 else Some (None, c2)) = Some (n, c3)"
      "\<And>e. n = Some e \<Longrightarrow> answers rd e"
    using optional_read [OF assms] by blast
  show ?thesis
  proof (cases b)
    case None
    with b find_closest_linear_returns [OF assms, of key target avail None c1] show ?thesis
      by (auto simp: find_closest_around_def)
  next
    case (Some x)
    have "answers rd (closer key target (closer key target x p) n)"
      using b(2) [OF Some] p(2) n(2) by (intro closer_answers) auto
    with b p(1) n(1) Some show ?thesis
      by (auto simp: find_closest_around_def Let_def split: option.split)
  qed
qed

lemma find_closest_returns:
  assumes "returning rd"
  shows "\<exists>res c'. find_closest rd key target md c = Some (res, c') \<and> (\<forall>e. res = Some e \<longrightarrow> answers rd e)"
proof -
  obtain avail c0 where c0: "rd_available rd c = (avail, c0)" by (cases "rd_available rd c")
  obtain s c1 where s: "find_closest_loop rd key target 0 (avail - 1) c0 = Some (s, c1)"
      "case s of Exact e \<Rightarrow> answers rd e \<and> key e = target | _ \<Rightarrow> True"
    using loop_returns [OF assms, of key target 0 "avail - 1" c0] by auto
  show ?thesis
  proof (cases s)
    case Overwritten
    with c0 s(1) find_closest_linear_returns [OF assms, of key target avail md c1] show ?thesis
      by (auto simp: find_closest_def)
  next
    case (Stopped lo)
    with c0 s(1) find_closest_around_returns [OF assms, of key target avail md lo c1] show ?thesis
      by (auto simp: find_closest_def)
  qed (use c0 s in \<open>auto simp: find_closest_def\<close>)
qed

text \<open>The same for the interpolation pair.\<close>

definition pair_answers :: "'e ts_reader \<Rightarrow> 'e InterpPair \<Rightarrow> bool" where
  "pair_answers rd p \<longleftrightarrow> answers rd (before p) \<and> answers rd (after p)"

lemma interp_loop_returns:
  assumes "returning rd"
  shows "\<exists>s c'. interp_loop rd key target lo hi c = Some (s, c')"
proof (induction "hi - lo" arbitrary: lo hi c rule: less_induct)
  case less
  show ?case
  proof (cases "lo + 1 < hi")
    case True
    define mid where "mid = lo + (hi - lo) div 2"
    have m: "hi - mid < hi - lo" "mid - lo < hi - lo" using True by (auto simp: mid_def)
    obtain r c2 where r: "rd_try_get rd mid c = Some (r, c2)"
      using returningE [OF assms] by blast
    show ?thesis
    proof (cases r)
      case None
      with True r show ?thesis unfolding mid_def by (subst interp_loop.simps) (simp add: Let_def)
    next
      case (Some e)
      with True r have "interp_loop rd key target lo hi c =
         (if key e > target then interp_loop rd key target mid hi c2 else interp_loop rd key target lo mid c2)"
        unfolding mid_def by (subst interp_loop.simps) (simp add: Let_def)
      then show ?thesis using less(1) [OF m(1), of c2] less(1) [OF m(2), of c2] by simp
    qed
  qed (subst interp_loop.simps, simp)
qed

definition bracket_answers :: "'e ts_reader \<Rightarrow> 'e bracket \<Rightarrow> bool" where
  "bracket_answers rd b \<longleftrightarrow> (\<forall>e. before_elem b = Some e \<or> after_elem b = Some e \<longrightarrow> answers rd e)"

lemma interp_linear_loop_returns:
  assumes "returning rd" and "bracket_answers rd b"
  shows "\<exists>b' c'. interp_linear_loop rd key target is b c = Some (b', c') \<and> bracket_answers rd b'"
  using assms(2)
proof (induction "is" arbitrary: b c)
  case (Cons i "is")
  obtain r c2 where r: "rd_try_get rd i c = Some (r, c2)" "\<And>e. r = Some e \<Longrightarrow> answers rd e"
    using returningE [OF assms(1)] by blast
  have "bracket_answers rd (case r of None \<Rightarrow> b | Some e \<Rightarrow> bracket_step key target e b)"
    using Cons.prems r(2) by (auto simp: bracket_answers_def bracket_step_def Let_def split: option.split)
  from Cons.IH [OF this, of c2] r(1) show ?case by simp
qed simp

lemma pair_of_linear_returns:
  assumes "returning rd"
  shows "\<exists>res c'. find_interpolation_pair_linear rd key target avail c = Some (res, c') \<and>
    (\<forall>p. res = Some p \<longrightarrow> pair_answers rd p)"
proof -
  let ?b = "\<lparr>before_elem = None, before_key = 0, before_diff = - 1, after_elem = None, after_key = 0, after_diff = - 1\<rparr>"
  have "bracket_answers rd ?b" by (simp add: bracket_answers_def)
  then obtain b c' where "interp_linear_loop rd key target [0..<avail] ?b c = Some (b, c')" "bracket_answers rd b"
    using interp_linear_loop_returns [OF assms] by blast
  then show ?thesis
    by (auto simp: find_interpolation_pair_linear_def bracket_answers_def pair_answers_def split: option.split)
qed

lemma interp_search_returns:
  assumes "returning rd"
  shows "\<exists>res c'. interp_search rd key target avail c = Some (res, c') \<and>
    (\<forall>p. res = Some p \<longrightarrow> pair_answers rd p)"
proof -
  obtain s c1 where s: "interp_loop rd key target 0 (avail - 1) c = Some (s, c1)"
    using interp_loop_returns [OF assms] by blast
  show ?thesis
  proof (cases s)
    case None
    with s pair_of_linear_returns [OF assms, of key target avail c1] show ?thesis by (simp add: interp_search_def)
  next
    case (Some lh)
    obtain a c2 where a: "rd_try_get rd (fst lh) c1 = Some (a, c2)" "\<And>e. a = Some e \<Longrightarrow> answers rd e"
      using returningE [OF assms] by blast
    obtain b c3 where b: "rd_try_get rd (snd lh) c2 = Some (b, c3)" "\<And>e. b = Some e \<Longrightarrow> answers rd e"
      using returningE [OF assms] by blast
    from s a b Some show ?thesis
      by (cases lh; cases a; cases b) (auto simp: interp_search_def pair_answers_def)
  qed
qed

lemma find_interpolation_pair_returns:
  assumes "returning rd"
  shows "\<exists>res c'. find_interpolation_pair rd key target c = Some (res, c') \<and>
    (\<forall>p. res = Some p \<longrightarrow> pair_answers rd p)"
proof -
  obtain avail c0 where c0: "rd_available rd c = (avail, c0)" by (cases "rd_available rd c")
  obtain n c1 where n: "rd_try_get rd 0 c0 = Some (n, c1)" "\<And>e. n = Some e \<Longrightarrow> answers rd e"
    using returningE [OF assms] by blast
  obtain d c2 where d: "rd_try_get rd (avail - 1) c1 = Some (d, c2)" "\<And>e. d = Some e \<Longrightarrow> answers rd e"
    using returningE [OF assms] by blast
  from c0 n d interp_search_returns [OF assms, of key target avail c2] show ?thesis
    by (cases n; cases d) (auto simp: find_interpolation_pair_def pair_answers_def)
qed

text \<open>The cyclic buffer's reader is of that kind whatever the writer does.\<close>

lemma cyclic_reader_returning: "returning (cyclic_reader T N view)"
proof -
  have "(4 :: u32) < - 1" by code_simp
  then show ?thesis
    using try_get_returns by (fastforce simp: returning_def cyclic_reader_def)
qed

lemma cyclic_reader_answers:
  assumes "cr_invar r" and "load_u64 (cr_mem0 r) 0 = 0" and "length (cr_inserts r) < 2 ^ 64" and "mono clk"
    and "\<And>i k. cs_ver (r, i) (clk (Suc k + sizeof (cr_T r))) < cs_ver (r, i) (clk k) + 2 ^ 32"
    and "answers (cyclic_reader (cr_T r) (cr_N r) (cr_mem r \<circ> clk)) e"
  shows "e \<in> set (cr_inserts r)"
proof -
  obtain i c c' where "CyclicBufferReader_try_get (cr_T r) (cr_N r) (cr_mem r \<circ> clk) i 4 c = Some (Some e, c')"
    using assms(6) by (auto simp: answers_def cyclic_reader_def)
  then obtain q where "e = cr_inserts r ! q" "q < cr_pub r (clk c')"
    using try_get_in_run [OF assms(1-5) _ refl refl] by blast
  moreover have "cr_pub r (clk c') \<le> length (cr_inserts r)" by (simp add: cr_pub_def ins_pub_le)
  ultimately show ?thesis by simp
qed

section \<open>Properties\<close>

text \<open>
  C21. On a buffer at rest whose keys do not decrease with time, \<open>find_closest\<close> returns, and its
  answer is an element of the buffer whose key is nearest to the target among all readable
  elements, over the exact distance with no wrap-around; nothing if the buffer is empty or the
  nearest key is farther than \<open>max_distance\<close>.
\<close>

theorem find_closest_nearest:
  assumes "cb_ok b" and "sorted_wrt (\<lambda>x y. key y \<le> key x) (cb_contents b)"
    and "rd = cyclic_reader (cb_T b) (cb_N b) (\<lambda>_. cb_m b)"
  shows "\<exists>res c'. find_closest rd key target max_distance c = Some (res, c') \<and>
     (if cb_contents b = [] then res = None
      else \<exists>e \<in> set (cb_contents b).
        (\<forall>x \<in> set (cb_contents b). \<bar>uint (key e) - uint target\<bar> \<le> \<bar>uint (key x) - uint target\<bar>) \<and>
        res = (case max_distance of
                 Some md \<Rightarrow> if uint md < \<bar>uint (key e) - uint target\<bar> then None else Some e
               | None \<Rightarrow> Some e))"
proof (cases "cb_contents b = []")
  case True
  then show ?thesis using ts.find_closest_empty [OF assms(1)] assms(3) by auto
next
  case False
  with ts.find_closest_correct [OF assms(1,2), of target max_distance c] obtain e c' where
    "e \<in> set (cb_contents b)"
    "\<forall>x \<in> set (cb_contents b). key_diff (key e) target \<le> key_diff (key x) target"
    "find_closest rd key target max_distance c
       = Some (if (\<exists>m. max_distance = Some m \<and> m < key_diff (key e) target) then None else Some e, c')"
    unfolding assms(3) by blast
  with False show ?thesis
    by (cases max_distance) (auto simp: word_le_def word_less_def uint_key_diff intro!: bexI [of _ e])
qed

text \<open>
  C24. The linear scan that \<open>find_closest\<close> falls back to gives, on a buffer at rest, an answer just
  as near as the binary search's, also with a \<open>max_distance\<close>, and needs no order of the keys. The
  one case left out is a buffer all of whose keys are \<open>2^64 - 1\<close> away from the target.
\<close>

theorem find_closest_linear_agrees:
  assumes "cb_ok b" and "sorted_wrt (\<lambda>x y. key y \<le> key x) (cb_contents b)"
    and "rd = cyclic_reader (cb_T b) (cb_N b) (\<lambda>_. cb_m b)"
    and "x \<in> set (cb_contents b)" and "key_diff (key x) target \<noteq> - 1"
  shows "map_option (map_option (\<lambda>e. key_diff (key e) target) \<circ> fst)
           (find_closest_linear rd key target (length (cb_contents b)) max_distance c')
       = map_option (map_option (\<lambda>e. key_diff (key e) target) \<circ> fst)
           (find_closest rd key target max_distance c)"
proof -
  let ?d = "\<lambda>e. key_diff (key e) target"
  have ne: "cb_contents b \<noteq> []" using assms(4) by auto
  obtain e c1 where e: "e \<in> set (cb_contents b)" "\<forall>x \<in> set (cb_contents b). ?d e \<le> ?d x"
      "find_closest rd key target max_distance c
         = Some (if (\<exists>m. max_distance = Some m \<and> m < ?d e) then None else Some e, c1)"
    using ts.find_closest_correct [OF assms(1,2) ne] unfolding assms(3) by blast
  obtain f c2 where f: "f \<in> set (cb_contents b)" "\<forall>x \<in> set (cb_contents b). ?d f \<le> ?d x"
      "find_closest_linear rd key target (length (cb_contents b)) max_distance c'
         = Some (if (\<exists>m. max_distance = Some m \<and> m < ?d f) then None else Some f, c2)"
    using ts.find_closest_linear_correct [OF assms(1), of key target max_distance c'] assms(4,5)
    unfolding assms(3) by blast
  have "?d e = ?d f" using e f by (meson antisym)
  with e(3) f(3) show ?thesis by simp
qed

text \<open>
  C22. \<open>find_interpolation_pair\<close> on a buffer at rest, whatever the order of its keys, returns
  nothing exactly when there are fewer than two elements or the target is outside the range of
  the newest and the oldest key; otherwise two elements at adjacent positions (or one element of
  exactly that key) around the target, with the factor \<open>alpha\<close>, rounding of the \<open>double\<close>
  arithmetic included, between 0 and 1 and equal to 0 exactly when the target is the older key.
\<close>

theorem find_interpolation_pair_brackets:
  assumes "cb_ok b" and "rd = cyclic_reader (cb_T b) (cb_N b) (\<lambda>_. cb_m b)"
  shows "\<exists>res c'. find_interpolation_pair rd key target c = Some (res, c') \<and>
    (if length (cb_contents b) < 2 \<or> key (hd (cb_contents b)) < target \<or> target < key (last (cb_contents b))
     then res = None
     else \<exists>p. res = Some p \<and> brackets key target (cb_contents b) p)"
  unfolding assms(2) by (rule ts.find_interpolation_pair_correct [OF assms(1)])

text \<open>
  C23. Under any interleaving with the writer the searches come back, and every object they return
  is an untorn inserted one, although the slots may be rewritten while the search runs.
\<close>

theorem time_series_concurrent:
  assumes "cr_invar r" and "load_u64 (cr_mem0 r) 0 = 0" and "length (cr_inserts r) < 2 ^ 64" and "mono clk"
    and "\<And>i k. cs_ver (r, i) (clk (Suc k + sizeof (cr_T r))) < cs_ver (r, i) (clk k) + 2 ^ 32"
    and "rd = cyclic_reader (cr_T r) (cr_N r) (cr_mem r \<circ> clk)"
  shows "(\<exists>res c'. find_closest rd key target max_distance c = Some (res, c') \<and>
            set_option res \<subseteq> set (cr_inserts r)) \<and>
         (\<exists>res c'. find_interpolation_pair rd key target c = Some (res, c') \<and>
            before ` set_option res \<union> after ` set_option res \<subseteq> set (cr_inserts r))"
proof -
  note ans = cyclic_reader_answers [OF assms(1-5)]
  have ret: "returning rd" unfolding assms(6) by (rule cyclic_reader_returning)
  obtain res c1 where a: "find_closest rd key target max_distance c = Some (res, c1)"
      "\<forall>e. res = Some e \<longrightarrow> answers rd e"
    using find_closest_returns [OF ret] by blast
  obtain res' c2 where b: "find_interpolation_pair rd key target c = Some (res', c2)"
      "\<forall>p. res' = Some p \<longrightarrow> pair_answers rd p"
    using find_interpolation_pair_returns [OF ret] by blast
  have "set_option res \<subseteq> set (cr_inserts r)"
    using a(2) ans assms(6) by (cases res) auto
  moreover have "before ` set_option res' \<union> after ` set_option res' \<subseteq> set (cr_inserts r)"
    using b(2) ans assms(6) by (cases res') (auto simp: pair_answers_def)
  ultimately show ?thesis using a(1) b(1) by blast
qed

text \<open>
  \<open>get_latest_if_fresh\<close> on a buffer at rest: the newest element if its key is at least
  \<open>min_key\<close>, nothing otherwise.
\<close>

theorem get_latest_if_fresh_at_rest:
  assumes "cb_ok b" and "rd = cyclic_reader (cb_T b) (cb_N b) (\<lambda>_. cb_m b)"
  shows "map_option fst (get_latest_if_fresh rd key min_key c) = Some (case cb_contents b of
           [] \<Rightarrow> None | e # _ \<Rightarrow> if min_key \<le> key e then Some e else None)"
proof -
  let ?rd = "cyclic_reader (cb_T b) (cb_N b) (\<lambda>_. cb_m b)"
  obtain c0 where c0: "rd_available ?rd c = (length (cb_contents b), c0)"
    using ts.available [OF assms(1), of c] by (metis prod.collapse)
  show ?thesis
  proof (cases "cb_contents b")
    case Nil
    then show ?thesis by (simp add: assms(2) get_latest_if_fresh_def c0)
  next
    case (Cons e es)
    then obtain c1 where "rd_try_get ?rd 0 c0 = Some (Some e, c1)"
      using ts.try_get [OF assms(1), of 0 c0] by auto
    with Cons show ?thesis by (simp add: assms(2) get_latest_if_fresh_def c0)
  qed
qed

text \<open>
  \<open>get_latest_if_fresh\<close> under any interleaving: what it returns is fresh in both senses, its
  key is at least \<open>min_key\<close>, and it is an untorn object no older than the newest one complete at
  the call.
\<close>

theorem get_latest_if_fresh_recent:
  assumes "cr_invar r" and "load_u64 (cr_mem0 r) 0 = 0" and "length (cr_inserts r) < 2 ^ 64" and "mono clk"
    and "\<And>i k. cs_ver (r, i) (clk (Suc k + sizeof (cr_T r))) < cs_ver (r, i) (clk k) + 2 ^ 32"
    and "get_latest_if_fresh (cyclic_reader (cr_T r) (cr_N r) (cr_mem r \<circ> clk)) key min_key c = Some (Some e, c')"
  shows "min_key \<le> key e \<and> (\<exists>q. e = cr_inserts r ! q \<and> cr_done r (clk c) \<le> Suc q \<and> q < cr_pub r (clk c'))"
proof -
  from assms(6) have "CyclicBufferReader_try_get (cr_T r) (cr_N r) (cr_mem r \<circ> clk) 0 4 (c + 1) = Some (Some e, c')"
      and key: "min_key \<le> key e"
    by (auto simp: get_latest_if_fresh_def cyclic_reader_def CyclicBufferReader_available_def Let_def
        bind_eq_Some_conv split: if_splits option.splits)
  then obtain q where q: "e = cr_inserts r ! q" "cr_done r (clk (c + 1)) - 1 \<le> q" "q < cr_pub r (clk c')"
    using try_get_in_run [OF assms(1-5) _ refl refl] by fastforce
  have "clk c \<le> clk (c + 1)" using assms(4) by (rule monoD) simp
  then have "cr_done r (clk c) \<le> cr_done r (clk (c + 1))" by (simp add: cr_done_def ins_done_mono)
  with q key show ?thesis by (intro conjI exI [of _ q]) auto
qed

section \<open>Where the search departs from its documentation\<close>

text \<open>A ring of one four-byte object, written twice; the key of an object is its value.\<close>

definition ts_demo :: cyclic_run where
  "ts_demo = \<lparr>cr_T = flat 4 4, cr_N = 1, cr_mem0 = zero_mem, cr_inserts = [[5, 0, 0, 0], [200, 0, 0, 0]]\<rparr>"

lemma ts_demo_fields [simp]:
  "cr_T ts_demo = flat 4 4" "cr_N ts_demo = 1" "cr_mem0 ts_demo = zero_mem"
  "cr_inserts ts_demo = [[5, 0, 0, 0], [200, 0, 0, 0]]"
  by (simp_all add: ts_demo_def)

lemma capacity_ok_1: "CyclicBuffer_capacity_ok 1"
  by (simp add: CyclicBuffer_capacity_ok_def is_pow2_def)

lemma ts_demo_invar: "cr_invar ts_demo"
  unfolding cr_invar_def ts_demo_fields using wf_flat_4_4 capacity_ok_1 by simp

lemma ts_demo_no_lap: "cs_ver (ts_demo, i) t < cs_ver (ts_demo, i) u + 2 ^ 32"
  using cs_ver_range(1) [of ts_demo i u] cs_ver_range(2) [of ts_demo i t] by simp

lemma ts_demo_mem:
  "load_u64 (cr_mem ts_demo 8) 0 = 1" "load_u64 (cr_mem ts_demo 9) 0 = 1"
  "load_u32 (cr_mem ts_demo 9) 8 = 3" "load_u32 (cr_mem ts_demo 16) 8 = 4"
  "load_bytes (cr_mem ts_demo 16) 12 4 = [200, 0, 0, 0]"
  by code_simp+

text \<open>The reader is slow enough to meet the second insertion half way through, five times.\<close>

definition ts_clk :: "nat \<Rightarrow> nat" where
  "ts_clk k = (if k \<le> 1 then 8 else if k \<le> 7 then 9 else 16)"

lemma mono_ts_clk: "mono ts_clk"
  by (auto simp: mono_def ts_clk_def)

lemma ts_demo_odd: "k \<in> {2..7} \<Longrightarrow> odd (load_u32 (cr_mem ts_demo (ts_clk k)) 8)"
  by (simp add: ts_clk_def ts_demo_mem)

lemma ts_demo_first: "CyclicBufferReader_try_get (flat 4 4) 1 (cr_mem ts_demo \<circ> ts_clk) 0 4 1 = Some (None, 7)"
proof -
  have tw: "load_u64 (cr_mem ts_demo (ts_clk 1)) 0 = 1" by (simp add: ts_clk_def ts_demo_mem)
  have step: "CyclicBufferReader_try_read_slot_from (flat 4 4) (cr_mem ts_demo \<circ> ts_clk) 0 4 a k
      = CyclicBufferReader_try_read_slot_from (flat 4 4) (cr_mem ts_demo \<circ> ts_clk) 0 4 (a + 1) (k + 1)"
    if "k \<in> {2..7}" "a \<le> 4" for a k
    using ts_demo_odd [OF that(1)] that(2) by (subst try_read_slot_step) (simp add: cr_demo_slot)
  have "CyclicBufferReader_try_read_slot_from (flat 4 4) (cr_mem ts_demo \<circ> ts_clk) 0 4 0 2
      = CyclicBufferReader_try_read_slot_from (flat 4 4) (cr_mem ts_demo \<circ> ts_clk) 0 4 5 7"
    using step [of 2 0] step [of 3 1] step [of 4 2] step [of 5 3] step [of 6 4] by simp
  also have "\<dots> = Some (None, 7)"
    by (subst try_read_slot_step) simp
  finally show ?thesis
    using tw by (simp add: CyclicBufferReader_try_get_def CyclicBufferReader_try_read_slot_def Let_def numeral_2_eq_2)
qed

lemma ts_demo_second: "CyclicBufferReader_try_get (flat 4 4) 1 (cr_mem ts_demo \<circ> ts_clk) 0 4 7
    = Some (Some [200, 0, 0, 0], 14)"
proof -
  have tw: "load_u64 (cr_mem ts_demo (ts_clk 7)) 0 = 1" by (simp add: ts_clk_def ts_demo_mem)
  have sq: "load_u32 (cr_mem ts_demo (ts_clk 8)) 8 = 4" "load_u32 (cr_mem ts_demo (ts_clk 13)) 8 = 4"
    by (simp_all add: ts_clk_def ts_demo_mem)
  have bytes: "read_bytes (cr_mem ts_demo \<circ> ts_clk) 9 12 4 = [200, 0, 0, 0]"
    by (rule read_bytes_stable) (simp_all add: ts_clk_def ts_demo_mem)
  have "CyclicBufferReader_try_read_slot_from (flat 4 4) (cr_mem ts_demo \<circ> ts_clk) 0 4 0 8
      = Some (Some [200, 0, 0, 0], 14)"
    by (subst try_read_slot_step) (simp add: cr_demo_slot sq bytes del: One_nat_def)
  then show ?thesis
    using tw by (simp add: CyclicBufferReader_try_get_def CyclicBufferReader_try_read_slot_def Let_def)
qed

text \<open>
  The filter on the distance can be lost: when the element at the end of the binary search
  cannot be read, the fall-back scan runs without the caller's \<open>max_distance\<close>, and \<open>find_closest\<close>
  returns an element farther away than allowed. Here the maximal distance is 10 and the element
  returned is 200 away.
\<close>

theorem find_closest_ignores_max_distance:
  "\<exists>r clk key e c'. cr_invar r \<and> mono clk \<and>
     find_closest (cyclic_reader (cr_T r) (cr_N r) (cr_mem r \<circ> clk)) key 0 (Some 10) 0 = Some (Some e, c') \<and>
     10 < key_diff (key e) 0"
proof -
  let ?rd = "cyclic_reader (cr_T ts_demo) (cr_N ts_demo) (cr_mem ts_demo \<circ> ts_clk)"
  have av: "rd_available ?rd 0 = (1, 1)"
    by (simp add: cyclic_reader_def CyclicBufferReader_available_def ts_clk_def ts_demo_mem)
  have one: "rd_try_get ?rd 0 1 = Some (None, 7)" and two: "rd_try_get ?rd 0 7 = Some (Some [200, 0, 0, 0], 14)"
    using ts_demo_first ts_demo_second by (simp_all add: cyclic_reader_def)
  have d: "key_diff (le_word [200, 0, 0, 0]) 0 = (200 :: u64)" "(200 :: u64) < - 1" "(10 :: u64) < 200"
    by code_simp+
  have "find_closest_linear ?rd le_word 0 1 None 7 = Some (Some [200, 0, 0, 0], 14)"
    using two d by (simp add: find_closest_linear_def)
  moreover have "find_closest_loop ?rd le_word 0 0 0 1 = Some (Stopped 0, 1)"
    by (subst find_closest_loop.simps) simp
  ultimately have "find_closest ?rd le_word 0 (Some 10) 0 = Some (Some [200, 0, 0, 0], 14)"
    using av one by (simp add: find_closest_def find_closest_around_def)
  then show ?thesis
    using ts_demo_invar mono_ts_clk d
    by (intro exI [of _ ts_demo] exI [of _ ts_clk] exI [of _ le_word] exI [of _ "[200, 0, 0, 0]"] exI [of _ 14]) simp
qed

section \<open>Witnesses\<close>

text \<open>Three elements with keys 10, 20 and 40 in a ring of four.\<close>

definition ts_buf :: cbuf where
  "ts_buf = fold cb_insert [[10, 0, 0, 0], [20, 0, 0, 0], [40, 0, 0, 0]] \<lparr>cb_T = flat 4 4, cb_N = 4, cb_m = zero_mem\<rparr>"

lemma capacity_ok_4: "CyclicBuffer_capacity_ok 4"
  by (simp add: CyclicBuffer_capacity_ok_def) code_simp

lemma ts_buf_ok: "cb_ok ts_buf"
  and ts_buf_contents: "cb_contents ts_buf = [[40, 0, 0, 0], [20, 0, 0, 0], [10, 0, 0, 0]]"
proof -
  let ?b = "\<lparr>cb_T = flat 4 4, cb_N = 4, cb_m = zero_mem\<rparr>"
  have b: "cb_ok ?b" unfolding cb_ok_def using wf_flat_4_4 capacity_ok_4 by simp
  have c: "cb_contents ?b = []" "cb_count ?b = 0" by (simp_all add: cb_contents_def cb_count_def)
  show "cb_ok ts_buf" unfolding ts_buf_def
    using b c(2) by (intro cb.insert_many(1)) (auto simp: cb_object_def object_of_def)
  show "cb_contents ts_buf = [[40, 0, 0, 0], [20, 0, 0, 0], [10, 0, 0, 0]]" unfolding ts_buf_def
    using b c by (subst cb.insert_many(4)) (auto simp: cb_object_def object_of_def)
qed

lemma ts_buf_keys: "(le_word [40, 0, 0, 0] :: u64) = 40" "(le_word [20, 0, 0, 0] :: u64) = 20"
  "(le_word [10, 0, 0, 0] :: u64) = 10"
  by code_simp+

lemma ts_buf_sorted: "sorted_wrt (\<lambda>x y. (le_word y :: u64) \<le> le_word x) (cb_contents ts_buf)"
  by (simp add: ts_buf_contents ts_buf_keys)

theorem find_closest_nearest_witness:
  "\<exists>c'. find_closest (cyclic_reader (cb_T ts_buf) (cb_N ts_buf) (\<lambda>_. cb_m ts_buf)) le_word 27 (Some 10) 0
     = Some (Some [20, 0, 0, 0], c')"
  using find_closest_nearest [OF ts_buf_ok ts_buf_sorted refl, of 27 "Some 10" 0]
  by (auto simp: ts_buf_contents ts_buf_keys)

theorem find_closest_linear_agrees_witness:
  "map_option (map_option (\<lambda>e. key_diff (le_word e) 27) \<circ> fst)
     (find_closest_linear (cyclic_reader (cb_T ts_buf) (cb_N ts_buf) (\<lambda>_. cb_m ts_buf)) le_word 27 3 None 0)
   = map_option (map_option (\<lambda>e. key_diff (le_word e) 27) \<circ> fst)
     (find_closest (cyclic_reader (cb_T ts_buf) (cb_N ts_buf) (\<lambda>_. cb_m ts_buf)) le_word 27 None 0)"
proof -
  have "key_diff (le_word [20, 0, 0, 0]) 27 \<noteq> (- 1 :: u64)" by code_simp
  then show ?thesis
    using find_closest_linear_agrees [OF ts_buf_ok ts_buf_sorted refl, of "[20, 0, 0, 0]" 27 None 0 0]
    by (simp add: ts_buf_contents numeral_3_eq_3)
qed

theorem find_interpolation_pair_brackets_witness:
  "\<exists>p c'. find_interpolation_pair (cyclic_reader (cb_T ts_buf) (cb_N ts_buf) (\<lambda>_. cb_m ts_buf)) le_word 25 0
     = Some (Some p, c') \<and> brackets le_word 25 (cb_contents ts_buf) p"
proof -
  have "\<not> (40 :: u64) < 25" "\<not> (25 :: u64) < 10" by code_simp+
  then show ?thesis
    using find_interpolation_pair_brackets [OF ts_buf_ok refl, of le_word 25 0]
    by (auto simp: ts_buf_contents ts_buf_keys)
qed

theorem time_series_concurrent_witness:
  "\<exists>res c'. find_closest (cyclic_reader (cr_T ts_demo) (cr_N ts_demo) (cr_mem ts_demo \<circ> ts_clk)) le_word 0 None 0
     = Some (res, c') \<and> set_option res \<subseteq> {[5, 0, 0, 0], [200, 0, 0, 0]}"
  using time_series_concurrent [OF ts_demo_invar _ _ mono_ts_clk ts_demo_no_lap refl, of le_word 0 None 0] by simp

theorem get_latest_if_fresh_at_rest_witness:
  "map_option fst (get_latest_if_fresh (cyclic_reader (cb_T ts_buf) (cb_N ts_buf) (\<lambda>_. cb_m ts_buf)) le_word 30 0)
     = Some (Some [40, 0, 0, 0])"
proof -
  have "(30 :: u64) \<le> 40" by code_simp
  then show ?thesis
    using get_latest_if_fresh_at_rest [OF ts_buf_ok refl, of le_word 30 0] by (simp add: ts_buf_contents ts_buf_keys)
qed

theorem get_latest_if_fresh_recent_witness:
  "\<exists>q. [200, 0, 0, 0] = cr_inserts ts_demo ! q \<and> cr_done ts_demo (ts_clk 6) \<le> Suc q"
proof -
  have "rd_available (cyclic_reader (flat 4 4) 1 (cr_mem ts_demo \<circ> ts_clk)) 6 = (1, 7)"
    by (simp add: cyclic_reader_def CyclicBufferReader_available_def ts_clk_def ts_demo_mem)
  moreover have "rd_try_get (cyclic_reader (flat 4 4) 1 (cr_mem ts_demo \<circ> ts_clk)) 0 7 = Some (Some [200, 0, 0, 0], 14)"
    using ts_demo_second by (simp add: cyclic_reader_def)
  ultimately have "get_latest_if_fresh (cyclic_reader (cr_T ts_demo) (cr_N ts_demo) (cr_mem ts_demo \<circ> ts_clk)) le_word 0 6
      = Some (Some [200, 0, 0, 0], 14)"
    by (simp add: get_latest_if_fresh_def)
  from get_latest_if_fresh_recent [OF ts_demo_invar _ _ mono_ts_clk ts_demo_no_lap this] show ?thesis
    by auto
qed

end
