(* ===== verification/Shm_Lock.thy ===== *)
theory Shm_Lock
  imports Shared_Access
begin

text \<open>
  \<^verbatim>\<open>shm_lock.hpp\<close>: a mutex on one 32-bit word in shared memory, 0 free and 1 taken, with the
  futex queue of the kernel behind it. \<open>lock()\<close>, \<open>unlock()\<close> and \<open>destroy()\<close> are cut at their
  atomic accesses and system calls; a process is at one such point (\<open>lock_pc\<close>), and any number of
  processes interleave (\<open>lock_step\<close>). The kernel may wake a sleeper for no reason (\<open>EINTR\<close>), and
  a \<open>FUTEX_WAKE\<close> of one may pick any sleeper.
\<close>

section \<open>State\<close>

datatype lock_pc =
    Outside     \<comment> \<open>not in any method\<close>
  | FastExch    \<comment> \<open>before the first \<open>exchange\<close> of \<open>lock()\<close>\<close>
  | SlowExch    \<comment> \<open>before the \<open>exchange\<close> of the loop\<close>
  | AboutToWait \<comment> \<open>before \<open>futex_wait(s, 1)\<close>\<close>
  | Asleep      \<comment> \<open>in the kernel's queue\<close>
  | Critical    \<comment> \<open>returned from \<open>lock()\<close>\<close>
  | AboutToWake \<comment> \<open>in \<open>unlock()\<close>, before \<open>futex_wake(s, 1)\<close>\<close>

record 'p lock_state =
  lock_word :: u32
  futex_queue :: "'p list"
  lock_pc :: "'p \<Rightarrow> lock_pc"

definition lock_init :: "'p lock_state" where
  "lock_init = \<lparr>lock_word = 0, futex_queue = [], lock_pc = (\<lambda>_. Outside)\<rparr>"

section \<open>Atomic parts of the methods\<close>

definition at :: "'p lock_state \<Rightarrow> 'p \<Rightarrow> lock_pc \<Rightarrow> bool" where
  "at s p l \<longleftrightarrow> lock_pc s p = l"

definition goto :: "'p \<Rightarrow> lock_pc \<Rightarrow> 'p lock_state \<Rightarrow> 'p lock_state" where
  "goto p l s = s\<lparr>lock_pc := (lock_pc s)(p := l)\<rparr>"

text \<open>\<open>exchange(1)\<close>: the old value decides where the process goes next.\<close>

definition lock_exchange :: "'p \<Rightarrow> lock_pc \<Rightarrow> 'p lock_state \<Rightarrow> 'p lock_state" where
  "lock_exchange p failed s =
     goto p (if lock_word s = 0 then Critical else failed) (s\<lparr>lock_word := 1\<rparr>)"

text \<open>\<open>futex_wait(s, 1)\<close>: the kernel compares and, if the word is 1, queues the caller.\<close>

definition lock_futex_wait :: "'p \<Rightarrow> 'p lock_state \<Rightarrow> 'p lock_state" where
  "lock_futex_wait p s =
     (if lock_word s = 1 then goto p Asleep (s\<lparr>futex_queue := futex_queue s @ [p]\<rparr>) else goto p SlowExch s)"

definition lock_wakeup :: "'p \<Rightarrow> 'p lock_state \<Rightarrow> 'p lock_state" where
  "lock_wakeup q s = goto q SlowExch (s\<lparr>futex_queue := remove1 q (futex_queue s)\<rparr>)"

definition unlock_store :: "'p \<Rightarrow> 'p lock_state \<Rightarrow> 'p lock_state" where
  "unlock_store p s = goto p AboutToWake (s\<lparr>lock_word := 0\<rparr>)"

datatype 'p lock_event =
    CallLock 'p | Fast 'p | Slow 'p | FutexWait 'p | Spurious 'p
  | CallUnlock 'p | WakeOne 'p 'p | WakeNone 'p

text \<open>The whole methods: where each event may happen and what it does.\<close>

fun ShmLock_exec :: "'p lock_event \<Rightarrow> 'p lock_state \<Rightarrow> 'p lock_state option" where
  "ShmLock_exec (CallLock p) s = (if at s p Outside then Some (goto p FastExch s) else None)"
| "ShmLock_exec (Fast p) s = (if at s p FastExch then Some (lock_exchange p SlowExch s) else None)"
| "ShmLock_exec (Slow p) s = (if at s p SlowExch then Some (lock_exchange p AboutToWait s) else None)"
| "ShmLock_exec (FutexWait p) s = (if at s p AboutToWait then Some (lock_futex_wait p s) else None)"
| "ShmLock_exec (Spurious p) s = (if at s p Asleep then Some (lock_wakeup p s) else None)"
| "ShmLock_exec (CallUnlock p) s = (if at s p Critical then Some (unlock_store p s) else None)"
| "ShmLock_exec (WakeOne p q) s =
     (if at s p AboutToWake \<and> q \<in> set (futex_queue s) then Some (goto p Outside (lock_wakeup q s)) else None)"
| "ShmLock_exec (WakeNone p) s =
     (if at s p AboutToWake \<and> futex_queue s = [] then Some (goto p Outside s) else None)"

text \<open>\<open>destroy()\<close> stores 0 and removes the backing file; a process that still has the word mapped
  goes on using it.\<close>

definition ShmLock_destroy :: "'p lock_state \<Rightarrow> 'p lock_state" where
  "ShmLock_destroy s = s\<lparr>lock_word := 0\<rparr>"

inductive lock_step :: "'p lock_state \<Rightarrow> 'p lock_state \<Rightarrow> bool" where
  step: "ShmLock_exec e s = Some s' \<Longrightarrow> lock_step s s'"

inductive lock_reachable :: "'p lock_state \<Rightarrow> bool" where
  init: "lock_reachable lock_init"
| step: "lock_reachable s \<Longrightarrow> lock_step s s' \<Longrightarrow> lock_reachable s'"

inductive_cases lock_stepE: "lock_step s s'"

section \<open>Invariant\<close>

text \<open>The word says whether some process holds the lock, and at most one does.\<close>

definition owner_inv :: "'p lock_state \<Rightarrow> bool" where
  "owner_inv s \<longleftrightarrow>
     lock_word s = 0 \<and> (\<forall>p. lock_pc s p \<noteq> Critical) \<or>
     lock_word s = 1 \<and> (\<exists>p. lock_pc s p = Critical) \<and>
       (\<forall>p q. lock_pc s p = Critical \<longrightarrow> lock_pc s q = Critical \<longrightarrow> p = q)"

text \<open>The kernel's queue holds exactly the sleepers.\<close>

definition queue_inv :: "'p lock_state \<Rightarrow> bool" where
  "queue_inv s \<longleftrightarrow> distinct (futex_queue s) \<and> set (futex_queue s) = {p. lock_pc s p = Asleep}"

text \<open>Whenever somebody sleeps, the lock is held, or a wake is about to be issued, or somebody
  awake is about to try the lock again.\<close>

definition wake_inv :: "'p lock_state \<Rightarrow> bool" where
  "wake_inv s \<longleftrightarrow> (futex_queue s \<noteq> [] \<longrightarrow>
     lock_word s = 1 \<or> (\<exists>p. lock_pc s p = AboutToWake \<or> lock_pc s p = SlowExch))"

definition lock_inv :: "'p lock_state \<Rightarrow> bool" where
  "lock_inv s \<longleftrightarrow> owner_inv s \<and> queue_inv s \<and> wake_inv s"

lemmas lock_defs = at_def goto_def lock_exchange_def lock_futex_wait_def lock_wakeup_def unlock_store_def

lemma lock_inv_init: "lock_inv lock_init"
  by (simp add: lock_inv_def owner_inv_def queue_inv_def wake_inv_def lock_init_def)

lemma owner_inv_exec: "ShmLock_exec e s = Some s' \<Longrightarrow> queue_inv s \<Longrightarrow> owner_inv s \<Longrightarrow> owner_inv s'"
  by (cases e; auto simp: owner_inv_def queue_inv_def lock_defs split: if_splits; metis lock_pc.distinct)

lemma queue_inv_exec: "ShmLock_exec e s = Some s' \<Longrightarrow> queue_inv s \<Longrightarrow> queue_inv s'"
  by (cases e) (auto simp: queue_inv_def lock_defs split: if_splits)

lemma wake_inv_exec:
  "ShmLock_exec e s = Some s' \<Longrightarrow> owner_inv s \<Longrightarrow> queue_inv s \<Longrightarrow> wake_inv s \<Longrightarrow> wake_inv s'"
  by (cases e; auto simp: wake_inv_def queue_inv_def owner_inv_def lock_defs split: if_splits; metis lock_pc.distinct)

lemma lock_inv_exec: "lock_inv s \<Longrightarrow> ShmLock_exec e s = Some s' \<Longrightarrow> lock_inv s'"
  unfolding lock_inv_def using owner_inv_exec queue_inv_exec wake_inv_exec by blast

lemma lock_inv_reachable: "lock_reachable s \<Longrightarrow> lock_inv s"
  by (induction rule: lock_reachable.induct) (auto simp: lock_inv_init elim: lock_stepE lock_inv_exec)

section \<open>Contract of a mutex\<close>

text \<open>
  What code that guards data with a lock relies on: \<open>exec\<close> performs one atomic part of some
  process's use of the lock, \<open>holds s p\<close> says that \<open>p\<close> is between \<open>lock()\<close> and \<open>unlock()\<close>, and
  \<open>release p\<close> is the part with which \<open>p\<close> gives the lock back.
\<close>

locale mutex =
  fixes exec :: "'e \<Rightarrow> 's \<Rightarrow> 's option"
    and holds :: "'s \<Rightarrow> 'p \<Rightarrow> bool"
    and invar :: "'s \<Rightarrow> bool"
    and release :: "'p \<Rightarrow> 'e"
  assumes invar_exec: "invar s \<Longrightarrow> exec e s = Some s' \<Longrightarrow> invar s'"
    and exclusive: "invar s \<Longrightarrow> holds s p \<Longrightarrow> holds s q \<Longrightarrow> p = q"
    and acquire: "invar s \<Longrightarrow> exec e s = Some s' \<Longrightarrow> holds s' p \<Longrightarrow> \<not> holds s p \<Longrightarrow> \<not> holds s q"
    and keep: "invar s \<Longrightarrow> exec e s = Some s' \<Longrightarrow> holds s p \<Longrightarrow> e \<noteq> release p \<Longrightarrow> holds s' p"
    and give: "invar s \<Longrightarrow> exec (release p) s = Some s' \<Longrightarrow> holds s p \<and> \<not> holds s' q"
begin

lemma free_before:
  assumes "invar s" "exec e s = Some s'" and "\<And>q. \<not> holds s' q"
  shows "(\<forall>q. \<not> holds s q) \<or> (\<exists>p. e = release p \<and> holds s p)"
  using assms keep by blast

text \<open>While one process holds the lock no other process gets it, however long the run.\<close>

fun run :: "'e list \<Rightarrow> 's \<Rightarrow> 's option" where
  "run [] s = Some s"
| "run (e # es) s = (case exec e s of None \<Rightarrow> None | Some s' \<Rightarrow> run es s')"

lemma invar_run: "invar s \<Longrightarrow> run es s = Some s' \<Longrightarrow> invar s'"
  by (induction es arbitrary: s) (auto split: option.splits intro: invar_exec)

lemma keep_run:
  "invar s \<Longrightarrow> run es s = Some s' \<Longrightarrow> holds s p \<Longrightarrow> release p \<notin> set es \<Longrightarrow>
     holds s' p \<and> (\<forall>q. holds s' q \<longrightarrow> q = p)"
proof (induction es arbitrary: s)
  case Nil
  then show ?case using exclusive by auto
next
  case (Cons e es)
  then obtain s1 where s1: "exec e s = Some s1" "run es s1 = Some s'" by (auto split: option.splits)
  then have "invar s1" "holds s1 p" using Cons.prems invar_exec keep by auto
  with Cons s1 show ?case by simp
qed

end

abbreviation holds_lock :: "'p lock_state \<Rightarrow> 'p \<Rightarrow> bool" where
  "holds_lock s p \<equiv> lock_pc s p = Critical"

lemma lock_acquire_exec:
  "ShmLock_exec e s = Some s' \<Longrightarrow> owner_inv s \<Longrightarrow> holds_lock s' p \<Longrightarrow> \<not> holds_lock s p \<Longrightarrow> \<not> holds_lock s q"
  by (cases e) (auto simp: owner_inv_def lock_defs split: if_splits)

lemma lock_keep_exec:
  "ShmLock_exec e s = Some s' \<Longrightarrow> queue_inv s \<Longrightarrow> holds_lock s p \<Longrightarrow> e \<noteq> CallUnlock p \<Longrightarrow> holds_lock s' p"
  by (cases e) (auto simp: queue_inv_def lock_defs split: if_splits)

lemma lock_give_exec:
  "ShmLock_exec (CallUnlock p) s = Some s' \<Longrightarrow> owner_inv s \<Longrightarrow> holds_lock s p \<and> \<not> holds_lock s' q"
  by (auto simp: owner_inv_def lock_defs split: if_splits)

interpretation lk: mutex ShmLock_exec holds_lock lock_inv CallUnlock
proof
  fix s s' :: "'p lock_state" and e p q
  assume s: "lock_inv s"
  show "lock_inv s'" if "ShmLock_exec e s = Some s'" using s that by (rule lock_inv_exec)
  show "p = q" if "holds_lock s p" "holds_lock s q" using s that by (auto simp: lock_inv_def owner_inv_def)
  show "\<not> holds_lock s q" if "ShmLock_exec e s = Some s'" "holds_lock s' p" "\<not> holds_lock s p"
    using s lock_acquire_exec [OF that(1) _ that(2,3)] by (auto simp: lock_inv_def)
  show "holds_lock s' p" if "ShmLock_exec e s = Some s'" "holds_lock s p" "e \<noteq> CallUnlock p"
    using s that lock_keep_exec by (auto simp: lock_inv_def)
  show "holds_lock s p \<and> \<not> holds_lock s' q" if "ShmLock_exec (CallUnlock p) s = Some s'"
    using s lock_give_exec [OF that] by (auto simp: lock_inv_def)
qed

section \<open>Properties\<close>

text \<open>
  C28. Mutual exclusion: in no reachable state, for any number of processes and any interleaving
  of their atomic accesses, system calls and spurious wake-ups, are two processes past \<open>lock()\<close>
  at the same time, and the word is 0 exactly when none is.
\<close>

theorem lock_mutual_exclusion:
  assumes "lock_reachable s"
  shows "(at s p Critical \<and> at s q Critical \<longrightarrow> p = q) \<and> (lock_word s = 0) = (\<forall>r. \<not> at s r Critical)"
  using lock_inv_reachable [OF assms] unfolding lock_inv_def owner_inv_def at_def by auto

text \<open>
  C30. No wake-up is lost: whenever a process sleeps in \<open>lock()\<close>, some process holds the lock (and
  its \<open>unlock()\<close> will issue a wake), or a wake is about to be issued, or an awake process is about
  to try the lock. A sleeper is never left behind with the lock free and nobody on the way.
\<close>

theorem lock_no_lost_wakeup:
  assumes "lock_reachable s" and "at s p Asleep"
  shows "\<exists>q. at s q Critical \<or> at s q AboutToWake \<or> at s q SlowExch"
proof -
  have inv: "owner_inv s" "queue_inv s" "wake_inv s"
    using lock_inv_reachable [OF assms(1)] by (simp_all add: lock_inv_def)
  have "p \<in> set (futex_queue s)" using inv(2) assms(2) by (simp add: queue_inv_def at_def)
  then have "lock_word s = 1 \<or> (\<exists>p. lock_pc s p = AboutToWake \<or> lock_pc s p = SlowExch)"
    using inv(3) by (auto simp: wake_inv_def)
  then show ?thesis using inv(1) by (auto simp: owner_inv_def at_def)
qed

text \<open>
  The uncontended path: on a free lock \<open>lock()\<close> enters with its first exchange and no system
  call, and \<open>unlock()\<close> leaves the lock as it was before.
\<close>

theorem lock_unlock_uncontended:
  assumes "lock_word s = 0" and "futex_queue s = []" and "at s p Outside"
  shows "\<exists>s1 s2. ShmLock_exec (CallLock p) s = Some s1 \<and> ShmLock_exec (Fast p) s1 = Some s2 \<and>
     at s2 p Critical \<and> lock_word s2 = 1 \<and>
     (\<exists>s3. ShmLock_exec (CallUnlock p) s2 = Some s3 \<and> ShmLock_exec (WakeNone p) s3 = Some s)"
  using assms by (cases s) (auto simp: lock_defs fun_upd_idem)

text \<open>The states of two processes after the first has taken the lock and the second has called
  \<open>lock()\<close>.\<close>

definition lock_demo :: "nat lock_state" where
  "lock_demo = \<lparr>lock_word = 1, futex_queue = [], lock_pc = (\<lambda>_. Outside)(0 := Critical, 1 := FastExch)\<rparr>"

lemma lock_demo_reachable: "lock_reachable lock_demo"
proof -
  let ?s1 = "goto 0 FastExch (lock_init :: nat lock_state)"
  let ?s2 = "lock_exchange 0 SlowExch ?s1"
  have "lock_reachable ?s1"
    by (rule lock_reachable.step [OF lock_reachable.init], rule lock_step.step [of "CallLock 0"])
      (simp add: at_def lock_init_def)
  then have "lock_reachable ?s2"
    by (rule lock_reachable.step, intro lock_step.step [of "Fast 0"]) (simp add: lock_defs lock_init_def)
  then have "lock_reachable (goto 1 FastExch ?s2)"
    by (rule lock_reachable.step, intro lock_step.step [of "CallLock 1"]) (simp add: lock_defs lock_init_def)
  moreover have "goto 1 FastExch ?s2 = lock_demo"
    by (simp add: lock_defs lock_init_def lock_demo_def)
  ultimately show ?thesis by simp
qed

text \<open>
  \<open>destroy()\<close> breaks mutual exclusion: called while another process holds the lock, it frees
  the word under that process, and a third one enters beside it.
\<close>

theorem lock_destroy_breaks_exclusion:
  "\<exists>s s'. lock_reachable s \<and> at s (0 :: nat) Critical \<and>
     ShmLock_exec (Fast 1) (ShmLock_destroy s) = Some s' \<and> at s' 0 Critical \<and> at s' 1 Critical"
proof -
  have "ShmLock_exec (Fast 1) (ShmLock_destroy lock_demo) = Some (lock_exchange 1 SlowExch (ShmLock_destroy lock_demo))"
    by (simp add: lock_demo_def ShmLock_destroy_def at_def)
  moreover have "at (lock_exchange 1 SlowExch (ShmLock_destroy lock_demo)) 0 Critical"
      "at (lock_exchange 1 SlowExch (ShmLock_destroy lock_demo)) 1 Critical" "at lock_demo 0 Critical"
    by (simp_all add: lock_demo_def ShmLock_destroy_def lock_defs)
  ultimately show ?thesis using lock_demo_reachable by blast
qed

section \<open>Witnesses\<close>

theorem lock_mutual_exclusion_witness:
  "(lock_word lock_demo = 0) = (\<forall>r. \<not> at lock_demo r Critical)"
  using lock_mutual_exclusion [OF lock_demo_reachable] by blast

definition lock_demo_sleep :: "nat lock_state" where
  "lock_demo_sleep = \<lparr>lock_word = 1, futex_queue = [1], lock_pc = (\<lambda>_. Outside)(0 := Critical, 1 := Asleep)\<rparr>"

lemma lock_demo_sleep_reachable: "lock_reachable lock_demo_sleep"
proof -
  let ?s1 = "lock_exchange 1 SlowExch lock_demo"
  let ?s2 = "lock_exchange 1 AboutToWait ?s1"
  have "lock_reachable ?s1"
    by (rule lock_reachable.step [OF lock_demo_reachable], rule lock_step.step [of "Fast 1"])
      (simp add: at_def lock_demo_def)
  then have "lock_reachable ?s2"
    by (rule lock_reachable.step, intro lock_step.step [of "Slow 1"]) (simp add: lock_defs lock_demo_def)
  then have "lock_reachable (lock_futex_wait 1 ?s2)"
    by (rule lock_reachable.step, intro lock_step.step [of "FutexWait 1"]) (simp add: lock_defs lock_demo_def)
  moreover have "lock_futex_wait 1 ?s2 = lock_demo_sleep"
    by (simp add: lock_defs lock_demo_def lock_demo_sleep_def)
  ultimately show ?thesis by simp
qed

theorem lock_no_lost_wakeup_witness:
  "\<exists>q. at lock_demo_sleep q Critical \<or> at lock_demo_sleep q AboutToWake \<or> at lock_demo_sleep q SlowExch"
proof -
  have "at lock_demo_sleep 1 Asleep" by (simp add: at_def lock_demo_sleep_def)
  with lock_demo_sleep_reachable show ?thesis by (rule lock_no_lost_wakeup)
qed

theorem lock_unlock_uncontended_witness:
  "\<exists>s1 s2. ShmLock_exec (CallLock (0 :: nat)) lock_init = Some s1 \<and> ShmLock_exec (Fast 0) s1 = Some s2 \<and> at s2 0 Critical"
proof -
  have "lock_word (lock_init :: nat lock_state) = 0" "futex_queue (lock_init :: nat lock_state) = []" "at lock_init (0 :: nat) Outside"
    by (simp_all add: lock_init_def at_def)
  from lock_unlock_uncontended [OF this] show ?thesis by blast
qed

end
