(* ===== verification/Storage.thy ===== *)
theory Storage
  imports Shm_Lock Flat_Type
begin

text \<open>
  \<^verbatim>\<open>storage.hpp\<close> and \<^verbatim>\<open>shared_memory.hpp\<close>: an object in shared memory, written under a
  \<open>ShmLock\<close> by \<open>Storage::store\<close> (and, with the same code, by \<open>DoubleBufferShm::store\<close> of
  \<^verbatim>\<open>image_shm.hpp\<close>), and read and written without any protection through \<open>SharedMemory::get\<close>.
  The assignment of an object is the copy of its bytes, one access each, so that a second writer
  could interleave with it if the lock allowed.
\<close>

section \<open>State\<close>

text \<open>\<open>st_arg\<close> and \<open>st_todo\<close> are the argument of the running call of each process and the accesses
  it still has to make; \<open>st_log\<close> records the objects of the completed stores, in the order of
  their \<open>unlock()\<close>.\<close>

record 'p storage =
  st_lock :: "'p lock_state"
  st_mem :: mem
  st_arg :: "'p \<Rightarrow> byte list"
  st_todo :: "'p \<Rightarrow> act list"
  st_log :: "byte list list"

definition storage_init :: "mem \<Rightarrow> 'p storage" where
  "storage_init m = \<lparr>st_lock = lock_init, st_mem = m, st_arg = (\<lambda>_. []), st_todo = (\<lambda>_. []), st_log = []\<rparr>"

datatype 'p storage_event =
    StoreCall 'p "byte list"        \<comment> \<open>\<open>store(data)\<close> is called\<close>
  | StoreLock "'p lock_event"       \<comment> \<open>an atomic part of \<open>lock_.lock()\<close> or \<open>lock_.unlock()\<close>\<close>
  | StoreCopy 'p                    \<comment> \<open>one byte of the assignment\<close>

fun Storage_exec :: "ctype \<Rightarrow> 'p storage_event \<Rightarrow> 'p storage \<Rightarrow> 'p storage option" where
  "Storage_exec T (StoreCall p data) s =
     (case ShmLock_exec (CallLock p) (st_lock s) of
        None \<Rightarrow> None
      | Some l \<Rightarrow>
          if length data = sizeof T
          then Some (s\<lparr>st_lock := l, st_arg := (st_arg s)(p := data),
                       st_todo := (st_todo s)(p := memcpy_acts 0 data)\<rparr>)
          else None)"
| "Storage_exec T (StoreLock e) s =
     (case ShmLock_exec e (st_lock s) of
        None \<Rightarrow> None
      | Some l \<Rightarrow>
          (case e of
             CallLock p \<Rightarrow> None
           | CallUnlock p \<Rightarrow>
               if st_todo s p = [] then Some (s\<lparr>st_lock := l, st_log := st_log s @ [st_arg s p]\<rparr>) else None
           | _ \<Rightarrow> Some (s\<lparr>st_lock := l\<rparr>)))"
| "Storage_exec T (StoreCopy p) s =
     (if at (st_lock s) p Critical then
        (case st_todo s p of
           [] \<Rightarrow> None
         | a # as \<Rightarrow> Some (s\<lparr>st_mem := exec_act a (st_mem s), st_todo := (st_todo s)(p := as)\<rparr>))
      else None)"

inductive storage_reachable :: "ctype \<Rightarrow> mem \<Rightarrow> 'p storage \<Rightarrow> bool" for T m where
  init: "storage_reachable T m (storage_init m)"
| step: "storage_reachable T m s \<Longrightarrow> Storage_exec T e s = Some s' \<Longrightarrow> storage_reachable T m s'"

text \<open>A sequence of steps, and the one of a \<open>store\<close> that nobody disturbs: the lock is free, and the writer has it to itself.\<close>

fun storage_run :: "ctype \<Rightarrow> 'p storage_event list \<Rightarrow> 'p storage \<Rightarrow> 'p storage option" where
  "storage_run T [] s = Some s"
| "storage_run T (e # es) s = (case Storage_exec T e s of None \<Rightarrow> None | Some s' \<Rightarrow> storage_run T es s')"

definition Storage_store_alone :: "ctype \<Rightarrow> byte list \<Rightarrow> mem \<Rightarrow> mem option" where
  "Storage_store_alone T data m =
     map_option st_mem (storage_run T
       ([StoreCall () data, StoreLock (Fast ())] @ replicate (sizeof T) (StoreCopy ()) @
        [StoreLock (CallUnlock ()), StoreLock (WakeNone ())]) (storage_init m))"

section \<open>Unprotected access\<close>

definition SharedMemory_get :: "ctype \<Rightarrow> mem \<Rightarrow> byte list" where
  "SharedMemory_get T m = load_bytes m 0 (sizeof T)"

definition SharedMemory_set :: "byte list \<Rightarrow> mem \<Rightarrow> mem" where
  "SharedMemory_set data m = exec_acts (memcpy_acts 0 data) m"

definition SharedMemory_size :: "ctype \<Rightarrow> nat" where
  "SharedMemory_size T = sizeof T"

section \<open>Invariant\<close>

text \<open>In \<open>lock()\<close> nothing of the object is written; a holder has written the first \<open>k\<close> bytes.\<close>

definition in_lock :: "lock_pc \<Rightarrow> bool" where
  "in_lock l \<longleftrightarrow> l = FastExch \<or> l = SlowExch \<or> l = AboutToWait \<or> l = Asleep"

definition job_inv :: "ctype \<Rightarrow> 'p storage \<Rightarrow> 'p \<Rightarrow> bool" where
  "job_inv T s p \<longleftrightarrow>
     (in_lock (lock_pc (st_lock s) p) \<longrightarrow>
        length (st_arg s p) = sizeof T \<and> st_todo s p = memcpy_acts 0 (st_arg s p)) \<and>
     (holds_lock (st_lock s) p \<longrightarrow>
        length (st_arg s p) = sizeof T \<and>
        (\<exists>k \<le> sizeof T. st_todo s p = memcpy_acts k (drop k (st_arg s p)) \<and>
           (\<forall>i < k. st_mem s i = st_arg s p ! i)))"

definition last_stored :: "ctype \<Rightarrow> mem \<Rightarrow> 'p storage \<Rightarrow> byte list" where
  "last_stored T m s = last (SharedMemory_get T m # st_log s)"

text \<open>
  The invariant for the processes of \<open>W\<close>, all of whose critical sections are stores. Processes
  outside \<open>W\<close> may use the lock too but write nothing.
\<close>

definition writers_inv :: "'p set \<Rightarrow> ctype \<Rightarrow> mem \<Rightarrow> 'p storage \<Rightarrow> bool" where
  "writers_inv W T m s \<longleftrightarrow> lock_inv (st_lock s) \<and> (\<forall>p \<in> W. job_inv T s p) \<and>
     ((\<forall>p \<in> W. \<not> holds_lock (st_lock s) p) \<longrightarrow> SharedMemory_get T (st_mem s) = last_stored T m s)"

abbreviation storage_inv :: "ctype \<Rightarrow> mem \<Rightarrow> 'p storage \<Rightarrow> bool" where
  "storage_inv \<equiv> writers_inv UNIV"

lemma storage_inv_init: "storage_inv T m (storage_init m)"
  by (simp add: writers_inv_def storage_init_def lock_inv_init job_inv_def last_stored_def in_lock_def)
    (simp add: lock_init_def)

lemma bytes_complete:
  assumes "length d = sizeof T" and "\<And>i. i < sizeof T \<Longrightarrow> m i = d ! i"
  shows "SharedMemory_get T m = d"
  using assms by (auto simp: SharedMemory_get_def load_bytes_def intro: nth_equalityI)

lemma memcpy_acts_eq_Nil [simp]: "memcpy_acts a bs = [] \<longleftrightarrow> bs = []" "[] = memcpy_acts a bs \<longleftrightarrow> bs = []"
  by (cases bs; simp)+

lemma queue_inv_Asleep: "queue_inv s \<Longrightarrow> q \<in> set (futex_queue s) \<Longrightarrow> lock_pc s q = Asleep"
  by (simp add: queue_inv_def)

lemma in_lock_exec:
  "ShmLock_exec e s = Some s' \<Longrightarrow> queue_inv s \<Longrightarrow> in_lock (lock_pc s' q) \<Longrightarrow> e \<noteq> CallLock q \<Longrightarrow> in_lock (lock_pc s q)"
  by (cases e; simp add: in_lock_def lock_defs split: if_splits)
    (auto dest: queue_inv_Asleep split: if_splits)

lemma holds_exec:
  "ShmLock_exec e s = Some s' \<Longrightarrow> holds_lock s' q \<Longrightarrow> holds_lock s q \<or> in_lock (lock_pc s q)"
  by (cases e) (auto simp: in_lock_def lock_defs split: if_splits)

lemma writers_inv_call:
  assumes inv: "writers_inv W T m s" and p: "p \<in> W" and ex: "Storage_exec T (StoreCall p data) s = Some s'"
  shows "writers_inv W T m s'"
proof -
  from ex have out: "lock_pc (st_lock s) p = Outside" and len: "length data = sizeof T"
      and s': "s' = s\<lparr>st_lock := goto p FastExch (st_lock s), st_arg := (st_arg s)(p := data),
        st_todo := (st_todo s)(p := memcpy_acts 0 data)\<rparr>"
    by (auto simp: at_def split: if_splits option.splits)
  have "lock_inv (goto p FastExch (st_lock s))"
    using inv lock_inv_exec [of "st_lock s" "CallLock p"] out by (simp add: writers_inv_def at_def)
  moreover have "job_inv T s' q" if "q \<in> W" for q
    using inv len out that by (cases "q = p") (auto simp: writers_inv_def job_inv_def s' goto_def)
  moreover have "SharedMemory_get T (st_mem s') = last_stored T m s'" if "\<forall>q \<in> W. \<not> holds_lock (st_lock s') q"
  proof -
    have "\<forall>q \<in> W. \<not> holds_lock (st_lock s) q"
      using that out unfolding s' by (simp add: goto_def) (metis lock_pc.distinct(9))
    with inv show ?thesis by (simp add: writers_inv_def s' last_stored_def)
  qed
  ultimately show ?thesis by (simp add: writers_inv_def s')
qed

text \<open>The progress of one copy.\<close>

lemma copy_progress:
  assumes inv: "writers_inv W T m s" and p: "p \<in> W" "holds_lock (st_lock s) p" and todo: "st_todo s p = a # as"
  obtains k where "k < sizeof T" and "a = CopyByte k (st_arg s p ! k)"
    and "as = memcpy_acts (Suc k) (drop (Suc k) (st_arg s p))" and "length (st_arg s p) = sizeof T"
    and "\<forall>i < k. st_mem s i = st_arg s p ! i"
proof -
  from inv p obtain k where len: "length (st_arg s p) = sizeof T" and k: "k \<le> sizeof T"
      "st_todo s p = memcpy_acts k (drop k (st_arg s p))" "\<forall>i < k. st_mem s i = st_arg s p ! i"
    by (auto simp: writers_inv_def job_inv_def)
  then have "drop k (st_arg s p) \<noteq> []" using todo by auto
  then have lt: "k < sizeof T" using len by simp
  then have "drop k (st_arg s p) = st_arg s p ! k # drop (Suc k) (st_arg s p)"
    using len by (simp add: Cons_nth_drop_Suc)
  with k(2) todo have "a = CopyByte k (st_arg s p ! k)" "as = memcpy_acts (Suc k) (drop (Suc k) (st_arg s p))"
    by simp_all
  with lt len k(3) show thesis using that by blast
qed

lemma writers_inv_copy:
  assumes inv: "writers_inv W T m s" and W: "p \<in> W" and ex: "Storage_exec T (StoreCopy p) s = Some s'"
  shows "writers_inv W T m s'"
proof -
  from ex obtain a as where p: "holds_lock (st_lock s) p" and todo: "st_todo s p = a # as"
      and s': "s' = s\<lparr>st_mem := exec_act a (st_mem s), st_todo := (st_todo s)(p := as)\<rparr>"
    by (auto simp: at_def split: if_splits list.splits)
  obtain k where k: "k < sizeof T" "a = CopyByte k (st_arg s p ! k)"
      "as = memcpy_acts (Suc k) (drop (Suc k) (st_arg s p))" "length (st_arg s p) = sizeof T"
      "\<forall>i < k. st_mem s i = st_arg s p ! i"
    using copy_progress [OF inv W p todo] .
  have "job_inv T s' p"
    using p k by (auto simp: job_inv_def s' in_lock_def less_Suc_eq intro!: exI [of _ "Suc k"])
  moreover have "job_inv T s' q" if "q \<in> W" "q \<noteq> p" for q
    using inv that p lk.exclusive [of "st_lock s" q p] by (auto simp: writers_inv_def job_inv_def s')
  ultimately have "job_inv T s' q" if "q \<in> W" for q using that by (cases "q = p") auto
  then show ?thesis using inv p W by (auto simp: writers_inv_def s')
qed

lemma job_inv_lock:
  assumes "queue_inv (st_lock s)" and "ShmLock_exec e (st_lock s) = Some l" and "e \<noteq> CallLock q" and "job_inv T s q"
    and "st_lock s' = l" "st_mem s' = st_mem s" "st_arg s' = st_arg s" "st_todo s' = st_todo s"
  shows "job_inv T s' q"
proof -
  have "in_lock (lock_pc (st_lock s) q)" if "in_lock (lock_pc l q)"
    using in_lock_exec [OF assms(2,1) that assms(3)] .
  moreover have "holds_lock (st_lock s) q \<or> in_lock (lock_pc (st_lock s) q)" if "holds_lock l q"
    using holds_exec [OF assms(2) that] .
  ultimately show ?thesis using assms by (auto simp: job_inv_def)
qed

text \<open>A part of \<open>lock()\<close> or \<open>unlock()\<close> with which no writer of \<open>W\<close> gives the lock back.\<close>

lemma writers_inv_lock_part:
  assumes inv: "writers_inv W T m s" and l: "ShmLock_exec e (st_lock s) = Some l"
    and e: "\<And>p. p \<in> W \<Longrightarrow> e \<noteq> CallLock p \<and> e \<noteq> CallUnlock p"
  shows "writers_inv W T m (s\<lparr>st_lock := l\<rparr>)"
proof -
  have li: "lock_inv (st_lock s)" and qi: "queue_inv (st_lock s)"
    using inv by (auto simp: writers_inv_def lock_inv_def)
  have "job_inv T (s\<lparr>st_lock := l\<rparr>) q" if "q \<in> W" for q
  proof -
    have "e \<noteq> CallLock q" "job_inv T s q" using inv that e by (simp_all add: writers_inv_def)
    then show ?thesis by (rule job_inv_lock [OF qi l]) simp_all
  qed
  moreover have "\<not> holds_lock (st_lock s) q" if "\<forall>q \<in> W. \<not> holds_lock l q" "q \<in> W" for q
    using that e lk.keep [OF li l] by blast
  ultimately show ?thesis
    using inv lock_inv_exec [OF li l] by (auto simp: writers_inv_def last_stored_def)
qed

lemma writers_inv_unlock:
  assumes inv: "writers_inv W T m s" and p: "p \<in> W" and ex: "Storage_exec T (StoreLock (CallUnlock p)) s = Some s'"
  shows "writers_inv W T m s'"
proof -
  from ex obtain l where l: "ShmLock_exec (CallUnlock p) (st_lock s) = Some l" and todo: "st_todo s p = []"
      and s': "s' = s\<lparr>st_lock := l, st_log := st_log s @ [st_arg s p]\<rparr>"
    by (auto split: option.splits if_splits)
  have li: "lock_inv (st_lock s)" and qi: "queue_inv (st_lock s)"
    using inv by (auto simp: writers_inv_def lock_inv_def)
  have hold: "holds_lock (st_lock s) p" using lk.give [OF li l] by blast
  have "job_inv T s' q" if "q \<in> W" for q
  proof -
    have "job_inv T s q" using inv that by (simp add: writers_inv_def)
    then show ?thesis by (rule job_inv_lock [OF qi l, rotated]) (simp_all add: s')
  qed
  moreover have "SharedMemory_get T (st_mem s') = last_stored T m s'"
  proof -
    have "job_inv T s p" using inv p by (simp add: writers_inv_def)
    with hold obtain k where len: "length (st_arg s p) = sizeof T" and k: "k \<le> sizeof T"
        "st_todo s p = memcpy_acts k (drop k (st_arg s p))" "\<forall>i < k. st_mem s i = st_arg s p ! i"
      by (auto simp: job_inv_def)
    with todo have "k = sizeof T" by auto
    then have "SharedMemory_get T (st_mem s) = st_arg s p"
      using k(3) len by (intro bytes_complete) auto
    then show ?thesis by (simp add: last_stored_def s')
  qed
  ultimately show ?thesis
    using lock_inv_exec [OF li l] by (simp add: writers_inv_def s')
qed

text \<open>The process that makes an event.\<close>

fun lock_event_by :: "'p lock_event \<Rightarrow> 'p" where
  "lock_event_by (CallLock p) = p"
| "lock_event_by (Fast p) = p"
| "lock_event_by (Slow p) = p"
| "lock_event_by (FutexWait p) = p"
| "lock_event_by (Spurious p) = p"
| "lock_event_by (CallUnlock p) = p"
| "lock_event_by (WakeOne p q) = p"
| "lock_event_by (WakeNone p) = p"

fun storage_event_by :: "'p storage_event \<Rightarrow> 'p" where
  "storage_event_by (StoreCall p data) = p"
| "storage_event_by (StoreLock e) = lock_event_by e"
| "storage_event_by (StoreCopy p) = p"

lemma writers_inv_exec:
  assumes inv: "writers_inv W T m s" and by_W: "storage_event_by e \<in> W" and ex: "Storage_exec T e s = Some s'"
  shows "writers_inv W T m s'"
proof (cases e)
  case (StoreCall p data)
  show ?thesis by (rule writers_inv_call [OF inv _ ex [unfolded StoreCall]]) (use by_W StoreCall in simp)
next
  case (StoreCopy p)
  show ?thesis by (rule writers_inv_copy [OF inv _ ex [unfolded StoreCopy]]) (use by_W StoreCopy in simp)
next
  case (StoreLock l)
  show ?thesis
  proof (cases "\<exists>p. l = CallUnlock p")
    case True
    then obtain p where p: "e = StoreLock (CallUnlock p)" using StoreLock by blast
    show ?thesis by (rule writers_inv_unlock [OF inv _ ex [unfolded p]]) (use by_W p in simp)
  next
    case False
    with ex StoreLock obtain lk where "ShmLock_exec l (st_lock s) = Some lk" "s' = s\<lparr>st_lock := lk\<rparr>" "\<forall>p. l \<noteq> CallLock p"
      by (cases l) (auto split: option.splits)
    with False show ?thesis using writers_inv_lock_part [OF inv] by auto
  qed
qed

lemma storage_inv_reachable: "storage_reachable T m s \<Longrightarrow> storage_inv T m s"
  by (induction rule: storage_reachable.induct) (auto intro: storage_inv_init writers_inv_exec)

section \<open>Properties\<close>

text \<open>
  C32. \<open>Storage::store\<close> is atomic under any number of concurrent writers and any interleaving of
  their accesses: whenever the lock is free the segment holds, complete and unmixed, the object of
  the last completed store, or what it held at first if there was none; and a writer that has
  finished copying and not yet unlocked sees exactly its own object.
\<close>

theorem storage_store_atomic:
  assumes "storage_reachable T m s"
  shows "(lock_word (st_lock s) = 0 \<longrightarrow>
            SharedMemory_get T (st_mem s) = last (SharedMemory_get T m # st_log s)) \<and>
         (at (st_lock s) p Critical \<and> st_todo s p = [] \<longrightarrow> SharedMemory_get T (st_mem s) = st_arg s p)"
proof (intro conjI impI)
  have inv: "storage_inv T m s" using storage_inv_reachable [OF assms] .
  assume "lock_word (st_lock s) = 0"
  then have "\<forall>p. \<not> holds_lock (st_lock s) p"
    using inv by (auto simp: writers_inv_def lock_inv_def owner_inv_def)
  with inv show "SharedMemory_get T (st_mem s) = last (SharedMemory_get T m # st_log s)"
    by (simp add: writers_inv_def last_stored_def)
next
  assume p: "at (st_lock s) p Critical \<and> st_todo s p = []"
  have "job_inv T s p" using storage_inv_reachable [OF assms] by (simp add: writers_inv_def)
  with p obtain k where len: "length (st_arg s p) = sizeof T" and k: "k \<le> sizeof T"
      "st_todo s p = memcpy_acts k (drop k (st_arg s p))" "\<forall>i < k. st_mem s i = st_arg s p ! i"
    by (auto simp: job_inv_def at_def)
  with p have "k = sizeof T" by auto
  then show "SharedMemory_get T (st_mem s) = st_arg s p"
    using k(3) len by (intro bytes_complete) auto
qed

section \<open>A store on its own\<close>

lemma storage_run_append:
  "storage_run T (xs @ ys) s = (case storage_run T xs s of None \<Rightarrow> None | Some s' \<Rightarrow> storage_run T ys s')"
  by (induction xs arbitrary: s) (auto split: option.splits)

lemma storage_run_copies:
  assumes "at (st_lock s) p Critical" and "st_todo s p = memcpy_acts a bs"
  shows "storage_run T (replicate (length bs) (StoreCopy p)) s
           = Some (s\<lparr>st_mem := store_bytes bs a (st_mem s), st_todo := (st_todo s)(p := [])\<rparr>)"
  using assms
proof (induction bs arbitrary: a s)
  case (Cons b bs)
  let ?s = "s\<lparr>st_mem := (st_mem s)(a := b), st_todo := (st_todo s)(p := memcpy_acts (Suc a) bs)\<rparr>"
  have "Storage_exec T (StoreCopy p) s = Some ?s" using Cons.prems by simp
  moreover have "storage_run T (replicate (length bs) (StoreCopy p)) ?s
      = Some (s\<lparr>st_mem := store_bytes (b # bs) a (st_mem s), st_todo := (st_todo s)(p := [])\<rparr>)"
    unfolding store_bytes_Cons using Cons.IH [of ?s "Suc a"] Cons.prems(1) by (cases s) (simp add: fun_upd_def cong: if_cong)
  ultimately show ?case by (simp only: list.size add_Suc_right add_0_right replicate_Suc storage_run.simps option.case)
qed (simp add: fun_upd_idem)

lemma Storage_store_alone_eq:
  assumes "length data = sizeof T"
  shows "Storage_store_alone T data m = Some (store_bytes data 0 m)"
proof -
  let ?s = "\<lparr>st_lock = goto () Critical (lock_init\<lparr>lock_word := 1\<rparr>), st_mem = m, st_arg = (\<lambda>_. [])(() := data),
      st_todo = (\<lambda>_. [])(() := memcpy_acts 0 data), st_log = []\<rparr>"
  have "storage_run T [StoreCall () data, StoreLock (Fast ())] (storage_init m) = Some ?s"
    using assms by (simp add: storage_init_def lock_init_def lock_defs)
  moreover have "storage_run T (replicate (sizeof T) (StoreCopy ())) ?s
      = Some (?s\<lparr>st_mem := store_bytes data 0 m, st_todo := (st_todo ?s)(() := [])\<rparr>)"
    using storage_run_copies [of ?s "()" 0 data T] assms by (simp add: lock_defs)
  moreover have "storage_run T [StoreLock (CallUnlock ()), StoreLock (WakeNone ())]
      (?s\<lparr>st_mem := store_bytes data 0 m, st_todo := (st_todo ?s)(() := [])\<rparr>)
      = Some (?s\<lparr>st_lock := lock_init, st_mem := store_bytes data 0 m, st_todo := (st_todo ?s)(() := []), st_log := [data]\<rparr>)"
    by (simp add: lock_init_def lock_defs fun_eq_iff)
  ultimately show ?thesis
    unfolding Storage_store_alone_def storage_run_append by (simp del: storage_run.simps)
qed

section \<open>Witnesses\<close>

lemma storage_run_reachable:
  "storage_reachable T m s \<Longrightarrow> storage_run T es s = Some s' \<Longrightarrow> storage_reachable T m s'"
  by (induction es arbitrary: s) (auto split: option.splits intro: storage_reachable.step)

text \<open>Two processes store one byte each; the second calls \<open>store\<close> while the first holds the lock.\<close>

definition storage_demo :: "nat storage_event list" where
  "storage_demo = [StoreCall 0 [7], StoreLock (Fast 0), StoreCall 1 [9], StoreLock (Fast 1), StoreCopy 0,
     StoreLock (CallUnlock 0), StoreLock (WakeNone 0), StoreLock (Slow 1), StoreCopy 1,
     StoreLock (CallUnlock 1), StoreLock (WakeNone 1)]"

lemma storage_demo_run:
  "\<exists>s. storage_run (flat 1 1) storage_demo (storage_init zero_mem) = Some s \<and>
     lock_word (st_lock s) = 0 \<and> st_log s = [[7], [9]]"
  by (simp add: storage_demo_def storage_init_def lock_init_def lock_defs)

theorem storage_store_atomic_witness:
  "\<exists>s. storage_run (flat 1 1) storage_demo (storage_init zero_mem) = Some s \<and>
     SharedMemory_get (flat 1 1) (st_mem s) = [9]"
proof -
  obtain s where s: "storage_run (flat 1 1) storage_demo (storage_init zero_mem) = Some s"
      "lock_word (st_lock s) = 0" "st_log s = [[7], [9]]"
    using storage_demo_run by blast
  have "storage_reachable (flat 1 1) zero_mem s"
    using storage_run_reachable [OF storage_reachable.init s(1)] .
  from storage_store_atomic [OF this] s show ?thesis by auto
qed

end
