(* ===== verification/Producer_Consumer.thy ===== *)
theory Producer_Consumer
  imports Storage
begin

text \<open>
  \<^verbatim>\<open>producer_consumer.hpp\<close>: one object in shared memory handed from producers to consumers with two
  semaphores, \<open>sem_read_\<close> starting at 0 and \<open>sem_write_\<close> at 1. The semaphore itself is code of the
  external \<open>shm\<close> package: its operations are the parameter \<open>ops\<close>, and \<open>sem_spec\<close> states what a
  counting semaphore promises. Any number of producers and consumers interleave; assignment and
  reading of the object go byte by byte.
\<close>

section \<open>Semaphores\<close>

record 'q sem_ops =
  sem_new :: "nat \<Rightarrow> 'q"
  sem_wait :: "'q \<Rightarrow> 'q option"    \<comment> \<open>\<open>None\<close>: the caller blocks\<close>
  sem_post :: "'q \<Rightarrow> 'q"

definition sem_spec :: "'q sem_ops \<Rightarrow> ('q \<Rightarrow> nat) \<Rightarrow> bool" where
  "sem_spec ops cnt \<longleftrightarrow>
     (\<forall>n. cnt (sem_new ops n) = n) \<and>
     (\<forall>q. sem_wait ops q = None \<longleftrightarrow> cnt q = 0) \<and>
     (\<forall>q q'. sem_wait ops q = Some q' \<longrightarrow> cnt q = Suc (cnt q')) \<and>
     (\<forall>q. cnt (sem_post ops q) = Suc (cnt q))"

section \<open>State and steps\<close>

datatype pc_pos =
    Idle
  | ProduceWait "byte list"        \<comment> \<open>in \<open>produce(data)\<close>, before \<open>sem_write_.wait()\<close>\<close>
  | Producing "byte list" nat      \<comment> \<open>\<open>k\<close> bytes assigned\<close>
  | ConsumeWait                    \<comment> \<open>in \<open>consume\<close>, before \<open>sem_read_.wait()\<close>\<close>
  | Consuming "byte list"          \<comment> \<open>the bytes the consumer has read so far\<close>

text \<open>\<open>pc_produced\<close> and \<open>pc_consumed\<close> record the objects handed over, in the order of the posts.\<close>

record ('p, 'q) prodcons =
  pc_read :: 'q
  pc_write :: 'q
  pc_mem :: mem
  pc_at :: "'p \<Rightarrow> pc_pos"
  pc_produced :: "byte list list"
  pc_consumed :: "byte list list"

definition ProducerConsumer_new :: "'q sem_ops \<Rightarrow> mem \<Rightarrow> ('p, 'q) prodcons" where
  "ProducerConsumer_new ops m =
     \<lparr>pc_read = sem_new ops 0, pc_write = sem_new ops 1, pc_mem = m, pc_at = (\<lambda>_. Idle),
      pc_produced = [], pc_consumed = []\<rparr>"

datatype 'p pc_event =
    CallProduce 'p "byte list" | CallConsume 'p | PcStep 'p

definition move :: "'p \<Rightarrow> pc_pos \<Rightarrow> ('p, 'q) prodcons \<Rightarrow> ('p, 'q) prodcons" where
  "move p x s = s\<lparr>pc_at := (pc_at s)(p := x)\<rparr>"

text \<open>One atomic part of \<open>produce(data)\<close> for the process at \<open>ProduceWait\<close> or \<open>Producing\<close>.\<close>

definition produce_step :: "'q sem_ops \<Rightarrow> ctype \<Rightarrow> 'p \<Rightarrow> ('p, 'q) prodcons \<Rightarrow> ('p, 'q) prodcons option" where
  "produce_step ops T p s =
     (case pc_at s p of
        ProduceWait data \<Rightarrow>
          (case sem_wait ops (pc_write s) of
             None \<Rightarrow> None
           | Some q \<Rightarrow> Some (move p (Producing data 0) (s\<lparr>pc_write := q\<rparr>)))
      | Producing data k \<Rightarrow>
          if k < sizeof T then Some (move p (Producing data (Suc k)) (s\<lparr>pc_mem := (pc_mem s)(k := data ! k)\<rparr>))
          else Some (move p Idle (s\<lparr>pc_read := sem_post ops (pc_read s), pc_produced := pc_produced s @ [data]\<rparr>))
      | _ \<Rightarrow> None)"

definition consume_step :: "'q sem_ops \<Rightarrow> ctype \<Rightarrow> 'p \<Rightarrow> ('p, 'q) prodcons \<Rightarrow> ('p, 'q) prodcons option" where
  "consume_step ops T p s =
     (case pc_at s p of
        ConsumeWait \<Rightarrow>
          (case sem_wait ops (pc_read s) of
             None \<Rightarrow> None
           | Some q \<Rightarrow> Some (move p (Consuming []) (s\<lparr>pc_read := q\<rparr>)))
      | Consuming acc \<Rightarrow>
          if length acc < sizeof T then Some (move p (Consuming (acc @ [pc_mem s (length acc)])) s)
          else Some (move p Idle (s\<lparr>pc_write := sem_post ops (pc_write s), pc_consumed := pc_consumed s @ [acc]\<rparr>))
      | _ \<Rightarrow> None)"

fun ProducerConsumer_exec ::
    "'q sem_ops \<Rightarrow> ctype \<Rightarrow> 'p pc_event \<Rightarrow> ('p, 'q) prodcons \<Rightarrow> ('p, 'q) prodcons option" where
  "ProducerConsumer_exec ops T (CallProduce p data) s =
     (if pc_at s p = Idle \<and> length data = sizeof T then Some (move p (ProduceWait data) s) else None)"
| "ProducerConsumer_exec ops T (CallConsume p) s =
     (if pc_at s p = Idle then Some (move p ConsumeWait s) else None)"
| "ProducerConsumer_exec ops T (PcStep p) s =
     (case produce_step ops T p s of None \<Rightarrow> consume_step ops T p s | Some s' \<Rightarrow> Some s')"

text \<open>The \<open>consumer\<close> that \<open>consume\<close> calls may throw: the exception leaves \<open>consume\<close> before
  \<open>sem_write_.post()\<close>.\<close>

definition ProducerConsumer_consume_throws :: "'p \<Rightarrow> ('p, 'q) prodcons \<Rightarrow> ('p, 'q) prodcons option" where
  "ProducerConsumer_consume_throws p s =
     (case pc_at s p of Consuming acc \<Rightarrow> Some (move p Idle s) | _ \<Rightarrow> None)"

fun pc_run :: "'q sem_ops \<Rightarrow> ctype \<Rightarrow> 'p pc_event list \<Rightarrow> ('p, 'q) prodcons \<Rightarrow> ('p, 'q) prodcons option" where
  "pc_run ops T [] s = Some s"
| "pc_run ops T (e # es) s = (case ProducerConsumer_exec ops T e s of None \<Rightarrow> None | Some s' \<Rightarrow> pc_run ops T es s')"

inductive pc_reachable :: "'q sem_ops \<Rightarrow> ctype \<Rightarrow> mem \<Rightarrow> ('p, 'q) prodcons \<Rightarrow> bool" for ops T m where
  init: "pc_reachable ops T m (ProducerConsumer_new ops m)"
| step: "pc_reachable ops T m s \<Longrightarrow> ProducerConsumer_exec ops T e s = Some s' \<Longrightarrow> pc_reachable ops T m s'"

section \<open>Invariant\<close>

fun inside :: "pc_pos \<Rightarrow> bool" where
  "inside (Producing d k) = True"
| "inside (Consuming acc) = True"
| "inside _ = False"

text \<open>What is in the object, and how the two histories relate, in each phase.\<close>

definition pc_handed :: "ctype \<Rightarrow> ('p, 'q) prodcons \<Rightarrow> bool" where
  "pc_handed T s \<longleftrightarrow> (\<exists>d. pc_produced s = pc_consumed s @ [d] \<and> SharedMemory_get T (pc_mem s) = d \<and> length d = sizeof T)"

fun pos_inv :: "ctype \<Rightarrow> ('p, 'q) prodcons \<Rightarrow> pc_pos \<Rightarrow> bool" where
  "pos_inv T s (ProduceWait d) = (length d = sizeof T)"
| "pos_inv T s (Producing d k) =
     (length d = sizeof T \<and> k \<le> sizeof T \<and> (\<forall>i < k. pc_mem s i = d ! i) \<and> pc_produced s = pc_consumed s)"
| "pos_inv T s (Consuming acc) =
     (pc_handed T s \<and> length acc \<le> sizeof T \<and> acc = take (length acc) (SharedMemory_get T (pc_mem s)))"
| "pos_inv T s _ = True"

text \<open>There is one token: in one of the semaphores or with the one process inside.\<close>

definition pc_inv :: "ctype \<Rightarrow> ('q \<Rightarrow> nat) \<Rightarrow> ('p, 'q) prodcons \<Rightarrow> bool" where
  "pc_inv T cnt s \<longleftrightarrow> (\<forall>p. pos_inv T s (pc_at s p)) \<and>
     (cnt (pc_read s) = 1 \<and> cnt (pc_write s) = 0 \<and> (\<forall>p. \<not> inside (pc_at s p)) \<and> pc_handed T s \<or>
      cnt (pc_read s) = 0 \<and> cnt (pc_write s) = 1 \<and> (\<forall>p. \<not> inside (pc_at s p)) \<and> pc_produced s = pc_consumed s \<or>
      cnt (pc_read s) = 0 \<and> cnt (pc_write s) = 0 \<and> (\<exists>p. inside (pc_at s p)) \<and>
        (\<forall>p q. inside (pc_at s p) \<longrightarrow> inside (pc_at s q) \<longrightarrow> p = q))"

lemma pos_inv_outside: "\<not> inside x \<Longrightarrow> pos_inv T s x = pos_inv T s' x"
  by (cases x) auto

lemma pos_inv_same:
  "pc_mem s' = pc_mem s \<Longrightarrow> pc_produced s' = pc_produced s \<Longrightarrow> pc_consumed s' = pc_consumed s \<Longrightarrow>
     pos_inv T s' x = pos_inv T s x"
  by (cases x) (auto simp: pc_handed_def)

lemma move_fields [simp]:
  "pc_read (move p x s) = pc_read s" "pc_write (move p x s) = pc_write s" "pc_mem (move p x s) = pc_mem s"
  "pc_produced (move p x s) = pc_produced s" "pc_consumed (move p x s) = pc_consumed s"
  "pc_at (move p x s) = (pc_at s)(p := x)"
  by (simp_all add: move_def)

lemma pc_handed_move [simp]: "pc_handed T (move p x s) = pc_handed T s"
  by (simp add: pc_handed_def)

text \<open>A process outside goes to another position outside.\<close>

lemma pc_inv_call:
  assumes "pc_inv T cnt s" and "\<not> inside (pc_at s p)" and "\<not> inside x" and "pos_inv T s x"
  shows "pc_inv T cnt (move p x s)"
proof -
  have eq: "inside (pc_at (move p x s) q) \<longleftrightarrow> inside (pc_at s q)" for q
    using assms(2,3) by simp
  have "pos_inv T (move p x s) (pc_at (move p x s) q)" for q
    using assms(1,4) pos_inv_same [of "move p x s" s] by (cases "q = p") (auto simp: pc_inv_def)
  then show ?thesis using assms(1) unfolding pc_inv_def eq by auto
qed

text \<open>A process takes the token out of a semaphore: nobody was inside, now it is.\<close>

lemma pc_inv_enter:
  assumes "pc_inv T cnt s" and out: "\<forall>q. \<not> inside (pc_at s q)" and "inside x" and "pos_inv T s x"
    and "s' = move p x (s\<lparr>pc_read := r, pc_write := w\<rparr>)" and "cnt r = 0" "cnt w = 0"
  shows "pc_inv T cnt s'"
proof -
  have "inside (pc_at s' q) \<longleftrightarrow> q = p" for q using out assms(3,5) by simp
  moreover have "pos_inv T s' (pc_at s' q)" for q
    using assms(1,4,5) pos_inv_same [of s' s] by (cases "q = p") (auto simp: pc_inv_def)
  ultimately show ?thesis using assms(5-7) by (auto simp: pc_inv_def)
qed

text \<open>The process inside changes the object or its own progress and stays inside.\<close>

lemma pc_inv_stay:
  assumes "pc_inv T cnt s" and p: "inside (pc_at s p)" and "inside x"
    and s': "s' = move p x (s\<lparr>pc_mem := m\<rparr>)" and "pos_inv T s' x"
  shows "pc_inv T cnt s'"
proof -
  have cnt: "cnt (pc_read s) = 0" "cnt (pc_write s) = 0"
    and only: "inside (pc_at s q) \<Longrightarrow> q = p" for q
    using assms(1) p by (auto simp: pc_inv_def)
  have "inside (pc_at s' q) \<longleftrightarrow> q = p" for q using only assms(3) by (auto simp: s')
  moreover have "pos_inv T s' (pc_at s' q)" for q
  proof (cases "q = p")
    case False
    then have "\<not> inside (pc_at s q)" using only by auto
    moreover have "pos_inv T s (pc_at s q)" using assms(1) by (simp add: pc_inv_def)
    ultimately show ?thesis using False pos_inv_outside [of "pc_at s q" T s' s] by (simp add: s')
  qed (use assms(5) in \<open>simp add: s'\<close>)
  ultimately show ?thesis using cnt by (auto simp: pc_inv_def s')
qed

text \<open>The process inside leaves and puts the token into the other semaphore.\<close>

lemma pc_inv_leave:
  assumes "pc_inv T cnt s" and p: "inside (pc_at s p)"
    and s': "s' = move p Idle (s\<lparr>pc_read := r, pc_write := w, pc_produced := pr, pc_consumed := co\<rparr>)"
    and "cnt r = 1 \<and> cnt w = 0 \<and> pc_handed T s' \<or> cnt r = 0 \<and> cnt w = 1 \<and> pr = co"
  shows "pc_inv T cnt s'"
proof -
  have only: "inside (pc_at s q) \<Longrightarrow> q = p" for q
    using assms(1) p by (auto simp: pc_inv_def)
  then have "\<not> inside (pc_at s' q)" for q by (auto simp: s')
  moreover have "pos_inv T s' (pc_at s' q)" for q
  proof (cases "q = p")
    case False
    then have "\<not> inside (pc_at s q)" using only by auto
    moreover have "pos_inv T s (pc_at s q)" using assms(1) by (simp add: pc_inv_def)
    ultimately show ?thesis using False pos_inv_outside [of "pc_at s q" T s' s] by (simp add: s')
  qed (simp add: s')
  ultimately show ?thesis using assms(4) by (auto simp: pc_inv_def s')
qed

lemma pc_inv_inside_counts:
  "pc_inv T cnt s \<Longrightarrow> inside (pc_at s p) \<Longrightarrow> cnt (pc_read s) = 0 \<and> cnt (pc_write s) = 0"
  by (auto simp: pc_inv_def)

lemma pc_inv_produce:
  assumes spec: "sem_spec ops cnt" and inv: "pc_inv T cnt s" and ex: "produce_step ops T p s = Some s'"
  shows "pc_inv T cnt s'"
proof (cases "pc_at s p")
  case (ProduceWait d)
  with ex obtain q where q: "sem_wait ops (pc_write s) = Some q" "s' = move p (Producing d 0) (s\<lparr>pc_write := q\<rparr>)"
    by (auto simp: produce_step_def split: option.splits)
  then have "cnt (pc_write s) = Suc (cnt q)" using spec by (auto simp: sem_spec_def)
  then have now: "cnt (pc_read s) = 0" "cnt q = 0" "\<forall>p. \<not> inside (pc_at s p)" "pc_produced s = pc_consumed s"
    using inv by (auto simp: pc_inv_def)
  have "length d = sizeof T" using inv ProduceWait by (metis pc_inv_def pos_inv.simps(1))
  with now show ?thesis
    by (intro pc_inv_enter [OF inv now(3), where x = "Producing d 0" and p = p and r = "pc_read s" and w = q]) (simp_all add: q(2) move_def)
next
  case (Producing d k)
  have pos: "pos_inv T s (Producing d k)" using inv Producing by (metis pc_inv_def)
  show ?thesis
  proof (cases "k < sizeof T")
    case True
    with ex Producing have s': "s' = move p (Producing d (Suc k)) (s\<lparr>pc_mem := (pc_mem s)(k := d ! k)\<rparr>)"
      by (simp add: produce_step_def)
    with True pos Producing show ?thesis
      by (intro pc_inv_stay [OF inv _ _ s']) (auto simp: less_Suc_eq)
  next
    case False
    with ex Producing have s': "s' = move p Idle (s\<lparr>pc_read := sem_post ops (pc_read s), pc_write := pc_write s,
        pc_produced := pc_produced s @ [d], pc_consumed := pc_consumed s\<rparr>)"
      by (simp add: produce_step_def move_def)
    have "SharedMemory_get T (pc_mem s) = d" using False pos by (intro bytes_complete) auto
    then have "pc_handed T s'" using pos by (simp add: s' pc_handed_def)
    moreover have "cnt (sem_post ops (pc_read s)) = 1" "cnt (pc_write s) = 0"
      using pc_inv_inside_counts [OF inv, of p] spec Producing by (auto simp: sem_spec_def)
    ultimately show ?thesis using Producing by (intro pc_inv_leave [OF inv _ s']) auto
  qed
qed (use ex in \<open>auto simp: produce_step_def\<close>)

lemma pc_inv_consume:
  assumes spec: "sem_spec ops cnt" and inv: "pc_inv T cnt s" and ex: "consume_step ops T p s = Some s'"
  shows "pc_inv T cnt s'"
proof (cases "pc_at s p")
  case ConsumeWait
  with ex obtain q where q: "sem_wait ops (pc_read s) = Some q" "s' = move p (Consuming []) (s\<lparr>pc_read := q\<rparr>)"
    by (auto simp: consume_step_def split: option.splits)
  then have "cnt (pc_read s) = Suc (cnt q)" using spec by (auto simp: sem_spec_def)
  then have now: "cnt (pc_write s) = 0" "cnt q = 0" "\<forall>p. \<not> inside (pc_at s p)" "pc_handed T s"
    using inv by (auto simp: pc_inv_def)
  then show ?thesis
    by (intro pc_inv_enter [OF inv now(3), where x = "Consuming []" and p = p and r = q and w = "pc_write s"]) (simp_all add: q(2) move_def)
next
  case (Consuming acc)
  have pos: "pos_inv T s (Consuming acc)" using inv Consuming by (metis pc_inv_def)
  show ?thesis
  proof (cases "length acc < sizeof T")
    case True
    with ex Consuming have s': "s' = move p (Consuming (acc @ [pc_mem s (length acc)])) (s\<lparr>pc_mem := pc_mem s\<rparr>)"
      by (simp add: consume_step_def move_def)
    have "acc @ [pc_mem s (length acc)] = take (Suc (length acc)) (SharedMemory_get T (pc_mem s))"
      using True pos by (simp add: take_Suc_conv_app_nth SharedMemory_get_def)
    with True pos Consuming show ?thesis
      by (intro pc_inv_stay [OF inv _ _ s']) (auto simp: s' pc_handed_def)
  next
    case False
    with ex Consuming have s': "s' = move p Idle (s\<lparr>pc_read := pc_read s, pc_write := sem_post ops (pc_write s),
        pc_produced := pc_produced s, pc_consumed := pc_consumed s @ [acc]\<rparr>)"
      by (simp add: consume_step_def move_def)
    have "acc = SharedMemory_get T (pc_mem s)" using False pos by (auto simp: pc_handed_def)
    then have "pc_produced s = pc_consumed s @ [acc]" using pos by (auto simp: pc_handed_def)
    moreover have "cnt (sem_post ops (pc_write s)) = 1" "cnt (pc_read s) = 0"
      using pc_inv_inside_counts [OF inv, of p] spec Consuming by (auto simp: sem_spec_def)
    ultimately show ?thesis using Consuming by (intro pc_inv_leave [OF inv _ s']) auto
  qed
qed (use ex in \<open>auto simp: consume_step_def\<close>)

lemma pc_inv_reachable:
  assumes "sem_spec ops cnt" and "pc_reachable ops T m s"
  shows "pc_inv T cnt s"
  using assms(2)
proof (induction rule: pc_reachable.induct)
  case init
  show ?case using assms(1) by (auto simp: pc_inv_def ProducerConsumer_new_def sem_spec_def)
next
  case (step s e s')
  then show ?case
    using pc_inv_call [of T cnt s] pc_inv_produce [OF assms(1)] pc_inv_consume [OF assms(1)]
    by (cases e) (auto split: if_splits option.splits)
qed

lemma pc_inv_fifo:
  assumes inv: "pc_inv T cnt s"
  shows "pc_produced s = pc_consumed s \<or> (\<exists>d. pc_produced s = pc_consumed s @ [d])"
proof (cases "\<exists>p. inside (pc_at s p)")
  case True
  then obtain p where p: "inside (pc_at s p)" by blast
  have "pos_inv T s (pc_at s p)" using inv by (simp add: pc_inv_def)
  with p show ?thesis by (cases "pc_at s p") (auto simp: pc_handed_def)
next
  case False
  with inv show ?thesis by (auto simp: pc_inv_def pc_handed_def)
qed

section \<open>Properties\<close>

text \<open>
  C34. Hand-over with any number of producers and consumers, on semaphores that count: consumers
  receive complete, unmixed objects, each produced object exactly once and in the order of
  production, and at most one object is on the way; never are two processes inside the object at
  once.
\<close>

theorem producer_consumer_fifo:
  assumes "sem_spec ops cnt" and "pc_reachable ops T m s"
  shows "(pc_produced s = pc_consumed s \<or> (\<exists>d. pc_produced s = pc_consumed s @ [d])) \<and>
         (inside (pc_at s p) \<and> inside (pc_at s q) \<longrightarrow> p = q) \<and>
         (cnt (pc_read s) = 1 \<longrightarrow> SharedMemory_get T (pc_mem s) = last (pc_produced s))"
proof -
  note inv = pc_inv_reachable [OF assms]
  have "pc_produced s = pc_consumed s \<or> (\<exists>d. pc_produced s = pc_consumed s @ [d])"
    using inv by (rule pc_inv_fifo)
  moreover have "SharedMemory_get T (pc_mem s) = last (pc_produced s)" if "cnt (pc_read s) = 1"
    using inv that by (auto simp: pc_inv_def pc_handed_def)
  moreover have "p = q" if "inside (pc_at s p)" "inside (pc_at s q)"
    using inv that by (auto simp: pc_inv_def)
  ultimately show ?thesis by blast
qed

section \<open>A consumer that throws\<close>

text \<open>The token is lost: both semaphores are empty and nobody is inside who would post one.\<close>

definition pc_stuck :: "('q \<Rightarrow> nat) \<Rightarrow> ('p, 'q) prodcons \<Rightarrow> bool" where
  "pc_stuck cnt s \<longleftrightarrow> cnt (pc_read s) = 0 \<and> cnt (pc_write s) = 0 \<and> (\<forall>p. \<not> inside (pc_at s p))"

lemma pc_stuck_exec:
  assumes "sem_spec ops cnt" and "pc_stuck cnt s" and "ProducerConsumer_exec ops T e s = Some s'"
  shows "pc_stuck cnt s' \<and> pc_produced s' = pc_produced s \<and> pc_consumed s' = pc_consumed s"
proof (cases e)
  case (PcStep p)
  have "sem_wait ops (pc_write s) = None" "sem_wait ops (pc_read s) = None"
    using assms(1,2) by (auto simp: sem_spec_def pc_stuck_def)
  moreover have "\<not> inside (pc_at s p)" using assms(2) by (simp add: pc_stuck_def)
  ultimately show ?thesis
    using assms(3) PcStep by (cases "pc_at s p") (auto simp: produce_step_def consume_step_def)
qed (use assms in \<open>auto simp: pc_stuck_def split: if_splits\<close>)

lemma pc_stuck_run:
  "sem_spec ops cnt \<Longrightarrow> pc_stuck cnt s \<Longrightarrow> pc_run ops T es s = Some s' \<Longrightarrow>
     pc_stuck cnt s' \<and> pc_produced s' = pc_produced s \<and> pc_consumed s' = pc_consumed s"
proof (induction es arbitrary: s)
  case (Cons e es)
  then obtain s1 where s1: "ProducerConsumer_exec ops T e s = Some s1" "pc_run ops T es s1 = Some s'"
    by (auto split: option.splits)
  with pc_stuck_exec [OF Cons.prems(1,2) s1(1)] Cons.IH [OF Cons.prems(1) _ s1(2)] show ?case by simp
qed simp

text \<open>
  A consumer that throws stops the hand-over for good: the exception skips the post of
  \<open>sem_write_\<close>, so the token is gone, and in no continuation, with any number of producers and
  consumers, is an object ever produced or consumed again.
\<close>

theorem consumer_throw_blocks:
  assumes "sem_spec ops cnt" and "pc_reachable ops T m s" and "ProducerConsumer_consume_throws p s = Some s1"
    and "pc_run ops T es s1 = Some s2"
  shows "cnt (pc_read s2) = 0 \<and> cnt (pc_write s2) = 0 \<and> \<not> inside (pc_at s2 q) \<and>
         pc_produced s2 = pc_produced s \<and> pc_consumed s2 = pc_consumed s"
proof -
  from assms(3) obtain acc where acc: "pc_at s p = Consuming acc" and s1: "s1 = move p Idle s"
    by (auto simp: ProducerConsumer_consume_throws_def split: pc_pos.splits)
  have inv: "pc_inv T cnt s" using pc_inv_reachable [OF assms(1,2)] .
  with acc have "inside (pc_at s p)" by simp
  then have "pc_stuck cnt s1"
    using inv pc_inv_inside_counts [OF inv] by (auto simp: pc_stuck_def pc_inv_def s1)
  from pc_stuck_run [OF assms(1) this assms(4)] show ?thesis by (simp add: pc_stuck_def s1)
qed

section \<open>Witnesses\<close>

definition nat_sem :: "nat sem_ops" where
  "nat_sem = \<lparr>sem_new = id, sem_wait = (\<lambda>n. if n = 0 then None else Some (n - 1)), sem_post = Suc\<rparr>"

lemma nat_sem_spec: "sem_spec nat_sem id"
  by (auto simp: sem_spec_def nat_sem_def split: if_splits)

lemma pc_run_reachable: "pc_reachable ops T m s \<Longrightarrow> pc_run ops T es s = Some s' \<Longrightarrow> pc_reachable ops T m s'"
  by (induction es arbitrary: s) (auto split: option.splits intro: pc_reachable.step)

definition pc_demo :: "nat pc_event list" where
  "pc_demo = [CallConsume 1, CallProduce 0 [7], PcStep 0, PcStep 0, PcStep 0, PcStep 1, PcStep 1, PcStep 1,
     CallProduce 0 [9], PcStep 0, PcStep 0, PcStep 0]"

theorem producer_consumer_fifo_witness:
  "\<exists>s. pc_run nat_sem (flat 1 1) pc_demo (ProducerConsumer_new nat_sem zero_mem) = Some s \<and>
     pc_consumed s = [[7]] \<and> SharedMemory_get (flat 1 1) (pc_mem s) = [9]"
proof -
  obtain s where s: "pc_run nat_sem (flat 1 1) pc_demo (ProducerConsumer_new nat_sem zero_mem) = Some s"
      "pc_consumed s = [[7]]" "pc_produced s = [[7], [9]]" "pc_read s = 1"
    by (simp add: pc_demo_def nat_sem_def ProducerConsumer_new_def produce_step_def consume_step_def)
  have "pc_reachable nat_sem (flat 1 1) zero_mem s"
    using pc_run_reachable [OF pc_reachable.init s(1)] .
  from producer_consumer_fifo [OF nat_sem_spec this] s show ?thesis by simp
qed

text \<open>A consumer throws on the first object; a second producer then waits in vain.\<close>

theorem consumer_throw_blocks_witness:
  "\<exists>s s1 s2. pc_run nat_sem (flat 1 1) [CallProduce 0 [7], PcStep 0, PcStep 0, PcStep 0, CallConsume 1, PcStep 1]
       (ProducerConsumer_new nat_sem zero_mem) = Some s \<and>
     ProducerConsumer_consume_throws 1 s = Some s1 \<and>
     pc_run nat_sem (flat 1 1) [CallProduce (0 :: nat) [9]] s1 = Some s2 \<and> pc_write s2 = 0 \<and> pc_produced s2 = [[7]]"
proof -
  obtain s where s: "pc_run nat_sem (flat 1 1) [CallProduce (0 :: nat) [7], PcStep 0, PcStep 0, PcStep 0, CallConsume 1, PcStep 1]
       (ProducerConsumer_new nat_sem zero_mem) = Some s" "pc_at s 1 = Consuming []" "pc_at s 0 = Idle" "pc_produced s = [[7]]"
    by (simp add: nat_sem_def ProducerConsumer_new_def produce_step_def consume_step_def)
  then have s1: "ProducerConsumer_consume_throws 1 s = Some (move 1 Idle s)"
      and s2: "pc_run nat_sem (flat 1 1) [CallProduce 0 [9]] (move 1 Idle s) = Some (move 0 (ProduceWait [9]) (move 1 Idle s))"
    by (simp_all add: ProducerConsumer_consume_throws_def)
  have "pc_reachable nat_sem (flat 1 1) zero_mem s"
    using pc_run_reachable [OF pc_reachable.init s(1)] .
  from consumer_throw_blocks [OF nat_sem_spec this s1 s2] s s1 s2 show ?thesis by (simp del: pc_run.simps)
qed

end
