(* ===== verification/Swap_Runner.thy ===== *)
theory Swap_Runner
  imports Prelude
begin

text \<open>
  \<^verbatim>\<open>swap_runner.hpp\<close>: a background thread that runs a task each time it is triggered. The two
  32-bit flags \<open>triggered_\<close> and \<open>idle_\<close>, the stop token and the position of the thread in
  \<open>run()\<close> are the state; one step of the thread is one statement of \<open>run()\<close>, and the methods
  called from other threads are cut at their atomic stores. \<open>wait(0)\<close> on an atomic blocks while the
  flag is 0, so the step does not exist there. The task is a parameter over the state of its owner:
  it returns, throws, or aborts the program (a failed assertion).
\<close>

section \<open>State\<close>

datatype 's task_result = TaskReturns 's | TaskThrows 's | TaskAborts

datatype run_pc =
    RunLoop      \<comment> \<open>\<open>while (!st.stop_requested())\<close>\<close>
  | RunWait      \<comment> \<open>\<open>triggered_.wait(0)\<close>\<close>
  | RunCheck     \<comment> \<open>\<open>if (st.stop_requested()) break\<close>\<close>
  | RunClear     \<comment> \<open>\<open>triggered_.store(0)\<close>\<close>
  | RunTask      \<comment> \<open>\<open>task_()\<close> with its handler\<close>
  | RunIdle      \<comment> \<open>\<open>idle_.store(1)\<close> in the loop\<close>
  | RunExit      \<comment> \<open>\<open>idle_.store(1)\<close> after the loop\<close>
  | RunDone
  | RunAborted

record 's runner =
  triggered :: u32
  idle :: u32
  stopped :: bool
  run_pc :: run_pc
  owner :: 's
  run_log :: "string list"

definition SwapRunner_new :: "'s \<Rightarrow> 's runner" where
  "SwapRunner_new st = \<lparr>triggered = 0, idle = 1, stopped = False, run_pc = RunLoop, owner = st, run_log = []\<rparr>"

section \<open>Methods\<close>

definition trigger_idle :: "'s runner \<Rightarrow> 's runner" where
  "trigger_idle r = r\<lparr>idle := 0\<rparr>"

definition trigger_set :: "'s runner \<Rightarrow> 's runner" where
  "trigger_set r = r\<lparr>triggered := 1\<rparr>"

definition SwapRunner_trigger :: "'s runner \<Rightarrow> 's runner" where
  "SwapRunner_trigger r = trigger_set (trigger_idle r)"

text \<open>Whether a call of \<open>wait()\<close> may return now.\<close>

definition SwapRunner_wait_returns :: "'s runner \<Rightarrow> bool" where
  "SwapRunner_wait_returns r \<longleftrightarrow> idle r \<noteq> 0"

text \<open>\<open>request_stop()\<close> of the thread's destructor, with the stop callback of \<open>run()\<close>.\<close>

definition SwapRunner_request_stop :: "'s runner \<Rightarrow> 's runner" where
  "SwapRunner_request_stop r = r\<lparr>stopped := True, triggered := 1\<rparr>"

definition task_threw_msg :: string where
  "task_threw_msg = ''SwapRunner: task threw exception'' @ [CHR 0x0A]"

text \<open>One statement of \<open>run()\<close>; \<open>None\<close> when the thread is blocked or has ended.\<close>

definition SwapRunner_run :: "('s \<Rightarrow> 's task_result) \<Rightarrow> 's runner \<Rightarrow> 's runner option" where
  "SwapRunner_run task r =
     (case run_pc r of
        RunLoop \<Rightarrow> Some (r\<lparr>run_pc := if \<not> stopped r then RunWait else RunExit\<rparr>)
      | RunWait \<Rightarrow> if triggered r = 0 then None else Some (r\<lparr>run_pc := RunCheck\<rparr>)
      | RunCheck \<Rightarrow> Some (r\<lparr>run_pc := if stopped r then RunExit else RunClear\<rparr>)
      | RunClear \<Rightarrow> Some (r\<lparr>triggered := 0, run_pc := RunTask\<rparr>)
      | RunTask \<Rightarrow>
          Some (case task (owner r) of
                  TaskReturns st \<Rightarrow> r\<lparr>owner := st, run_pc := RunIdle\<rparr>
                | TaskThrows st \<Rightarrow>
                    r\<lparr>owner := st, run_log := run_log r @ [task_threw_msg],
                      run_pc := RunIdle\<rparr>
                | TaskAborts \<Rightarrow> r\<lparr>run_pc := RunAborted\<rparr>)
      | RunIdle \<Rightarrow> Some (r\<lparr>idle := 1, run_pc := RunLoop\<rparr>)
      | RunExit \<Rightarrow> Some (r\<lparr>idle := 1, run_pc := RunDone\<rparr>)
      | RunDone \<Rightarrow> None
      | RunAborted \<Rightarrow> None)"

text \<open>The thread alone for at most \<open>n\<close> statements.\<close>

fun run_steps :: "('s \<Rightarrow> 's task_result) \<Rightarrow> nat \<Rightarrow> 's runner \<Rightarrow> 's runner" where
  "run_steps task 0 r = r"
| "run_steps task (Suc n) r = (case SwapRunner_run task r of None \<Rightarrow> r | Some r' \<Rightarrow> run_steps task n r')"

text \<open>A run of the thread and of its users.\<close>

datatype run_event = RunStep | TriggerIdle | TriggerSet | RequestStop

fun runner_exec :: "('s \<Rightarrow> 's task_result) \<Rightarrow> run_event \<Rightarrow> 's runner \<Rightarrow> 's runner option" where
  "runner_exec task RunStep r = SwapRunner_run task r"
| "runner_exec task TriggerIdle r = Some (trigger_idle r)"
| "runner_exec task TriggerSet r = Some (trigger_set r)"
| "runner_exec task RequestStop r = Some (SwapRunner_request_stop r)"

inductive runner_reachable :: "('s \<Rightarrow> 's task_result) \<Rightarrow> 's \<Rightarrow> 's runner \<Rightarrow> bool" for task st where
  init: "runner_reachable task st (SwapRunner_new st)"
| step: "runner_reachable task st r \<Longrightarrow> runner_exec task e r = Some r' \<Longrightarrow> runner_reachable task st r'"

section \<open>Lemmas\<close>

definition task_owner :: "('s \<Rightarrow> 's task_result) \<Rightarrow> 's \<Rightarrow> 's" where
  "task_owner task st = (case task st of TaskReturns x \<Rightarrow> x | TaskThrows x \<Rightarrow> x | TaskAborts \<Rightarrow> st)"

definition aborts :: "('s \<Rightarrow> 's task_result) \<Rightarrow> 's \<Rightarrow> bool" where
  "aborts task st \<longleftrightarrow> (case task st of TaskAborts \<Rightarrow> True | _ \<Rightarrow> False)"

lemma runner_stop_inv: "runner_reachable task st r \<Longrightarrow> stopped r \<Longrightarrow>
    triggered r = 1 \<or> run_pc r \<in> {RunTask, RunIdle, RunLoop, RunExit, RunDone, RunAborted}"
proof (induction rule: runner_reachable.induct)
  case (step r e r')
  then show ?case
    by (cases e) (auto simp: SwapRunner_run_def SwapRunner_request_stop_def trigger_idle_def trigger_set_def
        split: run_pc.splits if_splits task_result.splits)
qed (simp add: SwapRunner_new_def)

lemma run_steps_add: "run_steps task (m + n) r = run_steps task n (run_steps task m r)"
proof (induction m arbitrary: r)
  case (Suc m)
  show ?case
  proof (cases "SwapRunner_run task r")
    case None
    then have "run_steps task n r = r" by (cases n) simp_all
    with None show ?thesis by simp
  qed (use Suc in simp)
qed simp

lemma run_steps_stopped: "stopped (run_steps task n r) = stopped r"
proof (induction n arbitrary: r)
  case (Suc n)
  then show ?case
    by (auto simp: SwapRunner_run_def split: option.splits run_pc.splits task_result.splits if_splits)
qed simp

lemma run_steps_blocked: "SwapRunner_run task r = None \<Longrightarrow> run_steps task n r = r"
  by (cases n) simp_all

lemma triggered_run:
  assumes "run_pc r = RunWait" and "triggered r = 0" and "\<not> stopped r" and "\<not> aborts task (owner r)"
  shows "\<exists>lg. run_steps task 1 (SwapRunner_trigger r) = r\<lparr>idle := 0, triggered := 1, run_pc := RunCheck\<rparr> \<and>
      run_steps task 2 (SwapRunner_trigger r) = r\<lparr>idle := 0, triggered := 1, run_pc := RunClear\<rparr> \<and>
      run_steps task 3 (SwapRunner_trigger r) = r\<lparr>idle := 0, triggered := 0, run_pc := RunTask\<rparr> \<and>
      run_steps task 4 (SwapRunner_trigger r)
         = r\<lparr>idle := 0, triggered := 0, run_pc := RunIdle, owner := task_owner task (owner r), run_log := lg\<rparr> \<and>
      run_steps task 5 (SwapRunner_trigger r)
         = r\<lparr>idle := 1, triggered := 0, run_pc := RunLoop, owner := task_owner task (owner r), run_log := lg\<rparr>"
proof -
  let ?t = "SwapRunner_trigger r"
  have 1: "run_steps task 1 ?t = r\<lparr>idle := 0, triggered := 1, run_pc := RunCheck\<rparr>"
    using assms(1) by (simp add: SwapRunner_run_def SwapRunner_trigger_def trigger_idle_def trigger_set_def)
  have 2: "run_steps task 2 ?t = r\<lparr>idle := 0, triggered := 1, run_pc := RunClear\<rparr>"
    using run_steps_add [of task 1 1 ?t] 1 assms(3) by (simp add: SwapRunner_run_def numeral_2_eq_2)
  have 3: "run_steps task 3 ?t = r\<lparr>idle := 0, triggered := 0, run_pc := RunTask\<rparr>"
    using run_steps_add [of task 2 1 ?t] 2 by (simp add: SwapRunner_run_def)
  obtain lg where 4: "run_steps task 4 ?t
      = r\<lparr>idle := 0, triggered := 0, run_pc := RunIdle, owner := task_owner task (owner r), run_log := lg\<rparr>"
  proof (cases "task (owner r)")
    case (TaskReturns x)
    then show ?thesis
      using run_steps_add [of task 3 1 ?t] 3
      by (intro that [of "run_log r"]) (simp add: SwapRunner_run_def task_owner_def)
  next
    case (TaskThrows x)
    then show ?thesis
      using run_steps_add [of task 3 1 ?t] 3
      by (intro that [of "run_log r @ [task_threw_msg]"]) (simp add: SwapRunner_run_def task_owner_def)
  qed (use assms(4) in \<open>simp add: aborts_def\<close>)
  have 5: "run_steps task 5 ?t
      = r\<lparr>idle := 1, triggered := 0, run_pc := RunLoop, owner := task_owner task (owner r), run_log := lg\<rparr>"
    using run_steps_add [of task 4 1 ?t] 4 by (simp add: SwapRunner_run_def)
  show ?thesis using 1 2 3 4 5 by blast
qed

text \<open>The way out of the loop, statement by statement, once a stop has been requested.\<close>

definition ended :: "'s runner \<Rightarrow> bool" where
  "ended r \<longleftrightarrow> run_pc r = RunDone \<and> idle r = 1"

lemma run_steps_Suc: "SwapRunner_run task r = Some r' \<Longrightarrow> run_steps task (Suc n) r = run_steps task n r'"
  by simp

lemma ended_exit: "run_pc r = RunExit \<Longrightarrow> ended (run_steps task (Suc n) r)"
  by (simp add: SwapRunner_run_def run_steps_blocked ended_def)

lemma ended_after:
  "SwapRunner_run task r = Some r' \<Longrightarrow> ended (run_steps task n r') \<Longrightarrow> ended (run_steps task (Suc n) r)"
  by simp

lemma ended_loop: "run_pc r = RunLoop \<Longrightarrow> stopped r \<Longrightarrow> ended (run_steps task (Suc (Suc n)) r)"
  by (rule ended_after [of _ _ "r\<lparr>run_pc := RunExit\<rparr>"]) (simp add: SwapRunner_run_def, rule ended_exit, simp)

lemma ended_check: "run_pc r = RunCheck \<Longrightarrow> stopped r \<Longrightarrow> ended (run_steps task (Suc (Suc n)) r)"
  by (rule ended_after [of _ _ "r\<lparr>run_pc := RunExit\<rparr>"]) (simp add: SwapRunner_run_def, rule ended_exit, simp)

lemma ended_wait:
  "run_pc r = RunWait \<Longrightarrow> stopped r \<Longrightarrow> triggered r = 1 \<Longrightarrow> ended (run_steps task (Suc (Suc (Suc n))) r)"
  by (rule ended_after [of _ _ "r\<lparr>run_pc := RunCheck\<rparr>"]) (simp add: SwapRunner_run_def, rule ended_check, simp_all)

lemma ended_idle: "run_pc r = RunIdle \<Longrightarrow> stopped r \<Longrightarrow> ended (run_steps task (Suc (Suc (Suc n))) r)"
  by (rule ended_after [of _ _ "r\<lparr>idle := 1, run_pc := RunLoop\<rparr>"]) (simp add: SwapRunner_run_def, rule ended_loop, simp_all)

lemma ended_task:
  assumes "run_pc r = RunTask" and "stopped r" and "\<not> aborts task (owner r)"
  shows "ended (run_steps task (Suc (Suc (Suc (Suc n)))) r)"
proof -
  obtain r' where r': "SwapRunner_run task r = Some r'" "run_pc r' = RunIdle" "stopped r'"
    using assms by (cases "task (owner r)") (auto simp: SwapRunner_run_def aborts_def)
  from ended_after [OF r'(1) ended_idle [OF r'(2,3)]] show ?thesis .
qed

lemma ended_clear:
  "run_pc r = RunClear \<Longrightarrow> stopped r \<Longrightarrow> \<not> aborts task (owner r) \<Longrightarrow>
     ended (run_steps task (Suc (Suc (Suc (Suc (Suc n))))) r)"
  by (rule ended_after [of _ _ "r\<lparr>triggered := 0, run_pc := RunTask\<rparr>"])
    (simp add: SwapRunner_run_def, rule ended_task, simp_all)

lemma trigger_then_wait:
  assumes "run_pc r = RunWait" and "triggered r = 0" and "\<not> stopped r" and "\<not> aborts task (owner r)"
    and "r' = run_steps task n (SwapRunner_trigger r)"
  shows "(SwapRunner_wait_returns r' \<longrightarrow> owner r' = task_owner task (owner r)) \<and>
         (5 \<le> n \<longrightarrow> SwapRunner_wait_returns r' \<and> triggered r' = 0 \<and> run_pc r' \<in> {RunLoop, RunWait})"
proof -
  obtain lg where r: "run_steps task 1 (SwapRunner_trigger r) = r\<lparr>idle := 0, triggered := 1, run_pc := RunCheck\<rparr>"
      "run_steps task 2 (SwapRunner_trigger r) = r\<lparr>idle := 0, triggered := 1, run_pc := RunClear\<rparr>"
      "run_steps task 3 (SwapRunner_trigger r) = r\<lparr>idle := 0, triggered := 0, run_pc := RunTask\<rparr>"
      "run_steps task 4 (SwapRunner_trigger r)
         = r\<lparr>idle := 0, triggered := 0, run_pc := RunIdle, owner := task_owner task (owner r), run_log := lg\<rparr>"
      "run_steps task 5 (SwapRunner_trigger r)
         = r\<lparr>idle := 1, triggered := 0, run_pc := RunLoop, owner := task_owner task (owner r), run_log := lg\<rparr>"
    using triggered_run [OF assms(1-4)] by blast
  consider "n = 0" | "n = 1" | "n = 2" | "n = 3" | "n = 4" | "n = 5" | "5 < n"
    by linarith
  then show ?thesis
  proof cases
    case 7
    then obtain k where k: "n = 5 + Suc k" by (auto dest: less_imp_Suc_add)
    have "run_steps task n (SwapRunner_trigger r) = run_steps task (Suc k) (run_steps task 5 (SwapRunner_trigger r))"
      unfolding k by (rule run_steps_add)
    also have "\<dots> = r\<lparr>idle := 1, triggered := 0, run_pc := RunWait, owner := task_owner task (owner r), run_log := lg\<rparr>"
      using assms(3) by (simp add: r SwapRunner_run_def run_steps_blocked)
    finally show ?thesis by (simp add: assms(5) SwapRunner_wait_returns_def)
  next
    case 1
    then show ?thesis
      by (simp add: assms(5) SwapRunner_wait_returns_def SwapRunner_trigger_def trigger_idle_def trigger_set_def)
  qed (simp_all only: assms(5) r, simp_all add: SwapRunner_wait_returns_def)
qed

section \<open>Properties\<close>

text \<open>
  Shutdown: from every reachable state in which a stop has been requested, whatever the users
  did before, the thread comes to its end in at most five statements of its own, of which the task
  is at most one, and leaves \<open>idle_\<close> set, so that every pending \<open>wait()\<close> returns; unless the task
  aborts the program.
\<close>

theorem runner_shutdown:
  assumes "runner_reachable task st r" and "stopped r" and "\<not> aborts task (owner r)"
    and "run_pc r \<noteq> RunDone" and "run_pc r \<noteq> RunAborted"
  shows "run_pc (run_steps task 5 r) = RunDone \<and> SwapRunner_wait_returns (run_steps task 5 r)"
proof -
  have "ended (run_steps task (Suc (Suc (Suc (Suc (Suc 0))))) r)"
  proof (cases "run_pc r")
    case RunWait
    then have "triggered r = 1" using runner_stop_inv [OF assms(1,2)] by auto
    with RunWait assms(2) show ?thesis by (intro ended_wait)
  next
    case RunClear
    with assms(2,3) show ?thesis by (intro ended_clear)
  next
    case RunTask
    with assms(2,3) show ?thesis by (intro ended_task)
  next
    case RunLoop
    with assms(2) show ?thesis by (intro ended_loop)
  next
    case RunCheck
    with assms(2) show ?thesis by (intro ended_check)
  next
    case RunIdle
    with assms(2) show ?thesis by (intro ended_idle)
  next
    case RunExit
    then show ?thesis by (intro ended_exit)
  qed (use assms(4,5) in auto)
  then have "ended (run_steps task 5 r)" by (simp add: eval_nat_numeral del: run_steps.simps)
  then show ?thesis by (simp add: ended_def SwapRunner_wait_returns_def)
qed

text \<open>
  One trigger, one task: from a thread that waits with nothing pending, a \<open>trigger()\<close> that is
  not followed by another one lets \<open>wait()\<close> return only after the task has run to its end exactly
  once, whether it returned or threw, and \<open>wait()\<close> does return then; a thrown exception is logged
  and does not end the thread.
\<close>

theorem runner_trigger_wait:
  assumes "run_pc r = RunWait" and "triggered r = 0" and "\<not> stopped r" and "\<not> aborts task (owner r)"
    and "r' = run_steps task n (SwapRunner_trigger r)"
  shows "(SwapRunner_wait_returns r' \<longrightarrow> owner r' = task_owner task (owner r)) \<and>
         (5 \<le> n \<longrightarrow> SwapRunner_wait_returns r' \<and> triggered r' = 0 \<and> run_pc r' \<in> {RunLoop, RunWait})"
  using assms by (rule trigger_then_wait)

section \<open>Witnesses and a limit\<close>

fun runner_run :: "('s \<Rightarrow> 's task_result) \<Rightarrow> run_event list \<Rightarrow> 's runner \<Rightarrow> 's runner option" where
  "runner_run task [] r = Some r"
| "runner_run task (e # es) r = (case runner_exec task e r of None \<Rightarrow> None | Some r' \<Rightarrow> runner_run task es r')"

lemma runner_run_reachable:
  "runner_reachable task st r \<Longrightarrow> runner_run task es r = Some r' \<Longrightarrow> runner_reachable task st r'"
  by (induction es arbitrary: r) (auto split: option.splits intro: runner_reachable.step)

text \<open>A task that counts its runs.\<close>

definition count_task :: "nat \<Rightarrow> nat task_result" where
  "count_task n = TaskReturns (Suc n)"

lemma count_task_ok: "\<not> aborts count_task n" "task_owner count_task n = Suc n"
  by (simp_all add: aborts_def task_owner_def count_task_def)

lemmas runner_simps = SwapRunner_new_def SwapRunner_run_def trigger_idle_def trigger_set_def
  SwapRunner_request_stop_def SwapRunner_trigger_def count_task_def SwapRunner_wait_returns_def

text \<open>
  One outstanding request at a time is needed: a \<open>trigger()\<close> that arrives while the task of an earlier one is
  about to run is not waited for. Here \<open>wait()\<close> may return after the second \<open>trigger()\<close> although
  the task has run once only and the second request is still pending.
\<close>

theorem runner_wait_early:
  "\<exists>r. runner_run count_task [TriggerIdle, TriggerSet, RunStep, RunStep, RunStep, RunStep,
        TriggerIdle, TriggerSet, RunStep, RunStep] (SwapRunner_new 0) = Some r \<and>
     SwapRunner_wait_returns r \<and> owner r = 1 \<and> triggered r = 1"
  by (simp add: runner_simps)

theorem runner_shutdown_witness:
  "\<exists>r. runner_run count_task [RunStep, TriggerIdle, TriggerSet, RunStep, RunStep, RequestStop] (SwapRunner_new 0) = Some r \<and>
     run_pc (run_steps count_task 5 r) = RunDone"
proof -
  obtain r where r: "runner_run count_task [RunStep, TriggerIdle, TriggerSet, RunStep, RunStep, RequestStop] (SwapRunner_new 0) = Some r"
      "stopped r" "run_pc r = RunClear"
    by (simp add: runner_simps)
  have "runner_reachable count_task 0 r"
    using runner_run_reachable [OF runner_reachable.init r(1)] .
  from runner_shutdown [OF this r(2) count_task_ok(1)] r show ?thesis by auto
qed

theorem runner_trigger_wait_witness:
  "owner (run_steps count_task 5 (SwapRunner_trigger ((SwapRunner_new 0)\<lparr>run_pc := RunWait\<rparr>))) = 1"
  using runner_trigger_wait [of "(SwapRunner_new 0)\<lparr>run_pc := RunWait\<rparr>" count_task
      "run_steps count_task 5 (SwapRunner_trigger ((SwapRunner_new 0)\<lparr>run_pc := RunWait\<rparr>))" 5]
  by (simp add: SwapRunner_new_def count_task_ok)

end
