(* ===== verification/Double_Buffer.thy ===== *)
theory Double_Buffer
  imports Storage Swap_Runner
begin

text \<open>
  \<^verbatim>\<open>double_buffer_swapper.hpp\<close>, \<^verbatim>\<open>snapshot.hpp\<close>, \<^verbatim>\<open>dblbuf_loader.hpp\<close> and \<^verbatim>\<open>image_shm.hpp\<close>: a reader
  that copies the shared object into a private buffer on a background thread and hands out
  snapshots of it. Pointers are numbers with 0 the null pointer; \<open>objs\<close> holds the objects the
  pointers lead to, \<open>cells\<close> the pointers stored in memory (the target of \<open>active_buffer_\<close>). A failed
  \<open>assert\<close> is an error value.

  The task of the background thread runs between \<open>lock()\<close> and \<open>unlock()\<close> of the lock that every
  writer of the object takes, and is one step here; \<open>Loader_Machine\<close> cuts it into single accesses.
\<close>

section \<open>Swapper\<close>

type_synonym ptr = nat

text \<open>The assertions of the three headers.\<close>

datatype assertion =
    ActiveNull | PreNull | BufferNull | BufferActive | StageNull | PreIsStage
  | PreMisaligned | StageMisaligned | ShmNull | SnapshotNull

record heap =
  objs :: "ptr \<Rightarrow> byte list"
  cells :: "ptr \<Rightarrow> ptr"

record swapper =
  active_buffer :: ptr
  pre_allocated_buffer :: ptr
  stage_buffer :: ptr

definition DoubleBufferSwapper_new :: "ptr \<Rightarrow> ptr \<Rightarrow> assertion + swapper" where
  "DoubleBufferSwapper_new ab pre =
     (if ab = 0 then Inl ActiveNull
      else if pre = 0 then Inl PreNull
      else Inr \<lparr>active_buffer = ab, pre_allocated_buffer = pre, stage_buffer = 0\<rparr>)"

definition DoubleBufferSwapper_set_active :: "swapper \<Rightarrow> ptr \<Rightarrow> heap \<Rightarrow> assertion + heap" where
  "DoubleBufferSwapper_set_active w buffer h =
     (if buffer = 0 then Inl BufferNull
      else if buffer = cells h (active_buffer w) then Inl BufferActive
      else Inr (h\<lparr>cells := (cells h)(active_buffer w := buffer)\<rparr>))"

definition DoubleBufferSwapper_stage :: "ptr \<Rightarrow> swapper \<Rightarrow> assertion + swapper" where
  "DoubleBufferSwapper_stage buffer w =
     (if buffer = 0 then Inl BufferNull else Inr (w\<lparr>stage_buffer := buffer\<rparr>))"

definition DoubleBufferSwapper_swap :: "ctype \<Rightarrow> swapper \<Rightarrow> heap \<Rightarrow> assertion + (swapper \<times> heap)" where
  "DoubleBufferSwapper_swap T w h =
     (let pre = pre_allocated_buffer w; st = stage_buffer w
      in if pre = 0 then Inl PreNull
         else if st = 0 then Inl StageNull
         else if pre = st then Inl PreIsStage
         else if pre mod alignof T \<noteq> 0 then Inl PreMisaligned
         else if st mod alignof T \<noteq> 0 then Inl StageMisaligned
         else Inr (w\<lparr>stage_buffer := 0\<rparr>,
                   h\<lparr>objs := (objs h)(pre := objs h st), cells := (cells h)(active_buffer w := pre)\<rparr>))"

section \<open>Loader\<close>

text \<open>The members of \<open>DblBufLoader\<close> other than the thread: the mapped object \<open>shm_\<close>, the private
  buffer, the address of the member \<open>swapper_ptr_\<close>, and the atomic \<open>published_ptr_\<close>.\<close>

record loader =
  ld_heap :: heap
  ld_shm :: ptr
  ld_swapper :: swapper
  ld_published :: ptr

text \<open>The task between \<open>lock_.lock()\<close> and \<open>lock_.unlock()\<close>, in one step: swap and publish. The two calls are left out, as there is
  no other process in this theory; \<open>Loader_Machine\<close> has them, and cuts the task into its single accesses.\<close>

definition DblBufLoader_task :: "ctype \<Rightarrow> loader \<Rightarrow> loader task_result" where
  "DblBufLoader_task T d =
     (case DoubleBufferSwapper_swap T (ld_swapper d) (ld_heap d) of
        Inl msg \<Rightarrow> TaskAborts
      | Inr (w, h) \<Rightarrow> TaskReturns (d\<lparr>ld_swapper := w, ld_heap := h, ld_published := cells h (active_buffer w)\<rparr>))"

text \<open>The constructor: \<open>shm\<close>, \<open>pre\<close> and \<open>slot\<close> are the addresses of the mapped object, of the
  buffer that \<open>make_unique\<close> returned (with a value-initialised object) and of \<open>swapper_ptr_\<close>.\<close>

definition DblBufLoader_construct ::
    "ctype \<Rightarrow> ptr \<Rightarrow> ptr \<Rightarrow> ptr \<Rightarrow> heap \<Rightarrow> assertion + loader runner" where
  "DblBufLoader_construct T shm pre slot h =
     (let h0 = h\<lparr>objs := (objs h)(pre := value_init T), cells := (cells h)(slot := 0)\<rparr>
      in case DoubleBufferSwapper_new slot pre of
           Inl msg \<Rightarrow> Inl msg
         | Inr w \<Rightarrow>
             (case DoubleBufferSwapper_set_active w shm h0 of
                Inl msg \<Rightarrow> Inl msg
              | Inr h1 \<Rightarrow>
                  Inr (SwapRunner_new \<lparr>ld_heap = h1, ld_shm = shm, ld_swapper = w, ld_published = cells h1 slot\<rparr>)))"

text \<open>\<open>load()\<close> up to the call of \<open>trigger()\<close>; the snapshot it returns is a pointer to
  \<open>published_ptr_\<close>, so reading it reads the loader.\<close>

definition DblBufLoader_stage :: "loader runner \<Rightarrow> assertion + loader runner" where
  "DblBufLoader_stage r =
     (if ld_shm (owner r) = 0 then Inl ShmNull
      else case DoubleBufferSwapper_stage (ld_shm (owner r)) (ld_swapper (owner r)) of
             Inl msg \<Rightarrow> Inl msg
           | Inr w \<Rightarrow> Inr (r\<lparr>owner := (owner r)\<lparr>ld_swapper := w\<rparr>\<rparr>))"

definition DblBufLoader_load :: "loader runner \<Rightarrow> assertion + loader runner" where
  "DblBufLoader_load r = (case DblBufLoader_stage r of Inl msg \<Rightarrow> Inl msg | Inr r' \<Rightarrow> Inr (SwapRunner_trigger r'))"

definition DblBufLoader_wait_returns :: "loader runner \<Rightarrow> bool" where
  "DblBufLoader_wait_returns r = SwapRunner_wait_returns r"

section \<open>Snapshot\<close>

definition Snapshot_get :: "loader \<Rightarrow> ptr" where
  "Snapshot_get d = ld_published d"

definition Snapshot_deref :: "loader \<Rightarrow> assertion + byte list" where
  "Snapshot_deref d = (let p = ld_published d in if p = 0 then Inl SnapshotNull else Inr (objs (ld_heap d) p))"

section \<open>Combined reader and writer\<close>

text \<open>The constructor. \<open>get_shm()\<close> asserts that the mapping is not null before \<open>set_active\<close> does.\<close>

definition DoubleBufferShm_get_shm :: "ptr \<Rightarrow> assertion + ptr" where
  "DoubleBufferShm_get_shm shm = (if shm = 0 then Inl ShmNull else Inr shm)"

definition DoubleBufferShm_construct ::
    "ctype \<Rightarrow> ptr \<Rightarrow> ptr \<Rightarrow> ptr \<Rightarrow> heap \<Rightarrow> assertion + loader runner" where
  "DoubleBufferShm_construct T shm pre slot h =
     (let h0 = h\<lparr>objs := (objs h)(pre := value_init T), cells := (cells h)(slot := 0)\<rparr>
      in case DoubleBufferSwapper_new slot pre of
           Inl msg \<Rightarrow> Inl msg
         | Inr w \<Rightarrow>
             (case DoubleBufferShm_get_shm shm of
                Inl msg \<Rightarrow> Inl msg
              | Inr q \<Rightarrow>
                  (case DoubleBufferSwapper_set_active w q h0 of
                     Inl msg \<Rightarrow> Inl msg
                   | Inr h1 \<Rightarrow>
                       Inr (SwapRunner_new
                         \<lparr>ld_heap = h1, ld_shm = shm, ld_swapper = w, ld_published = cells h1 slot\<rparr>))))"

definition DoubleBufferShm_shm_addr :: "loader \<Rightarrow> ptr" where
  "DoubleBufferShm_shm_addr d = ld_shm d"

definition DoubleBufferShm_pre_allocated_addr :: "loader \<Rightarrow> ptr" where
  "DoubleBufferShm_pre_allocated_addr d = pre_allocated_buffer (ld_swapper d)"

text \<open>\<open>DoubleBufferShm::store\<close>, as one step under the lock.\<close>

definition DoubleBufferShm_store :: "byte list \<Rightarrow> loader runner \<Rightarrow> loader runner" where
  "DoubleBufferShm_store data r =
     r\<lparr>owner := (owner r)\<lparr>ld_heap := (ld_heap (owner r))
       \<lparr>objs := (objs (ld_heap (owner r)))(ld_shm (owner r) := data)\<rparr>\<rparr>\<rparr>"

definition DoubleBufferShm_task :: "ctype \<Rightarrow> loader \<Rightarrow> loader task_result" where
  "DoubleBufferShm_task T d =
     (case DoubleBufferSwapper_swap T (ld_swapper d) (ld_heap d) of
        Inl msg \<Rightarrow> TaskAborts
      | Inr (w, h) \<Rightarrow> TaskReturns (d\<lparr>ld_swapper := w, ld_heap := h, ld_published := cells h (active_buffer w)\<rparr>))"

definition DoubleBufferShm_load :: "loader runner \<Rightarrow> assertion + loader runner" where
  "DoubleBufferShm_load r =
     (case DoubleBufferShm_get_shm (ld_shm (owner r)) of
        Inl msg \<Rightarrow> Inl msg
      | Inr q \<Rightarrow>
          (case DoubleBufferSwapper_stage q (ld_swapper (owner r)) of
             Inl msg \<Rightarrow> Inl msg
           | Inr w \<Rightarrow> Inr (SwapRunner_trigger (r\<lparr>owner := (owner r)\<lparr>ld_swapper := w\<rparr>\<rparr>))))"

definition DoubleBufferShm_wait_returns :: "loader runner \<Rightarrow> bool" where
  "DoubleBufferShm_wait_returns r = SwapRunner_wait_returns r"

section \<open>Properties\<close>

lemma swap_ok:
  assumes "pre_allocated_buffer w \<noteq> 0" "stage_buffer w \<noteq> 0" "pre_allocated_buffer w \<noteq> stage_buffer w"
    "alignof T dvd pre_allocated_buffer w" "alignof T dvd stage_buffer w"
  shows "DoubleBufferSwapper_swap T w h = Inr (w\<lparr>stage_buffer := 0\<rparr>,
     h\<lparr>objs := (objs h)(pre_allocated_buffer w := objs h (stage_buffer w)),
       cells := (cells h)(active_buffer w := pre_allocated_buffer w)\<rparr>)"
  using assms by (simp add: DoubleBufferSwapper_swap_def Let_def mod_eq_0_iff_dvd)

text \<open>
  \<open>swap()\<close> passes its assertions exactly when buffer and stage are two different, aligned,
  non-null objects. It then makes the active pointer lead to the buffer, with the staged object as
  its contents, changes no other object and no other pointer, and forgets the stage, so that a
  second \<open>swap()\<close> without \<open>stage()\<close> fails.
\<close>

theorem swapper_swap_exact:
  "(\<exists>w' h'. DoubleBufferSwapper_swap T w h = Inr (w', h')) =
     (pre_allocated_buffer w \<noteq> 0 \<and> stage_buffer w \<noteq> 0 \<and> pre_allocated_buffer w \<noteq> stage_buffer w \<and>
      alignof T dvd pre_allocated_buffer w \<and> alignof T dvd stage_buffer w) \<and>
   (case DoubleBufferSwapper_swap T w h of
      Inl _ \<Rightarrow> True
    | Inr (w', h') \<Rightarrow>
        cells h' = (cells h)(active_buffer w := pre_allocated_buffer w) \<and>
        objs h' = (objs h)(pre_allocated_buffer w := objs h (stage_buffer w)) \<and>
        DoubleBufferSwapper_swap T w' h' = Inl StageNull)"
  by (auto simp: DoubleBufferSwapper_swap_def Let_def mod_eq_0_iff_dvd)

text \<open>A loader whose buffers are as the constructor leaves them.\<close>

definition loader_ok :: "ctype \<Rightarrow> loader \<Rightarrow> bool" where
  "loader_ok T d \<longleftrightarrow>
     (let w = ld_swapper d
      in pre_allocated_buffer w \<noteq> 0 \<and> ld_shm d \<noteq> 0 \<and> pre_allocated_buffer w \<noteq> ld_shm d \<and>
         alignof T dvd pre_allocated_buffer w \<and> alignof T dvd ld_shm d \<and>
         (stage_buffer w = 0 \<or> stage_buffer w = ld_shm d))"

abbreviation shm_object :: "loader \<Rightarrow> byte list" where
  "shm_object d \<equiv> objs (ld_heap d) (ld_shm d)"

lemma loader_task_ok:
  assumes "loader_ok T d" and "stage_buffer (ld_swapper d) = ld_shm d"
  obtains d' where "DblBufLoader_task T d = TaskReturns d'" and "loader_ok T d'"
    and "ld_published d' = pre_allocated_buffer (ld_swapper d)" "ld_swapper d' = (ld_swapper d)\<lparr>stage_buffer := 0\<rparr>"
    and "ld_shm d' = ld_shm d" "ld_heap d' = (ld_heap d)\<lparr>objs := (objs (ld_heap d))
      (pre_allocated_buffer (ld_swapper d) := shm_object d), cells := (cells (ld_heap d))
      (active_buffer (ld_swapper d) := pre_allocated_buffer (ld_swapper d))\<rparr>"
proof -
  have "DblBufLoader_task T d = TaskReturns (d\<lparr>ld_swapper := (ld_swapper d)\<lparr>stage_buffer := 0\<rparr>,
      ld_heap := (ld_heap d)\<lparr>objs := (objs (ld_heap d))(pre_allocated_buffer (ld_swapper d) := shm_object d),
        cells := (cells (ld_heap d))(active_buffer (ld_swapper d) := pre_allocated_buffer (ld_swapper d))\<rparr>,
      ld_published := pre_allocated_buffer (ld_swapper d)\<rparr>)"
    using assms swap_ok [of "ld_swapper d" T "ld_heap d"]
    by (simp add: DblBufLoader_task_def loader_ok_def Let_def)
  then show thesis by (rule that) (use assms(1) in \<open>simp_all add: loader_ok_def Let_def\<close>)
qed

text \<open>
  \<open>load()\<close> followed by \<open>wait()\<close>, from a loader at rest: the task does not fail an assertion,
  \<open>wait()\<close> returns once the thread has run, and from then on the snapshot reads the object that
  was in shared memory when the thread copied it. Later stores into shared memory do not show in
  it, and the loader is ready for the next \<open>load()\<close>.
\<close>

theorem loader_snapshot:
  assumes "loader_ok T (owner r)" and "run_pc r = RunWait" and "triggered r = 0" and "\<not> stopped r"
    and "DblBufLoader_load r = Inr r1" and "r2 = run_steps (DblBufLoader_task T) n r1" and "5 \<le> n"
  shows "DblBufLoader_wait_returns r2 \<and> Snapshot_deref (owner r2) = Inr (shm_object (owner r)) \<and>
         Snapshot_deref (owner (DoubleBufferShm_store data r2)) = Inr (shm_object (owner r)) \<and>
         loader_ok T (owner r2) \<and> triggered r2 = 0 \<and> run_pc r2 \<in> {RunLoop, RunWait}"
proof -
  let ?d = "(owner r)\<lparr>ld_swapper := (ld_swapper (owner r))\<lparr>stage_buffer := ld_shm (owner r)\<rparr>\<rparr>"
  have r1: "r1 = SwapRunner_trigger (r\<lparr>owner := ?d\<rparr>)"
    using assms(1,5) by (auto simp: DblBufLoader_load_def DblBufLoader_stage_def DoubleBufferSwapper_stage_def
        loader_ok_def Let_def split: if_splits)
  have "loader_ok T ?d" using assms(1) by (simp add: loader_ok_def Let_def)
  then obtain d' where d': "DblBufLoader_task T ?d = TaskReturns d'" "loader_ok T d'"
      "ld_published d' = pre_allocated_buffer (ld_swapper ?d)" "ld_shm d' = ld_shm ?d"
      "ld_heap d' = (ld_heap ?d)\<lparr>objs := (objs (ld_heap ?d))
      (pre_allocated_buffer (ld_swapper ?d) := shm_object ?d), cells := (cells (ld_heap ?d))
      (active_buffer (ld_swapper ?d) := pre_allocated_buffer (ld_swapper ?d))\<rparr>"
    by (rule loader_task_ok) simp
  have "\<not> aborts (DblBufLoader_task T) ?d" "task_owner (DblBufLoader_task T) ?d = d'"
    by (simp_all add: aborts_def task_owner_def d'(1))
  then have "SwapRunner_wait_returns r2" "owner r2 = d'" "triggered r2 = 0" "run_pc r2 \<in> {RunLoop, RunWait}"
    using trigger_then_wait [of "r\<lparr>owner := ?d\<rparr>" "DblBufLoader_task T" r2 n] assms(2-4,6,7) r1 by auto
  with d' assms(1) show ?thesis
    by (simp add: DblBufLoader_wait_returns_def Snapshot_deref_def DoubleBufferShm_store_def loader_ok_def Let_def)
qed

text \<open>
  The constructor establishes the precondition, and the first snapshot is the shared object itself.
\<close>

theorem loader_construct_ok:
  assumes "shm \<noteq> 0" "pre \<noteq> 0" "slot \<noteq> 0" "shm \<noteq> pre" "alignof T dvd shm" "alignof T dvd pre"
  shows "\<exists>r. DblBufLoader_construct T shm pre slot h = Inr r \<and> loader_ok T (owner r) \<and>
     Snapshot_get (owner r) = shm \<and> shm_object (owner r) = objs h shm \<and> run_pc r = RunLoop \<and> triggered r = 0 \<and> \<not> stopped r"
  using assms by (auto simp: DblBufLoader_construct_def DoubleBufferSwapper_new_def DoubleBufferSwapper_set_active_def
      SwapRunner_new_def loader_ok_def Snapshot_get_def Let_def)

text \<open>The combined class runs the same code as the loader. A null mapping is caught by its own assertion.\<close>

theorem double_buffer_shm_equiv:
  "DoubleBufferShm_task T d = DblBufLoader_task T d \<and> DoubleBufferShm_load r = DblBufLoader_load r \<and>
   DoubleBufferShm_wait_returns r = DblBufLoader_wait_returns r \<and>
   (shm \<noteq> 0 \<longrightarrow> DoubleBufferShm_construct T shm pre slot h = DblBufLoader_construct T shm pre slot h)"
  by (auto simp: DoubleBufferShm_get_shm_def DoubleBufferShm_construct_def DblBufLoader_construct_def Let_def
      DoubleBufferShm_task_def DblBufLoader_task_def DoubleBufferShm_load_def DblBufLoader_load_def
      DblBufLoader_stage_def DoubleBufferShm_wait_returns_def DblBufLoader_wait_returns_def split: sum.split)

section \<open>Rounds of store, load and wait\<close>

text \<open>The state between two rounds.\<close>

definition loader_ready :: "ctype \<Rightarrow> loader runner \<Rightarrow> bool" where
  "loader_ready T r \<longleftrightarrow> loader_ok T (owner r) \<and> run_pc r \<in> {RunLoop, RunWait} \<and> triggered r = 0 \<and> \<not> stopped r"

lemma load_from_ready:
  assumes "loader_ok T (owner r)"
  shows "DblBufLoader_load r = Inr (SwapRunner_trigger (r\<lparr>owner := (owner r)\<lparr>ld_swapper := (ld_swapper (owner r))\<lparr>stage_buffer := ld_shm (owner r)\<rparr>\<rparr>\<rparr>))"
  using assms by (simp add: DblBufLoader_load_def DblBufLoader_stage_def DoubleBufferSwapper_stage_def loader_ok_def Let_def)

lemma load_wait_ready:
  assumes "loader_ready T r" and "6 \<le> n"
  obtains r1 where "DblBufLoader_load r = Inr r1" and "DblBufLoader_wait_returns (run_steps (DblBufLoader_task T) n r1)"
    and "Snapshot_deref (owner (run_steps (DblBufLoader_task T) n r1)) = Inr (shm_object (owner r))"
    and "loader_ready T (run_steps (DblBufLoader_task T) n r1)"
proof -
  let ?w = "r\<lparr>run_pc := RunWait\<rparr>" and ?task = "DblBufLoader_task T"
  have ok: "loader_ok T (owner r)" using assms(1) by (simp add: loader_ready_def)
  obtain r1 where r1: "DblBufLoader_load r = Inr r1" using load_from_ready [OF ok] by simp
  obtain w1 where w1: "DblBufLoader_load ?w = Inr w1" using load_from_ready [of T ?w] ok by simp
  obtain k where k: "run_steps ?task n r1 = run_steps ?task k w1" "5 \<le> k"
  proof (cases "run_pc r = RunWait")
    case True
    then have "?w = r" by simp
    with r1 w1 that [of n] assms(2) show thesis by simp
  next
    case False
    then have pc: "run_pc r = RunLoop" "\<not> stopped r" using assms(1) by (auto simp: loader_ready_def)
    obtain j where n: "n = Suc j" "5 \<le> j" using assms(2) by (cases n) auto
    have "SwapRunner_run ?task r1 = Some w1"
      using r1 w1 pc load_from_ready [OF ok] load_from_ready [of T ?w] ok
      by (auto simp: SwapRunner_run_def SwapRunner_trigger_def trigger_set_def trigger_idle_def)
    with n that [of j] show thesis by simp
  qed
  have "DblBufLoader_wait_returns (run_steps ?task k w1) \<and> Snapshot_deref (owner (run_steps ?task k w1)) = Inr (shm_object (owner ?w)) \<and>
      Snapshot_deref (owner (DoubleBufferShm_store [] (run_steps ?task k w1))) = Inr (shm_object (owner ?w)) \<and>
      loader_ok T (owner (run_steps ?task k w1)) \<and> triggered (run_steps ?task k w1) = 0 \<and> run_pc (run_steps ?task k w1) \<in> {RunLoop, RunWait}"
    by (rule loader_snapshot [OF _ _ _ _ w1 refl k(2)]) (use assms(1) in \<open>simp_all add: loader_ready_def\<close>)
  moreover have "\<not> stopped (run_steps ?task k w1)"
    using w1 load_from_ready [of T ?w] ok assms(1)
    by (auto simp: run_steps_stopped loader_ready_def SwapRunner_trigger_def trigger_set_def trigger_idle_def)
  ultimately show thesis using r1 k(1) by (intro that [of r1]) (auto simp: loader_ready_def)
qed

lemma store_ready:
  "loader_ready T r \<Longrightarrow> loader_ready T (DoubleBufferShm_store src r)"
  "shm_object (owner (DoubleBufferShm_store src r)) = src"
  by (simp_all add: loader_ready_def loader_ok_def DoubleBufferShm_store_def Let_def)

lemma DoubleBufferShm_same:
  "DoubleBufferShm_task = DblBufLoader_task" "DoubleBufferShm_load = DblBufLoader_load"
  "DoubleBufferShm_wait_returns = DblBufLoader_wait_returns"
  using double_buffer_shm_equiv by (simp_all add: fun_eq_iff)

lemma construct_ready:
  assumes "shm \<noteq> 0" "pre \<noteq> 0" "slot \<noteq> 0" "shm \<noteq> pre" "alignof T dvd shm" "alignof T dvd pre"
  obtains r where "DblBufLoader_construct T shm pre slot h = Inr r" "DoubleBufferShm_construct T shm pre slot h = Inr r"
    "loader_ready T r" "shm_object (owner r) = objs h shm"
proof -
  obtain r where r: "DblBufLoader_construct T shm pre slot h = Inr r" "loader_ready T r" "shm_object (owner r) = objs h shm"
    using loader_construct_ok [OF assms, of h] by (auto simp: loader_ready_def)
  with double_buffer_shm_equiv assms(1) show thesis by (metis that)
qed

section \<open>Two loads in a row\<close>

definition heap_demo :: heap where
  "heap_demo = \<lparr>objs = (\<lambda>_. [])(1 := [7]), cells = (\<lambda>_. 0)\<rparr>"

definition loader_demo :: loader where
  "loader_demo = \<lparr>ld_heap = \<lparr>objs = (\<lambda>_. [])(1 := [7], 2 := [0]), cells = (\<lambda>_. 0)(3 := 1)\<rparr>, ld_shm = 1,
     ld_swapper = \<lparr>active_buffer = 3, pre_allocated_buffer = 2, stage_buffer = 0\<rparr>, ld_published = 1\<rparr>"

lemma construct_demo: "DblBufLoader_construct (flat 1 1) 1 2 3 heap_demo = Inr (SwapRunner_new loader_demo)"
  by (simp add: DblBufLoader_construct_def DoubleBufferSwapper_new_def DoubleBufferSwapper_set_active_def
      heap_demo_def loader_demo_def fun_upd_twist)

lemma loader_demo_ok: "loader_ok (flat 1 1) loader_demo"
  by (simp add: loader_ok_def loader_demo_def)

lemmas loader_simps = DblBufLoader_load_def DblBufLoader_stage_def DoubleBufferSwapper_stage_def
  SwapRunner_trigger_def trigger_idle_def trigger_set_def SwapRunner_run_def DblBufLoader_task_def
  DoubleBufferSwapper_swap_def

text \<open>
  A second \<open>load()\<close> before \<open>wait()\<close> can abort the program. The thread has taken the first
  request and not yet swapped when the second \<open>load()\<close> stages and triggers again; the first swap
  clears the stage, and the second one finds it null. Without assertions the null pointer is
  dereferenced.
\<close>

theorem loader_double_load_aborts:
  "\<exists>r1 r2. DblBufLoader_construct (flat 1 1) 1 2 3 heap_demo = Inr (SwapRunner_new loader_demo) \<and>
     DblBufLoader_load (SwapRunner_new loader_demo) = Inr r1 \<and>
     DblBufLoader_load (run_steps (DblBufLoader_task (flat 1 1)) 4 r1) = Inr r2 \<and>
     run_pc (run_steps (DblBufLoader_task (flat 1 1)) 7 r2) = RunAborted"
proof -
  let ?task = "DblBufLoader_task (flat 1 1)"
  obtain r1 where r1: "DblBufLoader_load (SwapRunner_new loader_demo) = Inr r1"
      "run_steps ?task 4 r1 = (SwapRunner_new (loader_demo\<lparr>ld_swapper := (ld_swapper loader_demo)\<lparr>stage_buffer := 1\<rparr>\<rparr>))
         \<lparr>idle := 0, triggered := 0, run_pc := RunTask\<rparr>"
    by (simp add: loader_simps SwapRunner_new_def loader_demo_def eval_nat_numeral)
  obtain r2 where r2: "DblBufLoader_load (run_steps ?task 4 r1) = Inr r2"
      "r2 = (SwapRunner_new (loader_demo\<lparr>ld_swapper := (ld_swapper loader_demo)\<lparr>stage_buffer := 1\<rparr>\<rparr>))
         \<lparr>idle := 0, triggered := 1, run_pc := RunTask\<rparr>"
    unfolding r1(2) by (simp add: loader_simps SwapRunner_new_def loader_demo_def)
  have "run_pc (run_steps ?task 7 r2) = RunAborted"
    unfolding r2(2) by (simp add: loader_simps SwapRunner_new_def loader_demo_def eval_nat_numeral)
  with r1(1) r2(1) construct_demo show ?thesis by blast
qed

section \<open>Witnesses\<close>

theorem loader_snapshot_witness:
  "\<exists>r1. DblBufLoader_load ((SwapRunner_new loader_demo)\<lparr>run_pc := RunWait\<rparr>) = Inr r1 \<and>
     Snapshot_deref (owner (DoubleBufferShm_store [9] (run_steps (DblBufLoader_task (flat 1 1)) 5 r1))) = Inr [7]"
proof -
  let ?r = "(SwapRunner_new loader_demo)\<lparr>run_pc := RunWait\<rparr>"
  obtain r1 where r1: "DblBufLoader_load ?r = Inr r1"
    by (simp add: loader_simps SwapRunner_new_def loader_demo_def)
  have "loader_ok (flat 1 1) (owner ?r)" "shm_object (owner ?r) = [7]"
    using loader_demo_ok by (simp_all add: SwapRunner_new_def) (simp add: loader_demo_def)
  with r1 loader_snapshot [of "flat 1 1" ?r r1 _ 5 "[9]"] show ?thesis
    by (auto simp: SwapRunner_new_def)
qed

end
