(* ===== verification/Loader_Machine.thy ===== *)
theory Loader_Machine
  imports Double_Buffer
begin

text \<open>
  \<^verbatim>\<open>dblbuf_loader.hpp\<close> and \<^verbatim>\<open>image_shm.hpp\<close> at the level of single accesses: the user of a loader, its
  background thread and any number of writers (\<open>Storage::store\<close>, \<open>DoubleBufferShm::store\<close>) in one
  machine. The thread is the process \<open>th\<close> of the lock; its task is cut at every part of \<open>lock()\<close> and
  \<open>unlock()\<close>, at every byte of \<open>*pre_allocated_buffer_ = *stage_\<close> and at the store that publishes
  the pointer. The user calls \<open>load()\<close> and then \<open>wait()\<close>, over and over, as the
  examples, tests and benchmarks do; a second \<open>load()\<close> before the \<open>wait()\<close> would stage a buffer under the running
  task and is not part of the protocol, and further calls of \<open>wait()\<close> find \<open>idle_\<close> set and change nothing. The machine composes
  the thread of \<open>Swap_Runner\<close>, the lock of \<open>Shm_Lock\<close> and the writers of \<open>Storage\<close>.
\<close>

section \<open>State\<close>

datatype task_pos =
    TaskStart         \<comment> \<open>before \<open>lock_.lock()\<close>\<close>
  | TaskLocking       \<comment> \<open>in \<open>lock_.lock()\<close>, or just returned from it\<close>
  | TaskCopy nat      \<comment> \<open>in \<open>swap()\<close>, so many bytes copied\<close>
  | TaskPublish       \<comment> \<open>before \<open>published_ptr_.store(...)\<close>\<close>
  | TaskPublished     \<comment> \<open>before \<open>lock_.unlock()\<close>\<close>
  | TaskUnlocking     \<comment> \<open>in \<open>lock_.unlock()\<close>, or just returned from it\<close>

datatype user_pos =
    UserIdle          \<comment> \<open>before \<open>load()\<close>\<close>
  | UserStaged        \<comment> \<open>before \<open>idle_.store(0)\<close> of \<open>trigger()\<close>\<close>
  | UserTriggering    \<comment> \<open>before \<open>triggered_.store(1)\<close> of \<open>trigger()\<close>\<close>
  | UserWaiting       \<comment> \<open>in \<open>wait()\<close>\<close>
  | UserAborted       \<comment> \<open>an assertion of \<open>load()\<close> has failed\<close>

text \<open>\<open>lm_buf\<close> is the object in the private buffer, \<open>lm_cell\<close> the member \<open>swapper_ptr_\<close>. The last three
  fields record history: how many stores were complete at the last \<open>load()\<close> and when the thread
  had copied, and the number of calls of \<open>load()\<close>.\<close>

record 'p machine =
  lm_storage :: "'p storage"
  lm_runner :: "unit runner"
  lm_task :: task_pos
  lm_swapper :: swapper
  lm_shm :: ptr
  lm_cell :: ptr
  lm_published :: ptr
  lm_buf :: "byte list"
  lm_user :: user_pos
  lm_called :: nat
  lm_version :: nat
  lm_loads :: nat

text \<open>The constructor, with the addresses of the mapped object, of the private buffer and of
  \<open>swapper_ptr_\<close>.\<close>

definition machine_new :: "ctype \<Rightarrow> ptr \<Rightarrow> ptr \<Rightarrow> ptr \<Rightarrow> 'p storage \<Rightarrow> assertion + 'p machine" where
  "machine_new T shm pre slot st =
     (case DoubleBufferSwapper_new slot pre of
        Inl msg \<Rightarrow> Inl msg
      | Inr w \<Rightarrow>
          if shm = 0 then Inl BufferNull
          else Inr \<lparr>lm_storage = st, lm_runner = SwapRunner_new (), lm_task = TaskStart, lm_swapper = w,
                    lm_shm = shm, lm_cell = shm, lm_published = shm, lm_buf = value_init T,
                    lm_user = UserIdle, lm_called = 0, lm_version = 0, lm_loads = 0\<rparr>)"

section \<open>Steps of the user\<close>

text \<open>\<open>load()\<close> up to \<open>trigger()\<close>, the two stores of \<open>trigger()\<close>, and \<open>wait()\<close>, which blocks while
  \<open>idle_\<close> is 0.\<close>

definition user_step :: "'p machine \<Rightarrow> 'p machine option" where
  "user_step s =
     (case lm_user s of
        UserIdle \<Rightarrow>
          (case DoubleBufferSwapper_stage (lm_shm s) (lm_swapper s) of
             Inl msg \<Rightarrow> Some (s\<lparr>lm_user := UserAborted\<rparr>)
           | Inr w \<Rightarrow> Some (s\<lparr>lm_swapper := w, lm_user := UserStaged, lm_loads := lm_loads s + 1,
                              lm_called := length (st_log (lm_storage s))\<rparr>))
      | UserStaged \<Rightarrow> Some (s\<lparr>lm_runner := trigger_idle (lm_runner s), lm_user := UserTriggering\<rparr>)
      | UserTriggering \<Rightarrow> Some (s\<lparr>lm_runner := trigger_set (lm_runner s), lm_user := UserWaiting\<rparr>)
      | UserWaiting \<Rightarrow>
          if SwapRunner_wait_returns (lm_runner s) then Some (s\<lparr>lm_user := UserIdle\<rparr>) else None
      | UserAborted \<Rightarrow> None)"

section \<open>Steps of the thread\<close>

text \<open>The byte \<open>i\<close> of the object at a pointer.\<close>

definition byte_at :: "'p machine \<Rightarrow> ptr \<Rightarrow> nat \<Rightarrow> byte" where
  "byte_at s p i =
     (if p = pre_allocated_buffer (lm_swapper s) then lm_buf s ! i else st_mem (lm_storage s) i)"

text \<open>The assertions at the start of \<open>swap()\<close>.\<close>

definition swap_asserts :: "ctype \<Rightarrow> swapper \<Rightarrow> bool" where
  "swap_asserts T w \<longleftrightarrow>
     pre_allocated_buffer w \<noteq> 0 \<and> stage_buffer w \<noteq> 0 \<and> pre_allocated_buffer w \<noteq> stage_buffer w \<and>
     pre_allocated_buffer w mod alignof T = 0 \<and> stage_buffer w mod alignof T = 0"

abbreviation thread_lock :: "'p machine \<Rightarrow> 'p lock_state" where
  "thread_lock s \<equiv> st_lock (lm_storage s)"

definition set_lock :: "'p lock_state \<Rightarrow> 'p machine \<Rightarrow> 'p machine" where
  "set_lock l s = s\<lparr>lm_storage := (lm_storage s)\<lparr>st_lock := l\<rparr>\<rparr>"

definition task_step :: "ctype \<Rightarrow> 'p \<Rightarrow> 'p machine \<Rightarrow> 'p machine option" where
  "task_step T th s =
     (let w = lm_swapper s
      in case lm_task s of
           TaskStart \<Rightarrow>
             map_option (\<lambda>l. (set_lock l s)\<lparr>lm_task := TaskLocking\<rparr>) (ShmLock_exec (CallLock th) (thread_lock s))
         | TaskLocking \<Rightarrow>
             if at (thread_lock s) th Critical then
               if swap_asserts T w then Some (s\<lparr>lm_task := TaskCopy 0\<rparr>)
               else Some (s\<lparr>lm_runner := (lm_runner s)\<lparr>run_pc := RunAborted\<rparr>\<rparr>)
             else None
         | TaskCopy k \<Rightarrow>
             if k < sizeof T then
               Some (s\<lparr>lm_buf := (lm_buf s)[k := byte_at s (stage_buffer w) k], lm_task := TaskCopy (Suc k)\<rparr>)
             else
               Some (s\<lparr>lm_cell := pre_allocated_buffer w, lm_swapper := w\<lparr>stage_buffer := 0\<rparr>,
                       lm_task := TaskPublish, lm_version := length (st_log (lm_storage s))\<rparr>)
         | TaskPublish \<Rightarrow> Some (s\<lparr>lm_published := lm_cell s, lm_task := TaskPublished\<rparr>)
         | TaskPublished \<Rightarrow>
             map_option (\<lambda>l. (set_lock l s)\<lparr>lm_task := TaskUnlocking\<rparr>) (ShmLock_exec (CallUnlock th) (thread_lock s))
         | TaskUnlocking \<Rightarrow>
             if at (thread_lock s) th Outside
             then Some (s\<lparr>lm_task := TaskStart, lm_runner := (lm_runner s)\<lparr>run_pc := RunIdle\<rparr>\<rparr>)
             else None)"

text \<open>One statement of \<open>run()\<close>; the call of the task is many steps.\<close>

definition thread_step :: "ctype \<Rightarrow> 'p \<Rightarrow> 'p machine \<Rightarrow> 'p machine option" where
  "thread_step T th s =
     (if run_pc (lm_runner s) = RunTask then task_step T th s
      else map_option (\<lambda>r. s\<lparr>lm_runner := r\<rparr>) (SwapRunner_run TaskReturns (lm_runner s)))"

section \<open>Runs\<close>

datatype 'p machine_event =
    UserStep
  | ThreadStep
  | ThreadLock "'p lock_event"        \<comment> \<open>an inner part of the thread's \<open>lock()\<close> or \<open>unlock()\<close>\<close>
  | WriterStep "'p storage_event"

fun machine_exec :: "ctype \<Rightarrow> 'p \<Rightarrow> 'p machine_event \<Rightarrow> 'p machine \<Rightarrow> 'p machine option" where
  "machine_exec T th UserStep s = user_step s"
| "machine_exec T th ThreadStep s = thread_step T th s"
| "machine_exec T th (ThreadLock e) s =
     (if lock_event_by e = th \<and> e \<noteq> CallLock th \<and> e \<noteq> CallUnlock th
      then map_option (\<lambda>l. set_lock l s) (ShmLock_exec e (thread_lock s)) else None)"
| "machine_exec T th (WriterStep e) s =
     (if storage_event_by e = th then None
      else map_option (\<lambda>st. s\<lparr>lm_storage := st\<rparr>) (Storage_exec T e (lm_storage s)))"

text \<open>The loader is constructed at any moment of the writers' run, in which its thread did not take
  part; the addresses are those of two distinct aligned objects.\<close>

inductive machine_reachable :: "ctype \<Rightarrow> 'p \<Rightarrow> mem \<Rightarrow> 'p machine \<Rightarrow> bool" for T th m where
  init: "storage_reachable T m st \<Longrightarrow> at (st_lock st) th Outside \<Longrightarrow> shm \<noteq> pre \<Longrightarrow>
    alignof T dvd shm \<Longrightarrow> alignof T dvd pre \<Longrightarrow> machine_new T shm pre slot st = Inr s \<Longrightarrow> machine_reachable T th m s"
| step: "machine_reachable T th m s \<Longrightarrow> machine_exec T th e s = Some s' \<Longrightarrow> machine_reachable T th m s'"

text \<open>What \<open>*snapshot\<close> reads at this moment.\<close>

definition machine_snapshot :: "ctype \<Rightarrow> 'p machine \<Rightarrow> assertion + byte list" where
  "machine_snapshot T s =
     (if lm_published s = 0 then Inl SnapshotNull
      else Inr (map (byte_at s (lm_published s)) [0..<sizeof T]))"

section \<open>Destruction\<close>

text \<open>\<open>runner_.reset()\<close> requests the stop and joins the thread; \<open>lock_.destroy()\<close> follows.\<close>

definition machine_request_stop :: "'p machine \<Rightarrow> 'p machine" where
  "machine_request_stop s = s\<lparr>lm_runner := SwapRunner_request_stop (lm_runner s)\<rparr>"

definition machine_destroy :: "'p machine \<Rightarrow> 'p machine option" where
  "machine_destroy s =
     (if run_pc (lm_runner s) = RunDone then Some (set_lock (ShmLock_destroy (thread_lock s)) s) else None)"

section \<open>Invariant\<close>

text \<open>Where the thread is in the lock at each point of its task.\<close>

fun lock_phase :: "task_pos \<Rightarrow> lock_pc \<Rightarrow> bool" where
  "lock_phase TaskStart l = (l = Outside)"
| "lock_phase TaskLocking l = (in_lock l \<or> l = Critical)"
| "lock_phase TaskUnlocking l = (l = AboutToWake \<or> l = Outside)"
| "lock_phase _ l = (l = Critical)"

abbreviation stored :: "ctype \<Rightarrow> mem \<Rightarrow> 'p machine \<Rightarrow> byte list list" where
  "stored T m s \<equiv> SharedMemory_get T m # st_log (lm_storage s)"

text \<open>The private buffer holds a stored object, at least as recent as the last one complete at the
  call of \<open>load()\<close>.\<close>

definition copied :: "ctype \<Rightarrow> mem \<Rightarrow> 'p machine \<Rightarrow> bool" where
  "copied T m s \<longleftrightarrow> lm_buf s = stored T m s ! lm_version s \<and> lm_called s \<le> lm_version s \<and>
     lm_version s \<le> length (st_log (lm_storage s)) \<and> stage_buffer (lm_swapper s) = 0"

definition fetched :: "ctype \<Rightarrow> mem \<Rightarrow> 'p machine \<Rightarrow> bool" where
  "fetched T m s \<longleftrightarrow> copied T m s \<and> lm_published s = pre_allocated_buffer (lm_swapper s)"

abbreviation staged :: "'p machine \<Rightarrow> bool" where
  "staged s \<equiv> stage_buffer (lm_swapper s) = lm_shm s"

definition task_inv :: "ctype \<Rightarrow> mem \<Rightarrow> 'p machine \<Rightarrow> bool" where
  "task_inv T m s \<longleftrightarrow>
     (case lm_task s of
        TaskStart \<Rightarrow> staged s
      | TaskLocking \<Rightarrow> staged s
      | TaskCopy k \<Rightarrow> staged s \<and> k \<le> sizeof T \<and> (\<forall>i < k. lm_buf s ! i = last_stored T m (lm_storage s) ! i)
      | TaskPublish \<Rightarrow> copied T m s \<and> lm_cell s = pre_allocated_buffer (lm_swapper s)
      | _ \<Rightarrow> fetched T m s)"

definition resting :: "'p machine \<Rightarrow> bool" where
  "resting s \<longleftrightarrow> triggered (lm_runner s) = 0 \<and> run_pc (lm_runner s) \<in> {RunLoop, RunWait}"

text \<open>The protocol between user and thread.\<close>

definition flow_inv :: "ctype \<Rightarrow> mem \<Rightarrow> 'p machine \<Rightarrow> bool" where
  "flow_inv T m s \<longleftrightarrow>
     (let r = lm_runner s
      in case lm_user s of
           UserIdle \<Rightarrow> resting s \<and> idle r \<noteq> 0 \<and> (lm_loads s = 0 \<or> fetched T m s)
         | UserStaged \<Rightarrow> resting s \<and> staged s
         | UserTriggering \<Rightarrow> resting s \<and> idle r = 0 \<and> staged s
         | UserWaiting \<Rightarrow>
             idle r = 0 \<and> triggered r \<noteq> 0 \<and> run_pc r \<in> {RunLoop, RunWait, RunCheck, RunClear} \<and> staged s \<or>
             idle r = 0 \<and> triggered r = 0 \<and> run_pc r = RunTask \<and> task_inv T m s \<or>
             triggered r = 0 \<and> run_pc r = RunIdle \<and> idle r = 0 \<and> fetched T m s \<or>
             resting s \<and> idle r \<noteq> 0 \<and> fetched T m s
         | UserAborted \<Rightarrow> False)"

definition buffers_ok :: "ctype \<Rightarrow> 'p machine \<Rightarrow> bool" where
  "buffers_ok T s \<longleftrightarrow>
     pre_allocated_buffer (lm_swapper s) \<noteq> 0 \<and> lm_shm s \<noteq> 0 \<and> pre_allocated_buffer (lm_swapper s) \<noteq> lm_shm s \<and>
     alignof T dvd pre_allocated_buffer (lm_swapper s) \<and> alignof T dvd lm_shm s \<and> length (lm_buf s) = sizeof T"

definition thread_inv :: "'p \<Rightarrow> 'p machine \<Rightarrow> bool" where
  "thread_inv th s \<longleftrightarrow> lock_phase (lm_task s) (lock_pc (thread_lock s) th) \<and> \<not> stopped (lm_runner s) \<and>
     (run_pc (lm_runner s) \<noteq> RunTask \<longrightarrow> lm_task s = TaskStart)"

definition machine_inv :: "ctype \<Rightarrow> 'p \<Rightarrow> mem \<Rightarrow> 'p machine \<Rightarrow> bool" where
  "machine_inv T th m s \<longleftrightarrow> writers_inv (- {th}) T m (lm_storage s) \<and> buffers_ok T s \<and> thread_inv th s \<and>
     flow_inv T m s \<and> lm_called s \<le> length (st_log (lm_storage s))"

lemmas machine_inv_defs = machine_inv_def buffers_ok_def thread_inv_def flow_inv_def task_inv_def resting_def
  copied_def fetched_def Let_def

section \<open>Steps of the writers\<close>

lemma lock_phase_wake: "lock_phase t Asleep \<Longrightarrow> lock_phase t SlowExch"
  by (cases t) (auto simp: in_lock_def)

lemma lock_phase_other:
  assumes "ShmLock_exec e l = Some l'" and "lock_event_by e \<noteq> th" and "queue_inv l" and "lock_phase t (lock_pc l th)"
  shows "lock_phase t (lock_pc l' th)"
  using assms lock_phase_wake [of t]
  by (cases e) (auto simp: lock_defs queue_inv_def split: if_splits)

text \<open>A writer keeps the thread where it is, and completes no store while the thread holds the lock.\<close>

lemma writer_effect:
  assumes "Storage_exec T e st = Some st'" and "storage_event_by e \<noteq> th" and "lock_inv (st_lock st)"
  shows "\<exists>xs. st_log st' = st_log st @ xs \<and> (holds_lock (st_lock st) th \<longrightarrow> xs = [])"
    and "lock_phase t (lock_pc (st_lock st) th) \<Longrightarrow> lock_phase t (lock_pc (st_lock st') th)"
proof -
  have qi: "queue_inv (st_lock st)" using assms(3) by (simp add: lock_inv_def)
  show "\<exists>xs. st_log st' = st_log st @ xs \<and> (holds_lock (st_lock st) th \<longrightarrow> xs = [])"
  proof (cases "\<exists>p. e = StoreLock (CallUnlock p)")
    case True
    then obtain p where p: "e = StoreLock (CallUnlock p)" by blast
    with assms(1) obtain l where "ShmLock_exec (CallUnlock p) (st_lock st) = Some l"
        "st_log st' = st_log st @ [st_arg st p]"
      by (auto split: option.splits if_splits)
    moreover from this(1) have "holds_lock (st_lock st) p" using lk.give [OF assms(3)] by blast
    ultimately show ?thesis
      using lk.exclusive [OF assms(3), of p th] assms(2) p by auto
  next
    case False
    then have "st_log st' = st_log st"
      using assms(1) by (cases e) (auto split: option.splits if_splits list.splits lock_event.splits)
    then show ?thesis by simp
  qed
  have "st_lock st' = st_lock st \<or> (\<exists>l. ShmLock_exec l (st_lock st) = Some (st_lock st') \<and> lock_event_by l \<noteq> th)"
  proof (cases e)
    case (StoreCall p data)
    with assms(1,2) have "ShmLock_exec (CallLock p) (st_lock st) = Some (st_lock st')"
      by (auto split: option.splits if_splits)
    with assms(2) StoreCall show ?thesis by (metis lock_event_by.simps(1) storage_event_by.simps(1))
  next
    case (StoreLock l)
    with assms(1) have "ShmLock_exec l (st_lock st) = Some (st_lock st')"
      by (auto split: option.splits if_splits lock_event.splits)
    with assms(2) StoreLock show ?thesis by auto
  next
    case (StoreCopy p)
    with assms(1) show ?thesis by (auto split: if_splits list.splits)
  qed
  then show "lock_phase t (lock_pc (st_lock st) th) \<Longrightarrow> lock_phase t (lock_pc (st_lock st') th)"
    using lock_phase_other [OF _ _ qi] by metis
qed

lemma stored_append:
  assumes "st_log st' = st_log (lm_storage s) @ xs"
  shows "copied T m s \<Longrightarrow> copied T m (s\<lparr>lm_storage := st'\<rparr>)"
    and "fetched T m s \<Longrightarrow> fetched T m (s\<lparr>lm_storage := st'\<rparr>)"
  using assms by (auto simp: copied_def fetched_def nth_Cons' nth_append)

lemma task_inv_append:
  assumes "st_log st' = st_log (lm_storage s) @ xs" and "\<forall>k. lm_task s = TaskCopy k \<longrightarrow> xs = []" and "task_inv T m s"
  shows "task_inv T m (s\<lparr>lm_storage := st'\<rparr>)"
proof (cases "lm_task s")
  case (TaskCopy k)
  with assms show ?thesis by (simp add: task_inv_def last_stored_def)
qed (use assms stored_append [OF assms(1)] in \<open>simp_all add: task_inv_def\<close>)

lemma flow_inv_append:
  assumes "st_log st' = st_log (lm_storage s) @ xs" and "\<forall>k. lm_task s = TaskCopy k \<longrightarrow> xs = []" and "flow_inv T m s"
  shows "flow_inv T m (s\<lparr>lm_storage := st'\<rparr>)"
  using assms(3) stored_append [OF assms(1), of T m] task_inv_append [OF assms(1,2), of T m]
  by (cases "lm_user s") (auto simp: flow_inv_def resting_def Let_def)

lemma machine_inv_writer:
  assumes inv: "machine_inv T th m s" and ex: "machine_exec T th (WriterStep e) s = Some s'"
  shows "machine_inv T th m s'"
proof -
  from ex obtain st' where who: "storage_event_by e \<noteq> th" and st': "Storage_exec T e (lm_storage s) = Some st'"
      and s': "s' = s\<lparr>lm_storage := st'\<rparr>"
    by (auto split: if_splits)
  have wi: "writers_inv (- {th}) T m (lm_storage s)" and li: "lock_inv (thread_lock s)"
    and phase: "lock_phase (lm_task s) (lock_pc (thread_lock s) th)"
    using inv by (auto simp: machine_inv_def thread_inv_def writers_inv_def)
  obtain xs where xs: "st_log st' = st_log (lm_storage s) @ xs" "holds_lock (thread_lock s) th \<longrightarrow> xs = []"
    using writer_effect(1) [OF st' who li] by blast
  have "writers_inv (- {th}) T m st'" using writers_inv_exec [OF wi _ st'] who by simp
  moreover have "lock_phase (lm_task s) (lock_pc (st_lock st') th)" using writer_effect(2) [OF st' who li phase] .
  moreover have "\<forall>k. lm_task s = TaskCopy k \<longrightarrow> xs = []" using phase xs(2) by auto
  then have "flow_inv T m (s\<lparr>lm_storage := st'\<rparr>)"
    using flow_inv_append [OF xs(1)] inv by (simp add: machine_inv_def)
  ultimately show ?thesis
    using inv xs(1) by (simp add: machine_inv_def buffers_ok_def thread_inv_def s')
qed

section \<open>Steps of the thread and of the user\<close>

lemma set_lock_fields [simp]:
  "lm_storage (set_lock l s) = (lm_storage s)\<lparr>st_lock := l\<rparr>" "lm_runner (set_lock l s) = lm_runner s"
  "lm_task (set_lock l s) = lm_task s" "lm_swapper (set_lock l s) = lm_swapper s" "lm_shm (set_lock l s) = lm_shm s"
  "lm_cell (set_lock l s) = lm_cell s" "lm_published (set_lock l s) = lm_published s" "lm_buf (set_lock l s) = lm_buf s"
  "lm_user (set_lock l s) = lm_user s" "lm_called (set_lock l s) = lm_called s"
  "lm_version (set_lock l s) = lm_version s" "lm_loads (set_lock l s) = lm_loads s"
  by (simp_all add: set_lock_def)

lemma flow_inv_set_lock [simp]: "flow_inv T m (set_lock l s) = flow_inv T m s"
  by (simp add: flow_inv_def task_inv_def resting_def copied_def fetched_def last_stored_def Let_def
      split: user_pos.split task_pos.split)

lemma lock_phase_inner:
  assumes "ShmLock_exec e l = Some l'" and "lock_event_by e = th" and "e \<noteq> CallLock th" and "e \<noteq> CallUnlock th"
    and "queue_inv l" and "lock_phase t (lock_pc l th)"
  shows "lock_phase t (lock_pc l' th)"
  using assms by (cases e; cases t) (auto simp: lock_defs in_lock_def queue_inv_def split: if_splits)

lemma machine_inv_lock:
  assumes inv: "machine_inv T th m s" and ex: "machine_exec T th (ThreadLock e) s = Some s'"
  shows "machine_inv T th m s'"
proof -
  from ex obtain l where e: "lock_event_by e = th" "e \<noteq> CallLock th" "e \<noteq> CallUnlock th"
      and l: "ShmLock_exec e (thread_lock s) = Some l" and s': "s' = set_lock l s"
    by (auto split: if_splits)
  have wi: "writers_inv (- {th}) T m (lm_storage s)" and qi: "queue_inv (thread_lock s)"
    using inv by (auto simp: machine_inv_def writers_inv_def lock_inv_def)
  have "writers_inv (- {th}) T m ((lm_storage s)\<lparr>st_lock := l\<rparr>)"
    by (rule writers_inv_lock_part [OF wi l]) (use e(1) in auto)
  moreover have "lock_phase (lm_task s) (lock_pc l th)"
    using lock_phase_inner [OF l e qi] inv by (simp add: machine_inv_def thread_inv_def)
  ultimately show ?thesis
    using inv by (simp add: machine_inv_def buffers_ok_def thread_inv_def s')
qed

text \<open>\<open>fetched\<close> and \<open>task_inv\<close> do not look at the runner or at the position of the user.\<close>

lemma fetched_runner_user [simp]:
  "fetched T m (s\<lparr>lm_runner := r\<rparr>) = fetched T m s" "task_inv T m (s\<lparr>lm_runner := r\<rparr>) = task_inv T m s"
  "fetched T m (s\<lparr>lm_user := u\<rparr>) = fetched T m s" "task_inv T m (s\<lparr>lm_user := u\<rparr>) = task_inv T m s"
  by (simp_all add: fetched_def copied_def task_inv_def split: task_pos.split)

lemma machine_inv_user:
  assumes inv: "machine_inv T th m s" and ex: "user_step s = Some s'"
  shows "machine_inv T th m s'"
proof -
  have buf: "buffers_ok T s" and flow: "flow_inv T m s" using inv by (simp_all add: machine_inv_def)
  have keep: "machine_inv T th m s'"
    if "lm_storage s' = lm_storage s" "lm_task s' = lm_task s" "buffers_ok T s'" "stopped (lm_runner s') = stopped (lm_runner s)"
      "run_pc (lm_runner s') = run_pc (lm_runner s)" "flow_inv T m s'" "lm_called s' \<le> length (st_log (lm_storage s))"
    using inv that by (simp add: machine_inv_def thread_inv_def)
  have called: "lm_called s \<le> length (st_log (lm_storage s))" using inv by (simp add: machine_inv_def)
  show ?thesis
  proof (cases "lm_user s")
    case UserIdle
    with ex buf have "s' = s\<lparr>lm_swapper := (lm_swapper s)\<lparr>stage_buffer := lm_shm s\<rparr>, lm_user := UserStaged,
        lm_loads := lm_loads s + 1, lm_called := length (st_log (lm_storage s))\<rparr>"
      by (simp add: user_step_def DoubleBufferSwapper_stage_def buffers_ok_def)
    with flow buf UserIdle show ?thesis
      by (intro keep) (simp_all add: flow_inv_def resting_def buffers_ok_def)
  next
    case UserStaged
    with ex have "s' = s\<lparr>lm_runner := trigger_idle (lm_runner s), lm_user := UserTriggering\<rparr>" by (simp add: user_step_def)
    with flow buf called UserStaged show ?thesis
      by (intro keep) (simp_all add: flow_inv_def resting_def buffers_ok_def trigger_idle_def)
  next
    case UserTriggering
    with ex have "s' = s\<lparr>lm_runner := trigger_set (lm_runner s), lm_user := UserWaiting\<rparr>" by (simp add: user_step_def)
    with flow buf called UserTriggering show ?thesis
      by (intro keep) (auto simp: flow_inv_def resting_def buffers_ok_def trigger_set_def)
  next
    case UserWaiting
    with ex have "s' = s\<lparr>lm_user := UserIdle\<rparr>" "idle (lm_runner s) \<noteq> 0"
      by (auto simp: user_step_def SwapRunner_wait_returns_def split: if_splits)
    with flow buf called UserWaiting show ?thesis
      by (intro keep) (simp_all add: flow_inv_def resting_def buffers_ok_def Let_def)
  next
    case UserAborted
    with flow show ?thesis by (simp add: flow_inv_def)
  qed
qed

text \<open>While the thread holds the lock the segment is the last stored object.\<close>

lemma thread_sees_stored:
  assumes "writers_inv (- {th}) T m st" and "holds_lock (st_lock st) th"
  shows "SharedMemory_get T (st_mem st) = last_stored T m st"
proof -
  have li: "lock_inv (st_lock st)" using assms(1) by (simp add: writers_inv_def)
  have "\<not> holds_lock (st_lock st) p" if "p \<in> - {th}" for p
    using lk.exclusive [OF li _ assms(2), of p] that by auto
  with assms(1) show ?thesis by (simp add: writers_inv_def)
qed

lemma last_stored_nth: "last_stored T m (lm_storage s) = stored T m s ! length (st_log (lm_storage s))"
  by (simp add: last_stored_def last_conv_nth)

lemma machine_inv_call_lock:
  assumes inv: "machine_inv T th m s" and l: "ShmLock_exec e (thread_lock s) = Some l"
    and e: "e = CallLock th \<or> e = CallUnlock th"
  shows "writers_inv (- {th}) T m ((lm_storage s)\<lparr>st_lock := l\<rparr>)"
  by (rule writers_inv_lock_part [OF _ l]) (use inv e in \<open>auto simp: machine_inv_def\<close>)

lemma task_runs:
  assumes "machine_inv T th m s" and "run_pc (lm_runner s) = RunTask"
  shows "lm_user s = UserWaiting" "idle (lm_runner s) = 0" "triggered (lm_runner s) = 0" "task_inv T m s"
proof -
  have flow: "flow_inv T m s" using assms(1) by (simp add: machine_inv_def)
  with assms(2) show user: "lm_user s = UserWaiting"
    by (cases "lm_user s") (simp_all add: flow_inv_def resting_def Let_def)
  from flow user assms(2) show "idle (lm_runner s) = 0" "triggered (lm_runner s) = 0" "task_inv T m s"
    by (simp_all add: flow_inv_def resting_def Let_def)
qed

text \<open>A step within the task, given that its parts of the invariant hold afterwards.\<close>

lemma machine_inv_task:
  assumes inv: "machine_inv T th m s" and task: "run_pc (lm_runner s) = RunTask"
    and same: "lm_runner s' = lm_runner s" "lm_user s' = lm_user s" "lm_called s' = lm_called s"
      "st_log (lm_storage s') = st_log (lm_storage s)"
    and new: "writers_inv (- {th}) T m (lm_storage s')" "buffers_ok T s'"
      "lock_phase (lm_task s') (lock_pc (thread_lock s') th)" "task_inv T m s'"
  shows "machine_inv T th m s'"
  using inv task_runs [OF inv task] task same new
  by (simp add: machine_inv_def thread_inv_def flow_inv_def Let_def)

lemma machine_inv_copy:
  assumes inv: "machine_inv T th m s" and task: "run_pc (lm_runner s) = RunTask" and k: "lm_task s = TaskCopy k"
    and ex: "task_step T th s = Some s'"
  shows "machine_inv T th m s'"
proof -
  have wi: "writers_inv (- {th}) T m (lm_storage s)" and buf: "buffers_ok T s" and hold: "holds_lock (thread_lock s) th"
    and ti: "staged s" "k \<le> sizeof T" "\<forall>i < k. lm_buf s ! i = last_stored T m (lm_storage s) ! i"
    and called: "lm_called s \<le> length (st_log (lm_storage s))"
    using inv task_runs(4) [OF inv task] k by (auto simp: machine_inv_def thread_inv_def task_inv_def)
  have mem: "SharedMemory_get T (st_mem (lm_storage s)) = last_stored T m (lm_storage s)"
    using thread_sees_stored [OF wi hold] .
  have len: "length (last_stored T m (lm_storage s)) = sizeof T"
    unfolding mem [symmetric] by (simp add: SharedMemory_get_def)
  have byte: "byte_at s (lm_shm s) i = last_stored T m (lm_storage s) ! i" if "i < sizeof T" for i
    using buf that unfolding mem [symmetric] by (simp add: byte_at_def buffers_ok_def SharedMemory_get_def)
  show ?thesis
  proof (cases "k < sizeof T")
    case True
    with ex k ti(1) have s': "s' = s\<lparr>lm_buf := (lm_buf s)[k := byte_at s (lm_shm s) k], lm_task := TaskCopy (Suc k)\<rparr>"
      by (simp add: task_step_def Let_def)
    have "task_inv T m s'"
      using True ti buf byte [OF True] by (auto simp: task_inv_def s' less_Suc_eq buffers_ok_def)
    with buf wi hold show ?thesis
      by (intro machine_inv_task [OF inv task]) (simp_all add: s' buffers_ok_def)
  next
    case False
    with ti have k': "k = sizeof T" by simp
    with ex k have s': "s' = s\<lparr>lm_cell := pre_allocated_buffer (lm_swapper s), lm_swapper := (lm_swapper s)\<lparr>stage_buffer := 0\<rparr>,
        lm_task := TaskPublish, lm_version := length (st_log (lm_storage s))\<rparr>"
      by (simp add: task_step_def Let_def)
    have "lm_buf s = last_stored T m (lm_storage s)"
      using ti(3) k' len buf by (intro nth_equalityI) (auto simp: buffers_ok_def)
    then have "task_inv T m s'"
      using called by (simp add: task_inv_def copied_def s' last_stored_nth)
    with buf wi hold show ?thesis
      by (intro machine_inv_task [OF inv task]) (simp_all add: s' buffers_ok_def)
  qed
qed

lemma machine_inv_task_step:
  assumes inv: "machine_inv T th m s" and task: "run_pc (lm_runner s) = RunTask" and ex: "task_step T th s = Some s'"
  shows "machine_inv T th m s'"
proof -
  have wi: "writers_inv (- {th}) T m (lm_storage s)" and buf: "buffers_ok T s"
    and phase: "lock_phase (lm_task s) (lock_pc (thread_lock s) th)" and ti: "task_inv T m s"
    using inv task_runs(4) [OF inv task] by (auto simp: machine_inv_def thread_inv_def)
  show ?thesis
  proof (cases "lm_task s")
    case TaskStart
    with ex obtain l where l: "ShmLock_exec (CallLock th) (thread_lock s) = Some l"
        and s': "s' = (set_lock l s)\<lparr>lm_task := TaskLocking\<rparr>"
      by (auto simp: task_step_def)
    have "in_lock (lock_pc l th)" using l by (auto simp: lock_defs in_lock_def split: if_splits)
    with machine_inv_call_lock [OF inv l] buf ti TaskStart show ?thesis
      by (intro machine_inv_task [OF inv task]) (simp_all add: s' buffers_ok_def task_inv_def)
  next
    case TaskLocking
    have "swap_asserts T (lm_swapper s)"
      using buf ti TaskLocking by (auto simp: swap_asserts_def buffers_ok_def task_inv_def mod_eq_0_iff_dvd)
    with ex TaskLocking have hold: "holds_lock (thread_lock s) th" and s': "s' = s\<lparr>lm_task := TaskCopy 0\<rparr>"
      by (auto simp: task_step_def at_def split: if_splits)
    with wi buf ti TaskLocking show ?thesis
      by (intro machine_inv_task [OF inv task]) (simp_all add: buffers_ok_def task_inv_def)
  next
    case (TaskCopy k)
    show ?thesis by (rule machine_inv_copy [OF inv task TaskCopy ex])
  next
    case TaskPublish
    with ex have s': "s' = s\<lparr>lm_published := lm_cell s, lm_task := TaskPublished\<rparr>" by (simp add: task_step_def)
    with wi buf ti phase TaskPublish show ?thesis
      by (intro machine_inv_task [OF inv task]) (simp_all add: buffers_ok_def task_inv_def fetched_def copied_def)
  next
    case TaskPublished
    with ex obtain l where l: "ShmLock_exec (CallUnlock th) (thread_lock s) = Some l"
        and s': "s' = (set_lock l s)\<lparr>lm_task := TaskUnlocking\<rparr>"
      by (auto simp: task_step_def)
    have "lock_pc l th = AboutToWake" using l by (auto simp: lock_defs split: if_splits)
    with machine_inv_call_lock [OF inv l] buf ti TaskPublished show ?thesis
      by (intro machine_inv_task [OF inv task]) (simp_all add: s' buffers_ok_def task_inv_def fetched_def copied_def)
  next
    case TaskUnlocking
    with ex have out: "lock_pc (thread_lock s) th = Outside"
        and s': "s' = s\<lparr>lm_task := TaskStart, lm_runner := (lm_runner s)\<lparr>run_pc := RunIdle\<rparr>\<rparr>"
      by (auto simp: task_step_def at_def split: if_splits)
    have "fetched T m s'" using ti TaskUnlocking by (simp add: task_inv_def fetched_def copied_def s')
    then show ?thesis
      using inv task_runs(1-3) [OF inv task] out
      by (simp add: machine_inv_def buffers_ok_def thread_inv_def flow_inv_def s' Let_def)
  qed
qed

lemma resting_step:
  assumes "resting s" and "SwapRunner_run task (lm_runner s) = Some r" and "\<not> stopped (lm_runner s)"
  shows "r = (lm_runner s)\<lparr>run_pc := RunWait\<rparr>"
  using assms by (auto simp: resting_def SwapRunner_run_def split: if_splits)

lemma machine_inv_thread:
  assumes inv: "machine_inv T th m s" and ex: "thread_step T th s = Some s'"
  shows "machine_inv T th m s'"
proof (cases "run_pc (lm_runner s) = RunTask")
  case True
  with assms show ?thesis by (auto simp: thread_step_def intro: machine_inv_task_step)
next
  case no_task: False
  with ex obtain r where r: "SwapRunner_run TaskReturns (lm_runner s) = Some r" and s': "s' = s\<lparr>lm_runner := r\<rparr>"
    by (auto simp: thread_step_def)
  have start: "lm_task s = TaskStart" and go: "\<not> stopped (lm_runner s)" and flow: "flow_inv T m s"
    using inv no_task by (simp_all add: machine_inv_def thread_inv_def)
  have "flow_inv T m (s\<lparr>lm_runner := r\<rparr>) \<and> \<not> stopped r"
  proof (cases "lm_user s = UserWaiting")
    case False
    then have "resting s" using flow by (cases "lm_user s") (simp_all add: flow_inv_def)
    then have "r = (lm_runner s)\<lparr>run_pc := RunWait\<rparr>" by (rule resting_step [OF _ r go])
    with False flow go \<open>resting s\<close> show ?thesis by (cases "lm_user s") (simp_all add: flow_inv_def resting_def)
  next
    case True
    then consider (before) "idle (lm_runner s) = 0" "triggered (lm_runner s) \<noteq> 0"
          "run_pc (lm_runner s) \<in> {RunLoop, RunWait, RunCheck, RunClear}" "staged s"
      | (after) "triggered (lm_runner s) = 0" "run_pc (lm_runner s) = RunIdle" "fetched T m s"
      | (rest) "resting s" "idle (lm_runner s) \<noteq> 0" "fetched T m s"
      using flow no_task by (auto simp: flow_inv_def Let_def)
    then show ?thesis
    proof cases
      case before
      from before(3) consider "run_pc (lm_runner s) = RunLoop" | "run_pc (lm_runner s) = RunWait"
        | "run_pc (lm_runner s) = RunCheck" | "run_pc (lm_runner s) = RunClear" by blast
      then have "r = (lm_runner s)\<lparr>run_pc := RunWait\<rparr> \<or> r = (lm_runner s)\<lparr>run_pc := RunCheck\<rparr> \<or>
          r = (lm_runner s)\<lparr>run_pc := RunClear\<rparr> \<or> r = (lm_runner s)\<lparr>triggered := 0, run_pc := RunTask\<rparr>"
        by cases (use r go before(2) in \<open>simp_all add: SwapRunner_run_def\<close>)
      with True before go start show ?thesis
        by (elim disjE) (simp_all add: flow_inv_def task_inv_def)
    next
      case after
      then have "r = (lm_runner s)\<lparr>idle := 1, run_pc := RunLoop\<rparr>" using r by (simp add: SwapRunner_run_def)
      with True after go show ?thesis by (simp add: flow_inv_def resting_def)
    next
      case rest
      then have "r = (lm_runner s)\<lparr>run_pc := RunWait\<rparr>" by (intro resting_step [OF _ r go])
      with True rest go show ?thesis by (simp add: flow_inv_def resting_def Let_def)
    qed
  qed
  with inv start show ?thesis
    by (simp add: machine_inv_def buffers_ok_def thread_inv_def s')
qed

section \<open>Reachable states\<close>

lemma machine_inv_new:
  assumes "storage_reachable T m st" and "at (st_lock st) th Outside" and "shm \<noteq> pre" "alignof T dvd shm" "alignof T dvd pre"
    and "machine_new T shm pre slot st = Inr s" and "length (value_init T) = sizeof T"
  shows "machine_inv T th m s"
proof -
  have inv: "storage_inv T m st" using assms(1) by (rule storage_inv_reachable)
  have s: "pre \<noteq> 0" "shm \<noteq> 0" "s = \<lparr>lm_storage = st, lm_runner = SwapRunner_new (), lm_task = TaskStart,
      lm_swapper = \<lparr>active_buffer = slot, pre_allocated_buffer = pre, stage_buffer = 0\<rparr>,
      lm_shm = shm, lm_cell = shm, lm_published = shm, lm_buf = value_init T,
      lm_user = UserIdle, lm_called = 0, lm_version = 0, lm_loads = 0\<rparr>"
    using assms(6) by (auto simp: machine_new_def DoubleBufferSwapper_new_def split: if_splits)
  have "writers_inv (- {th}) T m st"
    unfolding writers_inv_def
  proof (intro conjI impI)
    assume "\<forall>p \<in> - {th}. \<not> holds_lock (st_lock st) p"
    then have "\<forall>p. \<not> holds_lock (st_lock st) p" using assms(2) by (auto simp: at_def)
    with inv show "SharedMemory_get T (st_mem st) = last_stored T m st" by (simp add: writers_inv_def)
  qed (use inv in \<open>simp_all add: writers_inv_def\<close>)
  with s assms(2-5,7) show ?thesis
    by (simp add: machine_inv_def buffers_ok_def thread_inv_def flow_inv_def resting_def SwapRunner_new_def at_def)
qed

lemma machine_inv_reachable:
  "machine_reachable T th m s \<Longrightarrow> length (value_init T) = sizeof T \<Longrightarrow> machine_inv T th m s"
proof (induction rule: machine_reachable.induct)
  case (init st shm pre slot s)
  then show ?case by (rule machine_inv_new)
next
  case (step s e s')
  then have inv: "machine_inv T th m s" by simp
  show ?case
  proof (cases e)
    case UserStep
    with step inv show ?thesis by (auto intro: machine_inv_user)
  next
    case ThreadStep
    with step inv show ?thesis by (auto intro: machine_inv_thread)
  next
    case (ThreadLock l)
    show ?thesis by (rule machine_inv_lock [OF inv step(2) [unfolded ThreadLock]])
  next
    case (WriterStep w)
    show ?thesis by (rule machine_inv_writer [OF inv step(2) [unfolded WriterStep]])
  qed
qed

section \<open>Properties\<close>

text \<open>
  C11. Snapshots are complete objects. For any number of writers, any interleaving of their accesses
  with those of the loader's thread, and any number of rounds of \<open>load()\<close> and \<open>wait()\<close>, in turns: no assertion
  of the loader fails, in the thread or in \<open>load()\<close>, and whenever \<open>wait()\<close> has returned the snapshot reads, unmixed, the object of
  some completed store (or what the segment held before any), no older than the last store that was
  complete when \<open>load()\<close> was called.
\<close>

theorem loader_snapshot_untorn:
  assumes "machine_reachable T th m s" and "wf_ctype T"
  shows "run_pc (lm_runner s) \<noteq> RunAborted \<and> lm_user s \<noteq> UserAborted \<and>
    (lm_user s = UserIdle \<and> 0 < lm_loads s \<longrightarrow>
       machine_snapshot T s = Inr ((SharedMemory_get T m # st_log (lm_storage s)) ! lm_version s) \<and>
       lm_called s \<le> lm_version s \<and> lm_version s \<le> length (st_log (lm_storage s)))"
proof (intro conjI impI)
  have inv: "machine_inv T th m s" using machine_inv_reachable [OF assms(1) wf_ctypeD(4) [OF assms(2)]] .
  then have flow: "flow_inv T m s" and buf: "buffers_ok T s" by (simp_all add: machine_inv_def)
  show "run_pc (lm_runner s) \<noteq> RunAborted"
    using flow by (cases "lm_user s") (auto simp: flow_inv_def resting_def Let_def)
  show "lm_user s \<noteq> UserAborted"
    using flow by (auto simp: flow_inv_def)
  assume idle: "lm_user s = UserIdle \<and> 0 < lm_loads s"
  then have f: "fetched T m s" using flow by (simp add: flow_inv_def Let_def)
  then show "lm_called s \<le> lm_version s" "lm_version s \<le> length (st_log (lm_storage s))"
    by (simp_all add: fetched_def copied_def)
  have "map (byte_at s (lm_published s)) [0..<sizeof T] = lm_buf s"
    using f buf by (auto simp: fetched_def byte_at_def buffers_ok_def intro!: nth_equalityI)
  with f buf show "machine_snapshot T s = Inr ((SharedMemory_get T m # st_log (lm_storage s)) ! lm_version s)"
    by (simp add: machine_snapshot_def fetched_def copied_def buffers_ok_def)
qed

section \<open>Concrete runs\<close>

fun machine_run :: "ctype \<Rightarrow> 'p \<Rightarrow> 'p machine_event list \<Rightarrow> 'p machine \<Rightarrow> 'p machine option" where
  "machine_run T th [] s = Some s"
| "machine_run T th (e # es) s = (case machine_exec T th e s of None \<Rightarrow> None | Some s' \<Rightarrow> machine_run T th es s')"

lemma machine_run_reachable:
  "machine_reachable T th m s \<Longrightarrow> machine_run T th es s = Some s' \<Longrightarrow> machine_reachable T th m s'"
  by (induction es arbitrary: s) (auto split: option.splits intro: machine_reachable.step)

lemma machine_run_append:
  "machine_run T th (xs @ ys) s = (case machine_run T th xs s of None \<Rightarrow> None | Some s' \<Rightarrow> machine_run T th ys s')"
  by (induction xs arbitrary: s) (auto split: option.split)

text \<open>Process 0 stores objects of two bytes, process 1 is the thread.\<close>

abbreviation pair_type :: ctype where
  "pair_type \<equiv> flat 2 1"

definition store_events :: "byte list \<Rightarrow> nat machine_event list" where
  "store_events d = map WriterStep [StoreCall 0 d, StoreLock (Fast 0), StoreCopy 0, StoreCopy 0,
     StoreLock (CallUnlock 0), StoreLock (WakeNone 0)]"

text \<open>\<open>load()\<close>, and the thread up to the first byte of the copy.\<close>

definition load_events :: "nat machine_event list" where
  "load_events = [UserStep, UserStep, UserStep, ThreadStep, ThreadStep, ThreadStep, ThreadStep,
     ThreadStep, ThreadLock (Fast 1), ThreadStep, ThreadStep]"

text \<open>The rest of the task, and the return of \<open>wait()\<close>.\<close>

definition finish_events :: "nat machine_event list" where
  "finish_events = [ThreadStep, ThreadStep, ThreadStep, ThreadStep, ThreadLock (WakeNone 1), ThreadStep, ThreadStep, UserStep]"

definition machine_demo0 :: "nat machine" where
  "machine_demo0 = \<lparr>lm_storage = storage_init zero_mem, lm_runner = SwapRunner_new (), lm_task = TaskStart,
     lm_swapper = \<lparr>active_buffer = 3, pre_allocated_buffer = 2, stage_buffer = 0\<rparr>,
     lm_shm = 1, lm_cell = 1, lm_published = 1, lm_buf = [0, 0], lm_user = UserIdle,
     lm_called = 0, lm_version = 0, lm_loads = 0\<rparr>"

lemma machine_demo0_reachable: "machine_reachable pair_type 1 zero_mem machine_demo0"
proof (rule machine_reachable.init [of _ _ "storage_init zero_mem" _ 1 2 3])
  show "machine_new pair_type 1 2 3 (storage_init zero_mem) = Inr machine_demo0"
    by (simp add: machine_new_def DoubleBufferSwapper_new_def machine_demo0_def eval_nat_numeral)
  show "storage_reachable pair_type zero_mem (storage_init zero_mem)" by (rule storage_reachable.init)
qed (simp_all add: storage_init_def lock_init_def at_def)

lemmas machine_simps = task_step_def thread_step_def user_step_def set_lock_def lock_defs Let_def
  SwapRunner_run_def SwapRunner_new_def trigger_idle_def trigger_set_def SwapRunner_wait_returns_def
  DoubleBufferSwapper_stage_def swap_asserts_def byte_at_def storage_init_def lock_init_def

lemma pair_zero: "SharedMemory_get pair_type zero_mem = [0, 0]"
  by (simp add: SharedMemory_get_def numeral_2_eq_2)

text \<open>One round: store, load, wait.\<close>

lemma machine_demo_round:
  "\<exists>s. machine_run pair_type 1 (store_events [7, 7] @ load_events @ finish_events) machine_demo0 = Some s \<and>
     lm_user s = UserIdle \<and> lm_loads s = 1 \<and> lm_version s = 1 \<and> st_log (lm_storage s) = [[7, 7]]"
  by (simp add: store_events_def load_events_def finish_events_def machine_demo0_def machine_simps)

theorem loader_snapshot_untorn_witness:
  "\<exists>s. machine_run pair_type 1 (store_events [7, 7] @ load_events @ finish_events) machine_demo0 = Some s \<and>
     machine_snapshot pair_type s = Inr [7, 7]"
proof -
  obtain s where s: "machine_run pair_type 1 (store_events [7, 7] @ load_events @ finish_events) machine_demo0 = Some s"
      "lm_user s = UserIdle" "lm_loads s = 1" "lm_version s = 1" "st_log (lm_storage s) = [[7, 7]]"
    using machine_demo_round by blast
  have "wf_ctype pair_type" by (simp add: wf_ctype_def) code_simp
  from loader_snapshot_untorn [OF machine_run_reachable [OF machine_demo0_reachable s(1)] this] s show ?thesis
    by simp
qed

text \<open>
  The guarantee ends with the next \<open>load()\<close>: its task copies into the one private buffer, which the
  snapshot of the previous round leads to. Between \<open>load()\<close> and the return of \<open>wait()\<close> a snapshot
  can read an object that was never stored.
\<close>

theorem loader_snapshot_torn_before_wait:
  "\<exists>s. machine_reachable pair_type (1 :: nat) zero_mem s \<and> lm_user s = UserWaiting \<and>
     machine_snapshot pair_type s = Inr [9, 7] \<and>
     [9, 7] \<notin> set (SharedMemory_get pair_type zero_mem # st_log (lm_storage s))"
proof -
  let ?es = "store_events [7, 7] @ load_events @ finish_events @ store_events [9, 9] @ load_events"
  have "\<exists>s. machine_run pair_type 1 ?es machine_demo0 = Some s \<and> lm_user s = UserWaiting \<and> lm_published s = 2 \<and>
      pre_allocated_buffer (lm_swapper s) = 2 \<and> lm_buf s = [9, 7] \<and> st_log (lm_storage s) = [[7, 7], [9, 9]]"
    by (simp add: store_events_def load_events_def finish_events_def machine_demo0_def machine_simps)
  then obtain s where s: "machine_run pair_type 1 ?es machine_demo0 = Some s" "lm_user s = UserWaiting" "lm_published s = 2"
      "pre_allocated_buffer (lm_swapper s) = 2" "lm_buf s = [9, 7]" "st_log (lm_storage s) = [[7, 7], [9, 9]]"
    by blast
  have "machine_snapshot pair_type s = Inr [9, 7]"
    using s by (simp add: machine_snapshot_def byte_at_def upt_rec)
  moreover have "[9, 7] \<notin> set (SharedMemory_get pair_type zero_mem # st_log (lm_storage s))"
    using s(6) pair_zero by simp
  ultimately show ?thesis
    using machine_run_reachable [OF machine_demo0_reachable s(1)] s(2) by blast
qed

text \<open>
  The destructor of a loader joins its own thread, so that one does not hold the lock; but a writer
  may. \<open>lock_.destroy()\<close> then frees the lock under it and a second writer enters beside the first.
\<close>

theorem loader_destructor_breaks_exclusion:
  "\<exists>s s1 s2 l. machine_reachable pair_type (1 :: nat) zero_mem s \<and> lm_user s = UserIdle \<and>
     machine_run pair_type 1 [ThreadStep, ThreadStep] (machine_request_stop s) = Some s1 \<and>
     machine_destroy s1 = Some s2 \<and> ShmLock_exec (Fast 2) (thread_lock s2) = Some l \<and>
     at l 0 Critical \<and> at l 2 Critical"
proof -
  let ?es = "map WriterStep [StoreCall 0 [7, 7], StoreLock (Fast 0), StoreCall 2 [9, 9]]"
  obtain s where s: "machine_run pair_type 1 ?es machine_demo0 = Some s"
      "s = machine_demo0\<lparr>lm_storage := (lm_storage s)\<rparr>" "lock_pc (thread_lock s) 0 = Critical" "lock_pc (thread_lock s) 2 = FastExch"
    by (simp add: machine_demo0_def machine_simps)
  let ?s1 = "s\<lparr>lm_runner := (SwapRunner_new ())\<lparr>stopped := True, triggered := 1, run_pc := RunDone\<rparr>\<rparr>"
  have "lm_runner s = SwapRunner_new ()" "lm_user s = UserIdle"
    using s(2) by (metis machine.select_convs machine.update_convs(1) machine_demo0_def)+
  then have "machine_run pair_type 1 [ThreadStep, ThreadStep] (machine_request_stop s) = Some ?s1"
    by (simp add: machine_request_stop_def SwapRunner_request_stop_def machine_simps)
  moreover have "machine_destroy ?s1 = Some (set_lock (ShmLock_destroy (thread_lock s)) ?s1)"
    by (simp add: machine_destroy_def)
  moreover have "ShmLock_exec (Fast 2) (ShmLock_destroy (thread_lock s)) =
      Some (lock_exchange 2 SlowExch (ShmLock_destroy (thread_lock s)))"
    using s(4) by (simp add: at_def ShmLock_destroy_def)
  moreover have "at (lock_exchange 2 SlowExch (ShmLock_destroy (thread_lock s))) 0 Critical"
      "at (lock_exchange 2 SlowExch (ShmLock_destroy (thread_lock s))) 2 Critical"
    using s(3) by (simp_all add: lock_defs ShmLock_destroy_def)
  ultimately show ?thesis
    using machine_run_reachable [OF machine_demo0_reachable s(1)] \<open>lm_user s = UserIdle\<close>
    by (intro exI [of _ s] exI [of _ ?s1] exI [of _ "set_lock (ShmLock_destroy (thread_lock s)) ?s1"]
        exI [of _ "lock_exchange 2 SlowExch (ShmLock_destroy (thread_lock s))"])
      (simp del: machine_run.simps ShmLock_exec.simps)
qed

end
