(* ===== verification/Shm_Lifecycle.thy ===== *)
theory Shm_Lifecycle
  imports Stamped
begin

text \<open>
  \<^verbatim>\<open>shm_lifecycle.hpp\<close>: queries on the directory of segments, the liveness header, and the
  segment with header and object that its writer owns. The directory \<^verbatim>\<open>/dev/shm\<close>, the answer of
  \<open>kill(pid, 0)\<close> and of \<open>clock_gettime\<close> are parameters.
\<close>

section \<open>The directory of segments\<close>

text \<open>\<open>dir_entries\<close> is what \<open>readdir\<close> yields, in its order: the files and the two entries \<open>.\<close>
  and \<open>..\<close>. \<open>dir_opens\<close> says whether \<open>opendir\<close> succeeds and \<open>dir_unlinks\<close> whether the caller
  is allowed to unlink a file.\<close>

record shm_dir =
  dir_opens :: bool
  dir_entries :: "string list"
  dir_unlinks :: "string \<Rightarrow> bool"

text \<open>A path that names an entry of the directory, as the C functions resolve it (for names
  without a further \<open>/\<close>). The bare directory path is one that \<open>stat\<close> accepts too.\<close>

definition path_entry :: "shm_dir \<Rightarrow> string \<Rightarrow> string option" where
  "path_entry d path =
     (if path \<in> set (map (\<lambda>n. ''/dev/shm/'' @ n) (dir_entries d)) then Some (drop 9 path) else None)"

definition shm_exists :: "shm_dir \<Rightarrow> string \<Rightarrow> bool" where
  "shm_exists d name =
     (let path = ''/dev/shm/'' @ name in path = ''/dev/shm/'' \<or> path_entry d path \<noteq> None)"

definition shm_remove :: "string \<Rightarrow> shm_dir \<Rightarrow> bool \<times> shm_dir" where
  "shm_remove name d =
     (let path = ''/dev/shm/'' @ name
      in case path_entry d path of
           None \<Rightarrow> (False, d)
         | Some n \<Rightarrow>
             if n = ''.'' \<or> n = ''..'' \<or> \<not> dir_unlinks d n then (False, d)
             else (True, d\<lparr>dir_entries := removeAll n (dir_entries d)\<rparr>))"

fun starts_with :: "string \<Rightarrow> string \<Rightarrow> bool" where
  "starts_with name [] = True"
| "starts_with [] (c # cs) = False"
| "starts_with (x # xs) (c # cs) = (x = c \<and> starts_with xs cs)"

fun shm_list_loop :: "string \<Rightarrow> string list \<Rightarrow> string list \<Rightarrow> string list" where
  "shm_list_loop prefix [] result = result"
| "shm_list_loop prefix (name # entries) result =
     (if name = ''.'' \<or> name = ''..'' then shm_list_loop prefix entries result
      else if prefix = [] \<or> starts_with name prefix then shm_list_loop prefix entries (result @ [name])
      else shm_list_loop prefix entries result)"

definition shm_list :: "shm_dir \<Rightarrow> string \<Rightarrow> string list" where
  "shm_list d prefix = (if \<not> dir_opens d then [] else shm_list_loop prefix (dir_entries d) [])"

section \<open>The header\<close>

record ShmHeader =
  magic :: u32
  version :: u32
  heartbeat_ns :: u64
  writer_pid :: "32 word"
  reserved :: "byte list"

definition SHM_HEADER_MAGIC :: u32 where
  "SHM_HEADER_MAGIC = 0x53484D48"

definition SHM_HEADER_VERSION :: u32 where
  "SHM_HEADER_VERSION = 1"

text \<open>\<open>sizeof(ShmHeader)\<close>, and the members at the offsets the ABI gives them.\<close>

definition ShmHeader_size :: nat where
  "ShmHeader_size = 32"

definition read_header :: "mem \<Rightarrow> ShmHeader" where
  "read_header m = \<lparr>magic = load_u32 m 0, version = load_u32 m 4, heartbeat_ns = load_u64 m 8,
     writer_pid = load_u32 m 16, reserved = load_bytes m 20 12\<rparr>"

datatype kill_rc = KillOk | KillESRCH | KillEPERM

text \<open>\<open>kill\<close> is the kernel's answer to signal 0 for a process id and \<open>now\<close> the clock's.\<close>

definition is_writer_alive :: "(32 word \<Rightarrow> kill_rc) \<Rightarrow> timespec \<Rightarrow> ShmHeader \<Rightarrow> u64 \<Rightarrow> bool" where
  "is_writer_alive kill now header max_stale_ns =
     (if magic header \<noteq> SHM_HEADER_MAGIC then False
      else if kill (writer_pid header) \<noteq> KillOk then False
      else if max_stale_ns > 0 then
        let now_ns = word_of_int (tv_sec now) * 1000000000 + word_of_int (tv_nsec now)
        in \<not> (now_ns - heartbeat_ns header > max_stale_ns)
      else True)"

section \<open>Owned segments\<close>

definition OwnedShm_header_offset :: nat where
  "OwnedShm_header_offset = 0"

definition OwnedShm_data_offset :: "ctype \<Rightarrow> nat" where
  "OwnedShm_data_offset T = align_up ShmHeader_size (alignof T)"

definition OwnedShm_total_size :: "ctype \<Rightarrow> nat" where
  "OwnedShm_total_size T = OwnedShm_data_offset T + sizeof T"

definition OwnedShm_update_heartbeat :: "timespec \<Rightarrow> mem \<Rightarrow> mem" where
  "OwnedShm_update_heartbeat now m =
     store_u64 (word_of_int (tv_sec now) * 1000000000 + word_of_int (tv_nsec now)) (OwnedShm_header_offset + 8) m"

text \<open>The body of the constructor, on the segment it has just mapped.\<close>

definition OwnedShm_construct :: "ctype \<Rightarrow> 32 word \<Rightarrow> timespec \<Rightarrow> mem \<Rightarrow> mem" where
  "OwnedShm_construct T pid now m =
     (let m = store_u32 SHM_HEADER_MAGIC OwnedShm_header_offset m;
          m = store_u32 SHM_HEADER_VERSION (OwnedShm_header_offset + 4) m;
          m = store_u32 pid (OwnedShm_header_offset + 16) m;
          m = store_bytes (replicate 12 0) (OwnedShm_header_offset + 20) m;
          m = OwnedShm_update_heartbeat now m
      in store_bytes (replicate (sizeof T) 0) (OwnedShm_data_offset T) m)"

definition OwnedShm_header :: "mem \<Rightarrow> ShmHeader" where
  "OwnedShm_header m = read_header m"

definition OwnedShm_data :: "ctype \<Rightarrow> mem \<Rightarrow> byte list" where
  "OwnedShm_data T m = load_bytes m (OwnedShm_data_offset T) (sizeof T)"

section \<open>Directory lemmas\<close>

lemma starts_with_iff: "starts_with name p \<longleftrightarrow> take (length p) name = p"
  by (induction name p rule: starts_with.induct) auto

lemma shm_list_loop_eq:
  "shm_list_loop prefix es result =
     result @ filter (\<lambda>n. n \<noteq> ''.'' \<and> n \<noteq> ''..'' \<and> starts_with n prefix) es"
  by (induction prefix es result rule: shm_list_loop.induct) auto

lemma path_entry_name: "path_entry d (''/dev/shm/'' @ n) = (if n \<in> set (dir_entries d) then Some n else None)"
  by (auto simp: path_entry_def)

lemma shm_exists_iff: "shm_exists d n \<longleftrightarrow> n = [] \<or> n \<in> set (dir_entries d)"
  unfolding shm_exists_def Let_def path_entry_name by simp

lemma shm_remove_eq:
  "shm_remove n d =
     (if n \<in> set (dir_entries d) \<and> n \<noteq> ''.'' \<and> n \<noteq> ''..'' \<and> dir_unlinks d n
      then (True, d\<lparr>dir_entries := removeAll n (dir_entries d)\<rparr>) else (False, d))"
  unfolding shm_remove_def Let_def path_entry_name by simp

lemma shm_list_eq:
  "dir_opens d \<Longrightarrow> shm_list d prefix = filter (\<lambda>n. n \<noteq> ''.'' \<and> n \<noteq> ''..'' \<and> starts_with n prefix) (dir_entries d)"
  by (simp add: shm_list_def shm_list_loop_eq)

section \<open>Properties\<close>

text \<open>
  The three queries agree with each other. For every non-empty name other than the two
  directory entries, \<open>shm_list\<close> contains it exactly when \<open>shm_exists\<close> holds and it has the prefix, in the
  directory's order; \<open>shm_remove\<close> reports success exactly when the segment existed and may be
  unlinked, after which it no longer exists, and it changes nothing else.
\<close>

theorem shm_directory_consistent:
  assumes "dir_opens d" and "name \<noteq> []" and "name \<noteq> ''.''" and "name \<noteq> ''..''" and "shm_remove name d = (removed, d')"
  shows "(name \<in> set (shm_list d prefix)) = (shm_exists d name \<and> take (length prefix) name = prefix) \<and>
         removed = (shm_exists d name \<and> dir_unlinks d name) \<and>
         shm_exists d' other = (shm_exists d other \<and> \<not> (removed \<and> other = name)) \<and>
         shm_list d' prefix = (if removed then removeAll name (shm_list d prefix) else shm_list d prefix)"
proof (cases "name \<in> set (dir_entries d) \<and> dir_unlinks d name")
  case True
  with assms have "removed" "d' = d\<lparr>dir_entries := removeAll name (dir_entries d)\<rparr>"
    by (auto simp: shm_remove_eq)
  with True assms show ?thesis
    by (auto simp: shm_list_eq shm_exists_iff starts_with_iff removeAll_filter_not_eq intro: filter_cong)
next
  case False
  with assms have "\<not> removed" "d' = d" by (auto simp: shm_remove_eq split: if_splits)
  with False assms show ?thesis by (auto simp: shm_list_eq shm_exists_iff starts_with_iff)
qed

lemma owned_layout:
  assumes "wf_ctype T"
  shows "32 \<le> OwnedShm_data_offset T" and "alignof T dvd OwnedShm_data_offset T"
  using wf_ctypeD [OF assms] align_up_ge [of "alignof T" 32] dvd_align_up [of "alignof T" 32]
  by (simp_all add: OwnedShm_data_offset_def ShmHeader_size_def)

lemma header_of_construct:
  assumes "wf_ctype T"
  shows "OwnedShm_header (OwnedShm_construct T pid now m) =
     \<lparr>magic = SHM_HEADER_MAGIC, version = SHM_HEADER_VERSION, heartbeat_ns = monotonic_now_ns now,
      writer_pid = pid, reserved = replicate 12 0\<rparr>"
proof -
  show ?thesis
    using owned_layout(1) [OF assms]
    by (simp add: OwnedShm_header_def read_header_def OwnedShm_construct_def OwnedShm_update_heartbeat_def
        OwnedShm_header_offset_def monotonic_now_ns_def mem_simps disjoint_range_def Let_def)
qed

lemma header_of_heartbeat:
  "OwnedShm_header (OwnedShm_update_heartbeat later m) = (OwnedShm_header m)\<lparr>heartbeat_ns := monotonic_now_ns later\<rparr>"
  by (simp add: OwnedShm_header_def read_header_def OwnedShm_update_heartbeat_def OwnedShm_header_offset_def
      monotonic_now_ns_def mem_simps disjoint_range_def)

lemma data_of_heartbeat:
  assumes "wf_ctype T"
  shows "OwnedShm_data T (OwnedShm_update_heartbeat later m) = OwnedShm_data T m"
proof -
  have "disjoint_range 8 8 (OwnedShm_data_offset T) (sizeof T)"
    using owned_layout(1) [OF assms] by (simp add: disjoint_range_def)
  then show ?thesis
    by (simp add: OwnedShm_data_def OwnedShm_update_heartbeat_def OwnedShm_header_offset_def mem_simps)
qed

text \<open>Assignment to \<open>data()\<close>.\<close>

lemma owned_assign:
  assumes "wf_ctype T" and "object_of T bs"
  shows "OwnedShm_header (store_bytes bs (OwnedShm_data_offset T) m) = OwnedShm_header m"
    and "OwnedShm_data T (store_bytes bs (OwnedShm_data_offset T) m) = bs"
  using owned_layout(1) [OF assms(1)] assms(2)
  by (simp_all add: OwnedShm_header_def read_header_def OwnedShm_data_def object_of_def mem_simps disjoint_range_def)

text \<open>
  Construction and heartbeat: whatever the mapped bytes were, the constructor leaves a header
  with the magic number, the version, the writer's process id and the time of construction, and a
  zeroed object; a later \<open>update_heartbeat\<close> changes the heartbeat and nothing else of the header
  or the object; all of it stays inside \<open>total_size\<close> with the object aligned.
\<close>

theorem owned_shm_header:
  assumes "wf_ctype T" and "m' = OwnedShm_construct T pid now m"
  shows "OwnedShm_header m' = \<lparr>magic = SHM_HEADER_MAGIC, version = SHM_HEADER_VERSION,
           heartbeat_ns = monotonic_now_ns now, writer_pid = pid, reserved = replicate 12 0\<rparr> \<and>
         OwnedShm_data T m' = replicate (sizeof T) 0 \<and>
         OwnedShm_header (OwnedShm_update_heartbeat later m')
           = (OwnedShm_header m')\<lparr>heartbeat_ns := monotonic_now_ns later\<rparr> \<and>
         OwnedShm_data T (OwnedShm_update_heartbeat later m') = OwnedShm_data T m' \<and>
         ShmHeader_size \<le> OwnedShm_data_offset T \<and> alignof T dvd OwnedShm_data_offset T \<and>
         OwnedShm_data_offset T + sizeof T = OwnedShm_total_size T"
proof -
  note hb = header_of_heartbeat [of later m']
  have "OwnedShm_data T (OwnedShm_update_heartbeat later m') = OwnedShm_data T m'" by (rule data_of_heartbeat [OF assms(1)])
  moreover have "OwnedShm_data T m' = replicate (sizeof T) 0"
    by (simp add: assms(2) OwnedShm_data_def OwnedShm_construct_def mem_simps Let_def)
  ultimately show ?thesis
    using hb header_of_construct [OF assms(1)] owned_layout [OF assms(1)]
    by (simp add: assms(2) ShmHeader_size_def OwnedShm_total_size_def)
qed

text \<open>
  \<open>is_writer_alive\<close> on the header of an owned segment, when the clock reading is not earlier
  than the heartbeat: true exactly when the process can be signalled and, if a bound is given,
  the heartbeat is at most that old. A header with another magic number is never alive.
\<close>

theorem writer_alive_exact:
  assumes "wf_ctype T" and "h = OwnedShm_header (OwnedShm_construct T pid beat m)"
    and "0 \<le> tv_sec beat" "0 \<le> tv_nsec beat" "0 \<le> tv_sec now" "0 \<le> tv_nsec now"
    and "tv_sec beat * 1000000000 + tv_nsec beat \<le> tv_sec now * 1000000000 + tv_nsec now"
    and "tv_sec now * 1000000000 + tv_nsec now < 2 ^ 64"
  shows "is_writer_alive kill now h max_stale_ns =
           (kill pid = KillOk \<and>
            (max_stale_ns = 0 \<or>
             (tv_sec now * 1000000000 + tv_nsec now) - (tv_sec beat * 1000000000 + tv_nsec beat) \<le> uint max_stale_ns)) \<and>
         (x \<noteq> SHM_HEADER_MAGIC \<longrightarrow> \<not> is_writer_alive kill now (h\<lparr>magic := x\<rparr>) max_stale_ns)"
proof -
  have b: "uint (monotonic_now_ns beat) = tv_sec beat * 1000000000 + tv_nsec beat"
    using assms by (intro uint_monotonic_now_ns) auto
  have n: "uint (monotonic_now_ns now) = tv_sec now * 1000000000 + tv_nsec now"
    using assms by (intro uint_monotonic_now_ns) auto
  have "monotonic_now_ns beat \<le> monotonic_now_ns now"
    using b n assms(7) by (simp add: word_le_def)
  then have d: "uint (monotonic_now_ns now - monotonic_now_ns beat)
      = (tv_sec now * 1000000000 + tv_nsec now) - (tv_sec beat * 1000000000 + tv_nsec beat)"
    using b n by (simp add: word_le_def uint_sub_if')
  have "is_writer_alive kill now h max_stale_ns =
      (kill pid = KillOk \<and> (max_stale_ns = 0 \<or> uint (monotonic_now_ns now - monotonic_now_ns beat) \<le> uint max_stale_ns))"
    by (simp add: assms(2) header_of_construct [OF assms(1)] is_writer_alive_def Let_def
        monotonic_now_ns_def [of now, symmetric] word_le_def [symmetric] not_less word_gt_0)
  then show ?thesis unfolding d by (simp add: is_writer_alive_def)
qed

text \<open>
  The freshness test wraps: a heartbeat written after the clock was sampled makes the age a
  huge number, and a live writer that beat one nanosecond later than the sample is declared dead
  for any bound below \<open>2^64 - 1\<close> nanoseconds.
\<close>

theorem writer_alive_wraps:
  assumes "wf_ctype T" and "h = OwnedShm_header (OwnedShm_construct T pid \<lparr>tv_sec = s, tv_nsec = ns + 1\<rparr> m)"
    and "max_stale_ns < - 1" and "0 < max_stale_ns"
  shows "\<not> is_writer_alive kill \<lparr>tv_sec = s, tv_nsec = ns\<rparr> h max_stale_ns"
  using assms(3,4) by (simp add: assms(2) header_of_construct [OF assms(1)] is_writer_alive_def monotonic_now_ns_def)

text \<open>A process that exists but belongs to another user (\<open>EPERM\<close>) is declared dead.\<close>

theorem writer_alive_eperm:
  "kill (writer_pid h) = KillEPERM \<Longrightarrow> \<not> is_writer_alive kill now h max_stale_ns"
  by (simp add: is_writer_alive_def)

section \<open>Witnesses\<close>

definition dir_demo :: shm_dir where
  "dir_demo = \<lparr>dir_opens = True, dir_entries = [''.'', ''..'', ''cam0'', ''cam1'', ''log''], dir_unlinks = (\<lambda>_. True)\<rparr>"

theorem shm_directory_consistent_witness:
  "shm_list (snd (shm_remove ''cam0'' dir_demo)) ''cam'' = [''cam1'']"
proof -
  have "shm_remove ''cam0'' dir_demo = (True, snd (shm_remove ''cam0'' dir_demo))"
    by (simp add: shm_remove_eq dir_demo_def)
  moreover have "shm_list dir_demo ''cam'' = [''cam0'', ''cam1'']" by code_simp
  ultimately show ?thesis
    using shm_directory_consistent [of dir_demo "''cam0''" True "snd (shm_remove ''cam0'' dir_demo)" "''cam''" "[]"]
    by (simp add: dir_demo_def)
qed

lemma wf_flat_8_8: "wf_ctype (flat 8 8)"
  by (simp add: wf_ctype_def) code_simp

theorem owned_shm_header_witness:
  "writer_pid (OwnedShm_header (OwnedShm_construct (flat 8 8) 42 \<lparr>tv_sec = 3, tv_nsec = 7\<rparr> zero_mem)) = 42 \<and>
   OwnedShm_data (flat 8 8) (OwnedShm_construct (flat 8 8) 42 \<lparr>tv_sec = 3, tv_nsec = 7\<rparr> zero_mem) = replicate 8 0"
  using owned_shm_header [OF wf_flat_8_8 refl, of 42 "\<lparr>tv_sec = 3, tv_nsec = 7\<rparr>" zero_mem "\<lparr>tv_sec = 3, tv_nsec = 7\<rparr>"]
  by simp

theorem writer_alive_exact_witness:
  "is_writer_alive (\<lambda>pid. if pid = 42 then KillOk else KillESRCH) \<lparr>tv_sec = 4, tv_nsec = 0\<rparr>
     (OwnedShm_header (OwnedShm_construct (flat 8 8) 42 \<lparr>tv_sec = 3, tv_nsec = 7\<rparr> zero_mem)) 1000000000"
  using writer_alive_exact [OF wf_flat_8_8 refl, of "\<lparr>tv_sec = 3, tv_nsec = 7\<rparr>" "\<lparr>tv_sec = 4, tv_nsec = 0\<rparr>"
      "\<lambda>pid. if pid = 42 then KillOk else KillESRCH" 42 zero_mem 1000000000]
  by simp

theorem writer_alive_wraps_witness:
  "\<not> is_writer_alive (\<lambda>_. KillOk) \<lparr>tv_sec = 3, tv_nsec = 7\<rparr>
     (OwnedShm_header (OwnedShm_construct (flat 8 8) 42 \<lparr>tv_sec = 3, tv_nsec = 7 + 1\<rparr> zero_mem)) 1000000000"
proof -
  have "(1000000000 :: u64) < - 1" "(0 :: u64) < 1000000000" by code_simp+
  then show ?thesis by (rule writer_alive_wraps [OF wf_flat_8_8 refl])
qed

end
