(* ===== verification/Image.thy ===== *)
theory Image
  imports Double Flat_Type
begin

text \<open>
  \<^verbatim>\<open>image.hpp\<close>: image types whose size is computed at compile time, in \<open>float\<close> arithmetic. Also
  \<^verbatim>\<open>shm_stats.hpp\<close>, a struct of four counters.
\<close>

section \<open>Image types\<close>

datatype ImageType = RGB | RGBA | NV12

text \<open>The \<open>switch\<close> has a case for each enumerator, so the \<open>return\<close> after it is not reached.\<close>

fun channels :: "ImageType \<Rightarrow> rat" where
  "channels RGB = 3"
| "channels RGBA = 4"
| "channels NV12 = 3 / 2"

text \<open>\<open>static_cast<std::size_t>(WIDTH * HEIGHT * channels(TYPE))\<close>: the product of the two
  \<open>size_t\<close> wraps, is converted to \<open>float\<close>, multiplied, and truncated.\<close>

definition Image_size :: "nat \<Rightarrow> nat \<Rightarrow> ImageType \<Rightarrow> nat" where
  "Image_size W H ty = nat \<lfloor>round_float (round_float (of_nat (W * H mod 2 ^ 64)) * channels ty)\<rfloor>"

record Image =
  img_timestamp :: u64
  img_frame_number :: u64
  img_data :: "byte list"

text \<open>\<open>#pragma pack(1)\<close>: no padding, alignment 1.\<close>

definition Image_type :: "nat \<Rightarrow> nat \<Rightarrow> ImageType \<Rightarrow> ctype" where
  "Image_type W H ty = flat (8 + 8 + Image_size W H ty) 1"

definition encode_image :: "Image \<Rightarrow> byte list" where
  "encode_image i = le_bytes 8 (img_timestamp i) @ le_bytes 8 (img_frame_number i) @ img_data i"

definition decode_image :: "byte list \<Rightarrow> Image" where
  "decode_image bs = \<lparr>img_timestamp = le_word (take 8 bs), img_frame_number = le_word (take 8 (drop 8 bs)),
     img_data = drop 16 bs\<rparr>"

definition ImageFHD_RGB :: ctype where "ImageFHD_RGB = Image_type 1920 1080 RGB"
definition ImageFHD_RGBA :: ctype where "ImageFHD_RGBA = Image_type 1920 1080 RGBA"
definition ImageFHD_NV12 :: ctype where "ImageFHD_NV12 = Image_type 1920 1080 NV12"
definition Image4K_RGB :: ctype where "Image4K_RGB = Image_type 3840 2160 RGB"
definition Image4K_RGBA :: ctype where "Image4K_RGBA = Image_type 3840 2160 RGBA"
definition Image4K_NV12 :: ctype where "Image4K_NV12 = Image_type 3840 2160 NV12"

section \<open>Counters\<close>

record ShmStats =
  st_total_writes :: u64
  st_total_reads :: u64
  st_torn_read_retries :: u64
  st_lock_contentions :: u64

definition ShmStats_init :: ShmStats where
  "ShmStats_init = \<lparr>st_total_writes = 0, st_total_reads = 0, st_torn_read_retries = 0, st_lock_contentions = 0\<rparr>"

section \<open>Sizes\<close>

lemma Image_size_eqI:
  assumes "2 powi e \<le> (of_nat (W * H) :: rat)" "of_nat (W * H) < (2 :: rat) powi (e + 1)"
    and "of_nat (W * H) = of_int k * (2 :: rat) powi (e - 23)" and "W * H < 2 ^ 64"
    and "2 powi f \<le> of_nat (W * H) * channels ty" "of_nat (W * H) * channels ty < (2 :: rat) powi (f + 1)"
    and "of_nat (W * H) * channels ty = of_int l * (2 :: rat) powi (f - 23)"
  shows "Image_size W H ty = nat \<lfloor>of_nat (W * H) * channels ty\<rfloor>"
proof -
  have "round_float (of_nat (W * H)) = of_nat (W * H)"
    unfolding round_float_def using assms(1-3) by (intro round_binary_exact [where e = e and k = k]) simp_all
  moreover have "round_float (of_nat (W * H) * channels ty) = of_nat (W * H) * channels ty"
    unfolding round_float_def using assms(5-7) by (intro round_binary_exact [where e = f and k = l]) simp_all
  ultimately show ?thesis using assms(4) by (simp add: Image_size_def)
qed

text \<open>
  The assertions of the header, and the two it does not check.
\<close>

theorem image_sizes:
  "sizeof ImageFHD_RGB = 1920 * 1080 * 3 + 16" "sizeof ImageFHD_RGBA = 1920 * 1080 * 4 + 16"
  "sizeof ImageFHD_NV12 = 1920 * 1080 * 3 div 2 + 16" "sizeof Image4K_RGB = 3840 * 2160 * 3 + 16"
  "sizeof Image4K_RGBA = 3840 * 2160 * 4 + 16" "sizeof Image4K_NV12 = 3840 * 2160 * 3 div 2 + 16"
proof -
  have "Image_size 1920 1080 RGB = 6220800"
    by (subst Image_size_eqI [where e = 20 and k = "2073600 * 8" and f = 22 and l = "6220800 * 2"]) simp_all
  moreover have "Image_size 1920 1080 RGBA = 8294400"
    by (subst Image_size_eqI [where e = 20 and k = "2073600 * 8" and f = 22 and l = "8294400 * 2"]) simp_all
  moreover have "Image_size 1920 1080 NV12 = 3110400"
    by (subst Image_size_eqI [where e = 20 and k = "2073600 * 8" and f = 21 and l = "3110400 * 4"]) simp_all
  moreover have "Image_size 3840 2160 RGB = 24883200"
    by (subst Image_size_eqI [where e = 22 and k = "8294400 * 2" and f = 24 and l = "12441600"]) simp_all
  moreover have "Image_size 3840 2160 RGBA = 33177600"
    by (subst Image_size_eqI [where e = 22 and k = "8294400 * 2" and f = 24 and l = "16588800"]) simp_all
  moreover have "Image_size 3840 2160 NV12 = 12441600"
    by (subst Image_size_eqI [where e = 22 and k = "8294400 * 2" and f = 23 and l = "12441600"]) simp_all
  ultimately show "sizeof ImageFHD_RGB = 1920 * 1080 * 3 + 16" "sizeof ImageFHD_RGBA = 1920 * 1080 * 4 + 16"
    "sizeof ImageFHD_NV12 = 1920 * 1080 * 3 div 2 + 16" "sizeof Image4K_RGB = 3840 * 2160 * 3 + 16"
    "sizeof Image4K_RGBA = 3840 * 2160 * 4 + 16" "sizeof Image4K_NV12 = 3840 * 2160 * 3 div 2 + 16"
    by (simp_all add: ImageFHD_RGB_def ImageFHD_RGBA_def ImageFHD_NV12_def Image4K_RGB_def Image4K_RGBA_def
        Image4K_NV12_def Image_type_def)
qed

text \<open>
  The size is computed in 24-bit \<open>float\<close>, so beyond \<open>2^24\<close> pixels it can be wrong: an RGB image
  of 5001 by 5001 pixels gets three bytes fewer than its pixels need.
\<close>

theorem image_size_too_small:
  "Image_size 5001 5001 RGB = 75030000 \<and> 5001 * 5001 * 3 = (75030003 :: nat)"
proof -
  have "ilog2 25010001 = 24" by (rule ilog2_eqI) simp_all
  moreover have "\<lfloor>25010001 / 2 :: rat\<rfloor> = 12505000" by (rule floor_unique) simp_all
  ultimately have "round_float 25010001 = 25010000"
    by (simp add: round_float_def round_binary_def Let_def round_half_even_def)
  moreover have "round_float 75030000 = 75030000"
    unfolding round_float_def by (rule round_binary_exact [where e = 26 and k = 9378750]) simp_all
  ultimately show ?thesis by (simp add: Image_size_def)
qed

end
