(* ===== verification/Stamped_Series.thy ===== *)
theory Stamped_Series
  imports Time_Series
begin

text \<open>
  Recording and querying: stamped objects that one writer inserts into a new ring, and the searches of a
  \<open>TimeSeries\<close> on it, in terms of the list of objects written. \<open>series_buf T N pad ss\<close> is the ring of capacity \<open>N\<close>
  after the insertions \<open>ss\<close>. The locale \<open>stamped_ring\<close> holds what every instantiation of the templates with a
  flat object type and a power-of-two capacity promises; it is interpreted where a program
  instantiates them.
\<close>

definition series_buf :: "ctype \<Rightarrow> nat \<Rightarrow> (nat \<Rightarrow> byte) \<Rightarrow> stamped list \<Rightarrow> cbuf" where
  "series_buf T N pad ss =
     fold cb_insert (map (encode_stamped T pad) ss) \<lparr>cb_T = Stamped_type T, cb_N = N, cb_m = zero_mem\<rparr>"

abbreviation series_mem :: "ctype \<Rightarrow> nat \<Rightarrow> (nat \<Rightarrow> byte) \<Rightarrow> stamped list \<Rightarrow> mem" where
  "series_mem T N pad ss \<equiv> cb_m (series_buf T N pad ss)"

abbreviation series_reader :: "ctype \<Rightarrow> nat \<Rightarrow> mem \<Rightarrow> byte list ts_reader" where
  "series_reader T N m \<equiv> cyclic_reader (Stamped_type T) N (\<lambda>_. m)"

text \<open>The sequence of writes makes sense: objects of the type, fewer than \<open>2^64\<close>, time not going back.\<close>

definition recordable :: "ctype \<Rightarrow> stamped list \<Rightarrow> bool" where
  "recordable T ss \<longleftrightarrow> (\<forall>s \<in> set ss. object_of T (stamped_data s)) \<and> length ss < 2 ^ 64 \<and>
     sorted_wrt (\<lambda>x y. timestamp_ns x \<le> timestamp_ns y) ss"

text \<open>The positions of \<open>ss\<close> that are still in the ring.\<close>

definition in_ring :: "nat \<Rightarrow> 'a list \<Rightarrow> nat \<Rightarrow> bool" where
  "in_ring N ss i \<longleftrightarrow> i < length ss \<and> length ss \<le> i + N"

lemma series_buf_snoc: "series_buf T N pad (ss @ [s]) = cb_insert (encode_stamped T pad s) (series_buf T N pad ss)"
  by (simp add: series_buf_def)

lemma series_buf_fields [simp]: "cb_T (series_buf T N pad ss) = Stamped_type T" "cb_N (series_buf T N pad ss) = N"
proof -
  have "cb_T (series_buf T N pad ss) = Stamped_type T \<and> cb_N (series_buf T N pad ss) = N"
    by (induction ss rule: rev_induct) (simp_all add: series_buf_snoc, simp add: series_buf_def)
  then show "cb_T (series_buf T N pad ss) = Stamped_type T" "cb_N (series_buf T N pad ss) = N" by simp_all
qed

locale stamped_ring =
  fixes T :: ctype and N :: nat
  assumes wf: "wf_ctype T" and capacity: "CyclicBuffer_capacity_ok N"
begin

lemma wf_stamped: "wf_ctype (Stamped_type T)"
  using wf by (rule wf_Stamped_type)

lemma object: "object_of T (stamped_data s) \<Longrightarrow> object_of (Stamped_type T) (encode_stamped T pad s)"
  using length_encode_stamped [OF wf] by (simp add: object_of_def)

lemma read_back: "object_of T (stamped_data s) \<Longrightarrow> decode_stamped T (encode_stamped T pad s) = s"
  using decode_encode_stamped [OF wf] .

lemma key: "object_of T (stamped_data s) \<Longrightarrow> StampedKeyExtractor T (encode_stamped T pad s) = timestamp_ns s"
  by (simp add: StampedKeyExtractor_def read_back)

lemma filled:
  assumes "\<forall>s \<in> set ss. object_of T (stamped_data s)" and "length ss < 2 ^ 64"
  shows "cb_ok (series_buf T N pad ss)" and "cb_count (series_buf T N pad ss) = length ss"
    and "cb_contents (series_buf T N pad ss) = take N (rev (map (encode_stamped T pad) ss))"
proof -
  let ?b = "\<lparr>cb_T = Stamped_type T, cb_N = N, cb_m = zero_mem\<rparr>"
  have b: "cb_ok ?b" using wf_stamped capacity by (simp add: cb_ok_def)
  have el: "x \<in> set (map (encode_stamped T pad) ss) \<Longrightarrow> cb_object ?b x" for x
    using assms object by (auto simp: cb_object_def)
  have c: "cb_count ?b + length (map (encode_stamped T pad) ss) < 2 ^ 64" "cb_contents ?b = []" "cb_count ?b = 0"
    using assms by (simp_all add: cb_count_def cb_contents_def)
  note many = cb.insert_many [OF b el c(1)]
  show "cb_ok (series_buf T N pad ss)" unfolding series_buf_def by (rule many(1))
  show "cb_count (series_buf T N pad ss) = length ss" unfolding series_buf_def using many(3) c(3) by simp
  show "cb_contents (series_buf T N pad ss) = take N (rev (map (encode_stamped T pad) ss))"
    unfolding series_buf_def using many(4) c(2) by simp
qed

lemma window:
  assumes "recordable T ss"
  shows "cb_ok (series_buf T N pad ss)" and "cb_count (series_buf T N pad ss) = length ss"
    and "cb_contents (series_buf T N pad ss) = take N (rev (map (encode_stamped T pad) ss))"
  using filled [of ss pad] assms by (simp_all add: recordable_def)

lemma window_nth:
  assumes "recordable T ss" and "i < length ss" "i < N"
  shows "cb_contents (series_buf T N pad ss) ! i = encode_stamped T pad (ss ! (length ss - 1 - i))"
  unfolding window(3) [OF assms(1)] using assms(2,3) by (simp add: rev_nth)

lemma window_set:
  assumes "recordable T ss"
  shows "x \<in> set (cb_contents (series_buf T N pad ss)) \<longleftrightarrow> (\<exists>i. in_ring N ss i \<and> x = encode_stamped T pad (ss ! i))"
proof
  assume "x \<in> set (cb_contents (series_buf T N pad ss))"
  then obtain k where k: "k < length ss" "k < N" "cb_contents (series_buf T N pad ss) ! k = x"
    using window(2) [OF assms] by (auto simp: in_set_conv_nth)
  with window_nth [OF assms k(1,2)] show "\<exists>i. in_ring N ss i \<and> x = encode_stamped T pad (ss ! i)"
    by (intro exI [of _ "length ss - 1 - k"]) (auto simp: in_ring_def)
next
  assume "\<exists>i. in_ring N ss i \<and> x = encode_stamped T pad (ss ! i)"
  then obtain i where i: "i < length ss" "length ss \<le> i + N" "x = encode_stamped T pad (ss ! i)" by (auto simp: in_ring_def)
  let ?k = "length ss - 1 - i"
  have "?k < length ss" "?k < N" "length ss - 1 - ?k = i" using i by auto
  with window_nth [OF assms this(1,2)] i(3) window(2) [OF assms]
  show "x \<in> set (cb_contents (series_buf T N pad ss))" by (metis length_cb_contents min_less_iff_conj nth_mem series_buf_fields(2))
qed

lemma ordered:
  assumes "recordable T ss"
  shows "sorted_wrt (\<lambda>x y. StampedKeyExtractor T y \<le> StampedKeyExtractor T x) (cb_contents (series_buf T N pad ss))"
proof -
  have "sorted_wrt (\<lambda>x y. StampedKeyExtractor T x \<le> StampedKeyExtractor T y) (map (encode_stamped T pad) ss)"
    unfolding sorted_wrt_map
    by (rule sorted_wrt_mono_rel [where P = "\<lambda>x y. timestamp_ns x \<le> timestamp_ns y"])
      (use assms key in \<open>auto simp: recordable_def\<close>)
  then show ?thesis unfolding window(3) [OF assms] by (simp add: sorted_wrt_take sorted_wrt_rev)
qed

lemma series_available:
  "recordable T ss \<Longrightarrow> unat (fst (TimeSeries_available N (\<lambda>_. series_mem T N pad ss) c)) = min (length ss) N"
  using window(2) [of ss pad] min_writes [OF capacity]
  by (simp add: TimeSeries_available_def CyclicBufferReader_available_def cb_count_def)

lemma series_latest:
  assumes "recordable T ss" and "ss \<noteq> []"
  shows "\<exists>c'. TimeSeries_get_latest (Stamped_type T) N (\<lambda>_. series_mem T N pad ss) c = Some (encode_stamped T pad (last ss), c')"
proof -
  have "cb_contents (series_buf T N pad ss) \<noteq> []" using assms capacity_pos [OF capacity] unfolding window(3) [OF assms(1)] by simp
  moreover then have "hd (cb_contents (series_buf T N pad ss)) = encode_stamped T pad (last ss)"
    using window_nth [OF assms(1), of 0] assms(2) capacity_pos [OF capacity] by (simp add: hd_conv_nth last_conv_nth)
  ultimately show ?thesis
    using get_latest_at_rest [OF window(1) [OF assms(1)], of pad c]
    by (auto simp: TimeSeries_get_latest_def split: list.splits)
qed

lemma series_fresh:
  assumes "recordable T ss" and "ss \<noteq> []"
  shows "\<exists>c'. get_latest_if_fresh (series_reader T N (series_mem T N pad ss)) (StampedKeyExtractor T) min_key c
           = Some (if min_key \<le> timestamp_ns (last ss) then Some (encode_stamped T pad (last ss)) else None, c')"
proof -
  have "cb_contents (series_buf T N pad ss) \<noteq> []" using assms capacity_pos [OF capacity] unfolding window(3) [OF assms(1)] by simp
  moreover then have "hd (cb_contents (series_buf T N pad ss)) = encode_stamped T pad (last ss)"
    using window_nth [OF assms(1), of 0] assms(2) capacity_pos [OF capacity] by (simp add: hd_conv_nth last_conv_nth)
  moreover have "object_of T (stamped_data (last ss))" using assms by (simp add: recordable_def)
  ultimately show ?thesis
    using get_latest_if_fresh_at_rest [OF window(1) [OF assms(1)] refl, of pad "StampedKeyExtractor T" min_key c]
    by (auto simp: key split: list.splits if_splits)
qed

lemma series_closest:
  assumes "recordable T ss" and "ss \<noteq> []"
  shows "\<exists>i c'. in_ring N ss i \<and>
     (\<forall>j. in_ring N ss j \<longrightarrow> key_diff (timestamp_ns (ss ! i)) target \<le> key_diff (timestamp_ns (ss ! j)) target) \<and>
     find_closest (series_reader T N (series_mem T N pad ss)) (StampedKeyExtractor T) target md c
       = Some (if (\<exists>m. md = Some m \<and> m < key_diff (timestamp_ns (ss ! i)) target) then None
               else Some (encode_stamped T pad (ss ! i)), c')"
proof -
  let ?b = "series_buf T N pad ss"
  have "cb_contents ?b \<noteq> []" using assms capacity_pos [OF capacity] unfolding window(3) [OF assms(1)] by simp
  from ts.find_closest_correct [OF window(1) [OF assms(1)] _ this, of "StampedKeyExtractor T" target md c] ordered [OF assms(1)]
  obtain e c' where e: "e \<in> set (cb_contents ?b)"
      "\<forall>x \<in> set (cb_contents ?b). key_diff (StampedKeyExtractor T e) target \<le> key_diff (StampedKeyExtractor T x) target"
    and run: "find_closest (series_reader T N (series_mem T N pad ss)) (StampedKeyExtractor T) target md c
       = Some (if (\<exists>m. md = Some m \<and> m < key_diff (StampedKeyExtractor T e) target) then None else Some e, c')"
    by auto
  obtain i where i: "in_ring N ss i" "e = encode_stamped T pad (ss ! i)" using e(1) window_set [OF assms(1)] by auto
  have k: "StampedKeyExtractor T (encode_stamped T pad (ss ! j)) = timestamp_ns (ss ! j)" if "in_ring N ss j" for j
    using that assms(1) key by (auto simp: recordable_def in_ring_def)
  have "key_diff (timestamp_ns (ss ! i)) target \<le> key_diff (timestamp_ns (ss ! j)) target" if j: "in_ring N ss j" for j
  proof -
    have "encode_stamped T pad (ss ! j) \<in> set (cb_contents ?b)" using window_set [OF assms(1)] j by blast
    with e(2) have "key_diff (StampedKeyExtractor T e) target \<le> key_diff (StampedKeyExtractor T (encode_stamped T pad (ss ! j))) target" ..
    then show ?thesis using k [OF i(1)] k [OF j] i(2) by simp
  qed
  with i run k [OF i(1)] show ?thesis by (intro exI [of _ i] exI [of _ c']) auto
qed

lemma series_interpolation:
  assumes "recordable T ss" and "ss \<noteq> []"
  shows "\<exists>res c'. find_interpolation_pair (series_reader T N (series_mem T N pad ss)) (StampedKeyExtractor T) target c = Some (res, c') \<and>
     (if min (length ss) N < 2 \<or> timestamp_ns (last ss) < target \<or> target < timestamp_ns (ss ! (length ss - min (length ss) N))
      then res = None
      else \<exists>p i. res = Some p \<and> in_ring N ss i \<and> after p = encode_stamped T pad (ss ! i) \<and> 0 \<le> alpha p \<and> alpha p \<le> 1 \<and>
        (before p = after p \<and> target = timestamp_ns (ss ! i) \<and> alpha p = 0 \<or>
         0 < i \<and> in_ring N ss (i - 1) \<and> before p = encode_stamped T pad (ss ! (i - 1)) \<and>
         timestamp_ns (ss ! (i - 1)) \<le> target \<and> target < timestamp_ns (ss ! i) \<and>
         alpha p = interp_alpha target (timestamp_ns (ss ! (i - 1))) (timestamp_ns (ss ! i))))"
proof -
  let ?b = "series_buf T N pad ss" and ?key = "StampedKeyExtractor T" and ?n = "min (length ss) N"
  let ?w = "cb_contents ?b"
  have n: "length ?w = ?n" using window(2) [OF assms(1)] by simp
  have N: "0 < N" by (rule capacity_pos [OF capacity])
  have at: "?w ! k = encode_stamped T pad (ss ! (length ss - 1 - k))" "?key (?w ! k) = timestamp_ns (ss ! (length ss - 1 - k))"
    if "k < ?n" for k
    using that window_nth [OF assms(1), of k pad] assms(1) key [of "ss ! (length ss - 1 - k)"] by (auto simp: recordable_def)
  have "0 < ?n" using assms(2) N by simp
  moreover from this have "?w \<noteq> []" using n by (metis length_greater_0_conv)
  moreover from calculation have last: "?n - 1 < ?n" by (metis diff_less zero_less_one)
  ultimately have "?w \<noteq> []" "0 < ?n" by blast+
  then have ends: "?key (hd ?w) = timestamp_ns (last ss)" "?key (last ?w) = timestamp_ns (ss ! (length ss - ?n))"
    using at(2) [of 0] at(2) [OF last] n assms(2) by (auto simp: hd_conv_nth last_conv_nth simp del: length_cb_contents nth_cb_contents)
  obtain res c' where run: "find_interpolation_pair (series_reader T N (series_mem T N pad ss)) ?key target c = Some (res, c')"
    and post: "if length ?w < 2 \<or> ?key (hd ?w) < target \<or> target < ?key (last ?w) then res = None
       else \<exists>p. res = Some p \<and> brackets ?key target ?w p"
    using ts.find_interpolation_pair_correct [OF window(1) [OF assms(1)], of pad ?key target c] by (auto simp del: length_cb_contents)
  show ?thesis
  proof (cases "?n < 2 \<or> timestamp_ns (last ss) < target \<or> target < timestamp_ns (ss ! (length ss - ?n))")
    case True
    with post have "res = None" unfolding n ends by simp
    with run True show ?thesis by auto
  next
    case False
    with post obtain p where p: "res = Some p" "brackets ?key target ?w p" unfolding n ends by auto
    from p(2) [unfolded brackets_def n] obtain k where k: "k < ?n" "after p = ?w ! k"
      and br: "before p = ?w ! k \<and> target = ?key (?w ! k) \<or> Suc k < ?n \<and> before p = ?w ! Suc k \<and> target < ?key (?w ! k)"
      and al: "alpha p = (if ?key (after p) = ?key (before p) then 0 else interp_alpha target (?key (before p)) (?key (after p)))"
        "0 \<le> alpha p" "alpha p \<le> 1" "?key (before p) \<le> target"
      by blast
    let ?i = "length ss - 1 - k"
    have i: "in_ring N ss ?i" using k(1) by (auto simp: in_ring_def)
    have "before p = after p \<and> target = timestamp_ns (ss ! ?i) \<and> alpha p = 0 \<or>
         0 < ?i \<and> in_ring N ss (?i - 1) \<and> before p = encode_stamped T pad (ss ! (?i - 1)) \<and>
         timestamp_ns (ss ! (?i - 1)) \<le> target \<and> target < timestamp_ns (ss ! ?i) \<and>
         alpha p = interp_alpha target (timestamp_ns (ss ! (?i - 1))) (timestamp_ns (ss ! ?i))"
      using br
    proof
      assume "before p = ?w ! k \<and> target = ?key (?w ! k)"
      with k al show ?thesis using at(2) [OF k(1)] by simp
    next
      assume s: "Suc k < ?n \<and> before p = ?w ! Suc k \<and> target < ?key (?w ! k)"
      then have prev: "length ss - 1 - Suc k = ?i - 1" "0 < ?i" "in_ring N ss (?i - 1)" using i by (auto simp: in_ring_def)
      moreover have "timestamp_ns (ss ! (?i - 1)) \<le> target" "target < timestamp_ns (ss ! ?i)"
        using al(4) s at(2) [OF k(1)] at(2) [of "Suc k"] prev(1) by simp_all
      moreover from this have "alpha p = interp_alpha target (timestamp_ns (ss ! (?i - 1))) (timestamp_ns (ss ! ?i))"
        using al(1) s k at(2) [OF k(1)] at(2) [of "Suc k"] prev(1) by auto
      ultimately show ?thesis using s at(1) [of "Suc k"] by simp
    qed
    with False run p(1) k(2) at(1) [OF k(1)] i al(2,3) show ?thesis by auto
  qed
qed

end

end
