(* ===== verification/Bindings.thy ===== *)
theory Bindings
  imports Seqlock Stamped_Series Producer_Consumer Image Shm_Lifecycle
begin

text \<open>
  \<^verbatim>\<open>bindings/nanobind_safe_shm.cpp\<close> and \<^verbatim>\<open>bindings/nanobind_image_shm.cpp\<close>: the template arguments
  for which the library is instantiated for Python, the methods bound to them, the accessors of the
  image class, and the class \<open>ShmProducerConsumer\<close>, which exists only here. What \<open>nanobind\<close> itself
  does (conversion and checking of arguments) is external; an array passed to \<open>set_data\<close> has been
  checked to have the declared shape. The functions that validate keys are in \<open>Sanitized_Key\<close>.
\<close>

section \<open>Instantiations of the templates\<close>

definition StampedF64 :: ctype where
  "StampedF64 = Stamped_type double_type"

definition py_capacity :: nat where
  "py_capacity = 64"

definition stamp_f64 :: "timespec \<Rightarrow> byte list \<Rightarrow> u64 \<Rightarrow> stamped" where
  "stamp_f64 now data seq = stamp now data seq"

definition SeqlockWriterF64_store :: "byte list \<Rightarrow> mem \<Rightarrow> act list" where
  "SeqlockWriterF64_store data m = SeqlockWriter_store double_type data m"

definition SeqlockReaderF64_load :: "(nat \<Rightarrow> mem) \<Rightarrow> nat \<Rightarrow> (byte list \<times> nat) option" where
  "SeqlockReaderF64_load view c = SeqlockReader_load double_type view c"

definition SeqlockWriterStampedF64_store :: "byte list \<Rightarrow> mem \<Rightarrow> act list" where
  "SeqlockWriterStampedF64_store data m = SeqlockWriter_store StampedF64 data m"

definition SeqlockReaderStampedF64_load :: "(nat \<Rightarrow> mem) \<Rightarrow> nat \<Rightarrow> (byte list \<times> nat) option" where
  "SeqlockReaderStampedF64_load view c = SeqlockReader_load StampedF64 view c"

definition CyclicBufferWriterStampedF64_insert :: "byte list \<Rightarrow> mem \<Rightarrow> act list" where
  "CyclicBufferWriterStampedF64_insert data m = CyclicBufferWriter_insert StampedF64 py_capacity data m"

definition CyclicBufferReaderStampedF64_try_get ::
    "(nat \<Rightarrow> mem) \<Rightarrow> u64 \<Rightarrow> u32 \<Rightarrow> nat \<Rightarrow> (byte list option \<times> nat) option" where
  "CyclicBufferReaderStampedF64_try_get view reverse_index max_retries c =
     CyclicBufferReader_try_get StampedF64 py_capacity view reverse_index max_retries c"

definition SeqlockReaderF64_sequence :: "(nat \<Rightarrow> mem) \<Rightarrow> nat \<Rightarrow> u32 \<times> nat" where
  "SeqlockReaderF64_sequence view c = SeqlockReader_sequence view c"

definition SeqlockReaderStampedF64_sequence :: "(nat \<Rightarrow> mem) \<Rightarrow> nat \<Rightarrow> u32 \<times> nat" where
  "SeqlockReaderStampedF64_sequence view c = SeqlockReader_sequence view c"

definition CyclicBufferWriterStampedF64_total_writes :: "(nat \<Rightarrow> mem) \<Rightarrow> nat \<Rightarrow> u64 \<times> nat" where
  "CyclicBufferWriterStampedF64_total_writes view c = CyclicBufferWriter_total_writes view c"

definition CyclicBufferReaderStampedF64_get_latest :: "(nat \<Rightarrow> mem) \<Rightarrow> nat \<Rightarrow> (byte list \<times> nat) option" where
  "CyclicBufferReaderStampedF64_get_latest view c = CyclicBufferReader_get_latest StampedF64 py_capacity view c"

definition CyclicBufferReaderStampedF64_get :: "(nat \<Rightarrow> mem) \<Rightarrow> u64 \<Rightarrow> nat \<Rightarrow> (byte list \<times> nat) option" where
  "CyclicBufferReaderStampedF64_get view reverse_index c = CyclicBufferReader_get StampedF64 py_capacity view reverse_index c"

definition CyclicBufferReaderStampedF64_available :: "(nat \<Rightarrow> mem) \<Rightarrow> nat \<Rightarrow> u64 \<times> nat" where
  "CyclicBufferReaderStampedF64_available view c = CyclicBufferReader_available py_capacity view c"

definition CyclicBufferReaderStampedF64_total_writes :: "(nat \<Rightarrow> mem) \<Rightarrow> nat \<Rightarrow> u64 \<times> nat" where
  "CyclicBufferReaderStampedF64_total_writes view c = CyclicBufferReader_total_writes view c"

definition CyclicBufferReaderStampedF64_capacity :: nat where
  "CyclicBufferReaderStampedF64_capacity = CyclicBufferReader_capacity py_capacity"

definition py_series_reader :: "(nat \<Rightarrow> mem) \<Rightarrow> byte list ts_reader" where
  "py_series_reader view = cyclic_reader StampedF64 py_capacity view"

definition TimeSeriesStampedF64_find_closest ::
    "(nat \<Rightarrow> mem) \<Rightarrow> u64 \<Rightarrow> u64 option \<Rightarrow> nat \<Rightarrow> (byte list option \<times> nat) option" where
  "TimeSeriesStampedF64_find_closest view target max_dist c =
     find_closest (py_series_reader view) (StampedKeyExtractor double_type) target max_dist c"

definition TimeSeriesStampedF64_find_interpolation_pair ::
    "(nat \<Rightarrow> mem) \<Rightarrow> u64 \<Rightarrow> nat \<Rightarrow> (byte list InterpPair option \<times> nat) option" where
  "TimeSeriesStampedF64_find_interpolation_pair view target c =
     find_interpolation_pair (py_series_reader view) (StampedKeyExtractor double_type) target c"

definition TimeSeriesStampedF64_get_latest_if_fresh ::
    "(nat \<Rightarrow> mem) \<Rightarrow> u64 \<Rightarrow> nat \<Rightarrow> (byte list option \<times> nat) option" where
  "TimeSeriesStampedF64_get_latest_if_fresh view min_key c =
     get_latest_if_fresh (py_series_reader view) (StampedKeyExtractor double_type) min_key c"

definition TimeSeriesStampedF64_get_latest :: "(nat \<Rightarrow> mem) \<Rightarrow> nat \<Rightarrow> (byte list \<times> nat) option" where
  "TimeSeriesStampedF64_get_latest view c = TimeSeries_get_latest StampedF64 py_capacity view c"

definition TimeSeriesStampedF64_available :: "(nat \<Rightarrow> mem) \<Rightarrow> nat \<Rightarrow> u64 \<times> nat" where
  "TimeSeriesStampedF64_available view c = TimeSeries_available py_capacity view c"

definition TimeSeriesStampedF64_total_writes :: "(nat \<Rightarrow> mem) \<Rightarrow> nat \<Rightarrow> u64 \<times> nat" where
  "TimeSeriesStampedF64_total_writes view c = TimeSeries_total_writes view c"

definition TimeSeriesStampedF64_capacity :: nat where
  "TimeSeriesStampedF64_capacity = TimeSeries_capacity py_capacity"

text \<open>The life-cycle functions; arguments that Python may leave out are options with the declared defaults.\<close>

definition py_shm_list :: "shm_dir \<Rightarrow> string option \<Rightarrow> string list" where
  "py_shm_list d prefix = shm_list d (case prefix of None \<Rightarrow> [] | Some p \<Rightarrow> p)"

definition py_is_writer_alive :: "(32 word \<Rightarrow> kill_rc) \<Rightarrow> timespec \<Rightarrow> ShmHeader \<Rightarrow> u64 option \<Rightarrow> bool" where
  "py_is_writer_alive kill now header max_stale_ns =
     is_writer_alive kill now header (case max_stale_ns of None \<Rightarrow> 0 | Some n \<Rightarrow> n)"

lemmas py_ring_defs = CyclicBufferWriterStampedF64_insert_def CyclicBufferWriterStampedF64_total_writes_def
  CyclicBufferReaderStampedF64_get_latest_def CyclicBufferReaderStampedF64_get_def CyclicBufferReaderStampedF64_try_get_def
  CyclicBufferReaderStampedF64_available_def CyclicBufferReaderStampedF64_total_writes_def CyclicBufferReaderStampedF64_capacity_def
  TimeSeriesStampedF64_get_latest_def TimeSeriesStampedF64_available_def TimeSeriesStampedF64_total_writes_def
  TimeSeriesStampedF64_capacity_def

lemma StampedF64_layout: "sizeof StampedF64 = 24" "alignof StampedF64 = 8" "wf_ctype StampedF64"
  using wf_Stamped_type [OF wf_double_type] unfolding StampedF64_def by code_simp+

lemma py_capacity_ok: "CyclicBuffer_capacity_ok py_capacity"
  by (simp add: CyclicBuffer_capacity_ok_def py_capacity_def is_pow2_def)

interpretation f64: stamped_ring double_type py_capacity
  by unfold_locales (rule wf_double_type, rule py_capacity_ok)

section \<open>Images\<close>

definition py_image_shape :: "nat list" where
  "py_image_shape = [2160, 3840, nat \<lfloor>channels RGB\<rfloor>]"

definition py_image_bytes :: nat where
  "py_image_bytes = prod_list py_image_shape"

text \<open>The array that \<open>get_data\<close> exposes, and \<open>set_data\<close>, a \<open>memcpy\<close> of the whole array.\<close>

definition py_get_data :: "Image \<Rightarrow> byte list" where
  "py_get_data img = take py_image_bytes (img_data img)"

definition py_set_data :: "byte list \<Rightarrow> Image \<Rightarrow> Image" where
  "py_set_data arr img = img\<lparr>img_data := arr @ drop (length arr) (img_data img)\<rparr>"

lemma sizeof_Image4K_RGB: "sizeof Image4K_RGB = 16 + py_image_bytes"
  unfolding image_sizes(4) by (simp add: py_image_bytes_def py_image_shape_def)

lemma wf_Image4K_RGB: "wf_ctype Image4K_RGB"
  by (simp add: wf_ctype_def Image4K_RGB_def Image_type_def is_pow2_def)

section \<open>The producer/consumer class\<close>

datatype py_pos =
    PyIdle
  | PyStoreWait "byte list"        \<comment> \<open>in \<open>store(image)\<close>, before \<open>sem_write_.wait()\<close>\<close>
  | PyStoring "byte list" nat      \<comment> \<open>\<open>k\<close> bytes assigned\<close>
  | PyLoadWait                     \<comment> \<open>in \<open>load()\<close>, before \<open>sem_read_.wait()\<close>\<close>
  | PyLoading nat                  \<comment> \<open>\<open>k\<close> bytes copied into \<open>image_\<close>\<close>

text \<open>\<open>py_image p\<close> is the object \<open>image_\<close> of process \<open>p\<close>, the one every \<open>load()\<close> of \<open>p\<close> returns.
  \<open>py_stored\<close> and \<open>py_loaded\<close> record what was handed over.\<close>

record ('p, 'q) py_prodcons =
  py_read :: 'q
  py_write :: 'q
  py_mem :: mem
  py_image :: "'p \<Rightarrow> byte list"
  py_at :: "'p \<Rightarrow> py_pos"
  py_stored :: "byte list list"
  py_loaded :: "byte list list"

definition ShmProducerConsumer_new :: "'q sem_ops \<Rightarrow> ctype \<Rightarrow> mem \<Rightarrow> ('p, 'q) py_prodcons" where
  "ShmProducerConsumer_new ops T m =
     \<lparr>py_read = sem_new ops 0, py_write = sem_new ops 1, py_mem = m, py_image = (\<lambda>_. value_init T),
      py_at = (\<lambda>_. PyIdle), py_stored = [], py_loaded = []\<rparr>"

definition py_move :: "'p \<Rightarrow> py_pos \<Rightarrow> ('p, 'q) py_prodcons \<Rightarrow> ('p, 'q) py_prodcons" where
  "py_move p x s = s\<lparr>py_at := (py_at s)(p := x)\<rparr>"

definition py_store_step ::
    "'q sem_ops \<Rightarrow> ctype \<Rightarrow> 'p \<Rightarrow> ('p, 'q) py_prodcons \<Rightarrow> ('p, 'q) py_prodcons option" where
  "py_store_step ops T p s =
     (case py_at s p of
        PyStoreWait img \<Rightarrow>
          (case sem_wait ops (py_write s) of
             None \<Rightarrow> None
           | Some q \<Rightarrow> Some (py_move p (PyStoring img 0) (s\<lparr>py_write := q\<rparr>)))
      | PyStoring img k \<Rightarrow>
          if k < sizeof T
          then Some (py_move p (PyStoring img (Suc k)) (s\<lparr>py_mem := (py_mem s)(k := img ! k)\<rparr>))
          else Some (py_move p PyIdle
                 (s\<lparr>py_read := sem_post ops (py_read s), py_stored := py_stored s @ [img]\<rparr>))
      | _ \<Rightarrow> None)"

definition py_load_step ::
    "'q sem_ops \<Rightarrow> ctype \<Rightarrow> 'p \<Rightarrow> ('p, 'q) py_prodcons \<Rightarrow> ('p, 'q) py_prodcons option" where
  "py_load_step ops T p s =
     (case py_at s p of
        PyLoadWait \<Rightarrow>
          (case sem_wait ops (py_read s) of
             None \<Rightarrow> None
           | Some q \<Rightarrow> Some (py_move p (PyLoading 0) (s\<lparr>py_read := q\<rparr>)))
      | PyLoading k \<Rightarrow>
          if k < sizeof T
          then Some (py_move p (PyLoading (Suc k))
                 (s\<lparr>py_image := (py_image s)(p := (py_image s p)[k := py_mem s k])\<rparr>))
          else Some (py_move p PyIdle
                 (s\<lparr>py_write := sem_post ops (py_write s), py_loaded := py_loaded s @ [py_image s p]\<rparr>))
      | _ \<Rightarrow> None)"

fun ShmProducerConsumer_exec ::
    "'q sem_ops \<Rightarrow> ctype \<Rightarrow> 'p pc_event \<Rightarrow> ('p, 'q) py_prodcons \<Rightarrow> ('p, 'q) py_prodcons option" where
  "ShmProducerConsumer_exec ops T (CallProduce p img) s =
     (if py_at s p = PyIdle \<and> length img = sizeof T then Some (py_move p (PyStoreWait img) s) else None)"
| "ShmProducerConsumer_exec ops T (CallConsume p) s =
     (if py_at s p = PyIdle then Some (py_move p PyLoadWait s) else None)"
| "ShmProducerConsumer_exec ops T (PcStep p) s =
     (case py_store_step ops T p s of None \<Rightarrow> py_load_step ops T p s | Some s' \<Rightarrow> Some s')"

inductive py_reachable :: "'q sem_ops \<Rightarrow> ctype \<Rightarrow> mem \<Rightarrow> ('p, 'q) py_prodcons \<Rightarrow> bool" for ops T m where
  init: "py_reachable ops T m (ShmProducerConsumer_new ops T m)"
| step: "py_reachable ops T m s \<Longrightarrow> ShmProducerConsumer_exec ops T e s = Some s' \<Longrightarrow> py_reachable ops T m s'"

section \<open>Refinement of \<open>ProducerConsumer\<close>\<close>

fun abs_pos :: "byte list \<Rightarrow> py_pos \<Rightarrow> pc_pos" where
  "abs_pos img PyIdle = Idle"
| "abs_pos img (PyStoreWait d) = ProduceWait d"
| "abs_pos img (PyStoring d k) = Producing d k"
| "abs_pos img PyLoadWait = ConsumeWait"
| "abs_pos img (PyLoading k) = Consuming (take k img)"

definition py_abs :: "('p, 'q) py_prodcons \<Rightarrow> ('p, 'q) prodcons" where
  "py_abs s = \<lparr>pc_read = py_read s, pc_write = py_write s, pc_mem = py_mem s,
     pc_at = (\<lambda>p. abs_pos (py_image s p) (py_at s p)), pc_produced = py_stored s, pc_consumed = py_loaded s\<rparr>"

definition py_inv :: "ctype \<Rightarrow> ('p, 'q) py_prodcons \<Rightarrow> bool" where
  "py_inv T s \<longleftrightarrow> (\<forall>p. length (py_image s p) = sizeof T \<and> (\<forall>k. py_at s p = PyLoading k \<longrightarrow> k \<le> sizeof T))"

lemma py_abs_fields [simp]:
  "pc_read (py_abs s) = py_read s" "pc_write (py_abs s) = py_write s" "pc_mem (py_abs s) = py_mem s"
  "pc_at (py_abs s) p = abs_pos (py_image s p) (py_at s p)"
  "pc_produced (py_abs s) = py_stored s" "pc_consumed (py_abs s) = py_loaded s"
  by (simp_all add: py_abs_def)

lemma py_inv_exec: "py_inv T s \<Longrightarrow> ShmProducerConsumer_exec ops T e s = Some s' \<Longrightarrow> py_inv T s'"
  by (cases e) (auto simp: py_inv_def py_move_def py_store_step_def py_load_step_def
      split: if_splits option.splits py_pos.splits)

lemma py_abs_move:
  assumes "\<And>q. py_image s' q = (if q = p then img else py_image s q)" and "py_at s' = (py_at s)(p := x)"
  shows "pc_at (py_abs s') = (pc_at (py_abs s))(p := abs_pos img x)"
  using assms by (auto simp: fun_eq_iff)

lemma prodcons_eqI:
  "pc_read a = pc_read b \<Longrightarrow> pc_write a = pc_write b \<Longrightarrow> pc_mem a = pc_mem b \<Longrightarrow> pc_at a = pc_at b \<Longrightarrow>
     pc_produced a = pc_produced b \<Longrightarrow> pc_consumed a = pc_consumed b \<Longrightarrow> a = (b :: ('p, 'q) prodcons)"
  by simp

text \<open>What a step of \<open>store\<close> or \<open>load\<close> does is a step of \<open>produce\<close> or \<open>consume\<close>.\<close>

lemma py_abs_py_move:
  "py_abs (py_move p x s) = move p (abs_pos (py_image s p) x) (py_abs s)"
  by (rule prodcons_eqI) (auto simp: py_move_def)

lemma py_store_refines:
  assumes "py_store_step ops T p s = Some s'"
  shows "produce_step ops T p (py_abs s) = Some (py_abs s')"
proof (cases "py_at s p")
  case (PyStoreWait d)
  with assms obtain q where q: "sem_wait ops (py_write s) = Some q" "s' = py_move p (PyStoring d 0) (s\<lparr>py_write := q\<rparr>)"
    by (auto simp: py_store_step_def split: option.splits)
  have "py_abs (s\<lparr>py_write := q\<rparr>) = (py_abs s)\<lparr>pc_write := q\<rparr>" by (rule prodcons_eqI) auto
  with PyStoreWait q show ?thesis by (simp add: produce_step_def py_abs_py_move)
next
  case (PyStoring d k)
  have "py_abs (s\<lparr>py_mem := x\<rparr>) = (py_abs s)\<lparr>pc_mem := x\<rparr>"
    "py_abs (s\<lparr>py_read := r, py_stored := xs\<rparr>) = (py_abs s)\<lparr>pc_read := r, pc_produced := xs\<rparr>" for x r xs
    by (rule prodcons_eqI; auto)+
  with assms PyStoring show ?thesis
    by (auto simp: py_store_step_def produce_step_def py_abs_py_move split: if_splits)
qed (use assms in \<open>simp_all add: py_store_step_def\<close>)

lemma py_load_refines:
  assumes inv: "py_inv T s" and ex: "py_load_step ops T p s = Some s'"
  shows "consume_step ops T p (py_abs s) = Some (py_abs s')"
proof (cases "py_at s p")
  case PyLoadWait
  with ex obtain q where q: "sem_wait ops (py_read s) = Some q" "s' = py_move p (PyLoading 0) (s\<lparr>py_read := q\<rparr>)"
    by (auto simp: py_load_step_def split: option.splits)
  have "py_abs (s\<lparr>py_read := q\<rparr>) = (py_abs s)\<lparr>pc_read := q\<rparr>" by (rule prodcons_eqI) auto
  with PyLoadWait q show ?thesis by (simp add: consume_step_def py_abs_py_move)
next
  case (PyLoading k)
  have len: "length (py_image s p) = sizeof T" and k: "k \<le> sizeof T" using inv PyLoading by (auto simp: py_inv_def)
  show ?thesis
  proof (cases "k < sizeof T")
    case True
    let ?img = "(py_image s p)[k := py_mem s k]"
    from True ex PyLoading have s': "s' = py_move p (PyLoading (Suc k)) (s\<lparr>py_image := (py_image s)(p := ?img)\<rparr>)"
      by (simp add: py_load_step_def)
    have "take (Suc k) ?img = take k (py_image s p) @ [py_mem s k]"
      using True len by (simp add: take_Suc_conv_app_nth)
    then have "py_abs s' = move p (Consuming (take k (py_image s p) @ [py_mem s k])) (py_abs s)"
      by (intro prodcons_eqI) (auto simp: s' py_move_def)
    with True PyLoading len show ?thesis by (simp add: consume_step_def)
  next
    case False
    with k have "k = sizeof T" by simp
    moreover have "py_abs (s\<lparr>py_write := w, py_loaded := xs\<rparr>) = (py_abs s)\<lparr>pc_write := w, pc_consumed := xs\<rparr>" for w xs
      by (rule prodcons_eqI) auto
    ultimately show ?thesis using ex PyLoading len
      by (auto simp: py_load_step_def consume_step_def py_abs_py_move)
  qed
qed (use ex in \<open>simp_all add: py_load_step_def\<close>)

lemma py_store_blocked:
  "py_store_step ops T p s = None \<Longrightarrow> produce_step ops T p (py_abs s) = None"
  by (cases "py_at s p") (auto simp: py_store_step_def produce_step_def split: option.splits if_splits)

lemma py_exec_refines:
  assumes "py_inv T s" and "ShmProducerConsumer_exec ops T e s = Some s'"
  shows "ProducerConsumer_exec ops T e (py_abs s) = Some (py_abs s')"
proof (cases e)
  case (PcStep p)
  with assms show ?thesis
    using py_store_refines [of ops T p s] py_load_refines [OF assms(1), of ops p] py_store_blocked [of ops T p s]
    by (auto split: option.splits)
next
  case (CallProduce p img)
  with assms(2) show ?thesis by (auto simp: py_abs_py_move split: if_splits)
next
  case (CallConsume p)
  with assms(2) show ?thesis by (auto simp: py_abs_py_move split: if_splits)
qed

lemma py_abs_new: "py_abs (ShmProducerConsumer_new ops T m) = ProducerConsumer_new ops m"
  by (rule prodcons_eqI) (auto simp: ShmProducerConsumer_new_def ProducerConsumer_new_def)

lemma py_reachable_refines:
  assumes "py_reachable ops T m s" and "length (value_init T) = sizeof T"
  shows "py_inv T s \<and> pc_reachable ops T m (py_abs s)"
  using assms(1)
proof (induction rule: py_reachable.induct)
  case init
  have "pc_reachable ops T m (py_abs (ShmProducerConsumer_new ops T m))"
    unfolding py_abs_new by (rule pc_reachable.init)
  with assms(2) show ?case by (simp add: py_inv_def ShmProducerConsumer_new_def)
next
  case (step s e s')
  then show ?case using py_inv_exec py_exec_refines by (blast intro: pc_reachable.step)
qed

section \<open>Properties\<close>

text \<open>
  C39. The class \<open>ProducerConsumer\<close> of the Python module, written out in the bindings with a buffer
  of its own, refines the one of \<^verbatim>\<open>producer_consumer.hpp\<close>: every run of any number of processes is
  a run of \<open>produce\<close> and \<open>consume\<close> with the same semaphores, the same shared bytes and the same objects
  handed over. So \<open>load()\<close> returns complete images, each once, in the order they were stored.
\<close>

theorem python_producer_consumer_refines:
  assumes "sem_spec ops cnt" and "py_reachable ops T m s" and "wf_ctype T"
  shows "pc_reachable ops T m (py_abs s) \<and>
         (ShmProducerConsumer_exec ops T e s = Some s' \<longrightarrow> ProducerConsumer_exec ops T e (py_abs s) = Some (py_abs s')) \<and>
         (py_stored s = py_loaded s \<or> (\<exists>d. py_stored s = py_loaded s @ [d]))"
proof -
  note ref = py_reachable_refines [OF assms(2) wf_ctypeD(4) [OF assms(3)]]
  then have "pc_inv T cnt (py_abs s)" using pc_inv_reachable [OF assms(1)] by blast
  from pc_inv_fifo [OF this] ref py_exec_refines show ?thesis by auto
qed

text \<open>
  \<open>set_data\<close> with an array of the declared shape stays inside the image: the object keeps its size, its
  timestamp and its frame number, and \<open>get_data\<close> returns the array.
\<close>

theorem image_set_get_data:
  assumes "object_of Image4K_RGB (encode_image img)" and "length arr = py_image_bytes"
  shows "py_get_data (py_set_data arr img) = arr \<and> object_of Image4K_RGB (encode_image (py_set_data arr img)) \<and>
         img_timestamp (py_set_data arr img) = img_timestamp img \<and>
         img_frame_number (py_set_data arr img) = img_frame_number img"
  using assms by (simp add: py_get_data_def py_set_data_def object_of_def encode_image_def sizeof_Image4K_RGB)

theorem image_set_get_data_witness:
  "\<exists>img. object_of Image4K_RGB (encode_image img) \<and> img_data img = replicate py_image_bytes 0 \<and>
     py_get_data (py_set_data (replicate py_image_bytes 255) img) = replicate py_image_bytes 255"
proof -
  let ?img = "\<lparr>img_timestamp = 5, img_frame_number = 1, img_data = replicate py_image_bytes 0\<rparr>"
  have "object_of Image4K_RGB (encode_image ?img)"
    by (simp add: object_of_def encode_image_def sizeof_Image4K_RGB)
  from image_set_get_data [OF this, of "replicate py_image_bytes 255"] this show ?thesis by auto
qed

text \<open>The run of the witness: a process stores \<open>[7]\<close>, another loads it, and the first stores \<open>[9]\<close>.\<close>

fun py_run :: "'q sem_ops \<Rightarrow> ctype \<Rightarrow> 'p pc_event list \<Rightarrow> ('p, 'q) py_prodcons \<Rightarrow> ('p, 'q) py_prodcons option" where
  "py_run ops T [] s = Some s"
| "py_run ops T (e # es) s = (case ShmProducerConsumer_exec ops T e s of None \<Rightarrow> None | Some s' \<Rightarrow> py_run ops T es s')"

lemma py_run_reachable: "py_reachable ops T m s \<Longrightarrow> py_run ops T es s = Some s' \<Longrightarrow> py_reachable ops T m s'"
  by (induction es arbitrary: s) (auto split: option.splits intro: py_reachable.step)

definition py_demo :: "nat pc_event list" where
  "py_demo = [CallProduce 0 [7], PcStep 0, PcStep 0, PcStep 0, CallConsume 1, PcStep 1, PcStep 1, PcStep 1,
     CallProduce 0 [9], PcStep 0, PcStep 0, PcStep 0]"

theorem python_producer_consumer_refines_witness:
  "\<exists>s. py_run nat_sem (flat 1 1) py_demo (ShmProducerConsumer_new nat_sem (flat 1 1) zero_mem) = Some s \<and>
     py_loaded s = [[7]] \<and> py_stored s = [[7], [9]] \<and> pc_reachable nat_sem (flat 1 1) zero_mem (py_abs s)"
proof -
  obtain s where s: "py_run nat_sem (flat 1 1) py_demo (ShmProducerConsumer_new nat_sem (flat 1 1) zero_mem) = Some s"
      "py_loaded s = [[7]]" "py_stored s = [[7], [9]]"
    by (simp add: py_demo_def nat_sem_def ShmProducerConsumer_new_def py_store_step_def py_load_step_def py_move_def)
  have r: "py_reachable nat_sem (flat 1 1) zero_mem s"
    using py_run_reachable [OF py_reachable.init s(1)] .
  have "wf_ctype (flat 1 1)" by (simp add: wf_ctype_def) code_simp
  from python_producer_consumer_refines [OF nat_sem_spec r this] s show ?thesis by blast
qed

end
