(* ===== verification/Fuzz_Input.thy ===== *)
theory Fuzz_Input
  imports Cyclic_Combined Stamped
begin

text \<open>
  What the two fuzz harnesses (\<^verbatim>\<open>fuzz/fuzz_cyclic_buffer.cpp\<close>, \<^verbatim>\<open>fuzz/fuzz_time_series.cpp\<close>) share:
  the names of their segments, the consumption of the input, the element type and the ways a run
  can end. The remaining input (\<open>ptr\<close> and \<open>remaining\<close>) is the list of the bytes not yet consumed.
  Mapping a segment is the business of the external package: \<open>mapped name\<close> is what the segment of
  that name holds when it is mapped. A harness runs in one thread, so each of its calls sees one
  memory throughout.
\<close>

section \<open>Ends of a run\<close>

datatype 'a outcome =
    Hang          \<comment> \<open>a call does not return\<close>
  | Trap          \<comment> \<open>\<open>__builtin_trap()\<close>\<close>
  | Return 'a

primrec and_then :: "'a outcome \<Rightarrow> ('a \<Rightarrow> 'b outcome) \<Rightarrow> 'b outcome" where
  "and_then Hang f = Hang"
| "and_then Trap f = Trap"
| "and_then (Return x) f = f x"

text \<open>A call of a reader, from its access number 0 on.\<close>

definition call :: "('a \<times> nat) option \<Rightarrow> 'a outcome" where
  "call r = (case r of None \<Rightarrow> Hang | Some (x, _) \<Rightarrow> Return x)"

definition trap_if :: "bool \<Rightarrow> unit outcome" where
  "trap_if b = (if b then Trap else Return ())"

definition trap_free :: "'a outcome \<Rightarrow> bool" where
  "trap_free r \<longleftrightarrow> (\<exists>x. r = Return x)"

lemma trap_free_then [simp]: "trap_free r \<Longrightarrow> and_then r (\<lambda>_. f) = f"
  by (auto simp: trap_free_def)

lemma trap_freeI: "\<exists>x c. r = Some (x, c) \<Longrightarrow> trap_free (call r)"
  by (auto simp: trap_free_def call_def)

lemma and_then_Return: "and_then r f = Return y \<longleftrightarrow> (\<exists>x. r = Return x \<and> f x = Return y)"
  by (cases r) auto

lemma trap_if_False [simp]: "trap_if False = Return ()"
  by (simp add: trap_if_def)

lemma call_Some [simp]: "call (Some (x, c)) = Return x"
  by (simp add: call_def)

lemma call_fst: "map_option fst r = Some x \<Longrightarrow> call r = Return x"
  by (auto simp: call_def)

section \<open>Names\<close>

text \<open>\<open>std::to_string\<close> of an unsigned number.\<close>

definition digit :: "nat \<Rightarrow> char" where
  "digit d = char_of (48 + d)"

fun to_string :: "nat \<Rightarrow> string" where
  "to_string n = (if n < 10 then [digit n] else to_string (n div 10) @ [digit (n mod 10)])"

declare to_string.simps [simp del]

text \<open>The name, and the counter after \<open>fetch_add(1)\<close>.\<close>

definition unique_name :: "string \<Rightarrow> nat \<Rightarrow> u64 \<Rightarrow> string \<times> u64" where
  "unique_name prefix pid g_counter =
     (prefix @ ''_'' @ to_string pid @ ''_'' @ to_string (unat g_counter), g_counter + 1)"

text \<open>The segments that the next \<open>n\<close> names refer to are zeroed when they are mapped, as segments are
  that did not exist before.\<close>

definition fresh_segments :: "(string \<Rightarrow> mem) \<Rightarrow> nat \<Rightarrow> u64 \<Rightarrow> nat \<Rightarrow> bool" where
  "fresh_segments mapped pid g_counter n \<longleftrightarrow>
     (\<forall>prefix. \<forall>i < n. mapped (fst (unique_name prefix pid (g_counter + of_nat i))) = zero_mem)"

lemma fresh_segmentsD:
  "fresh_segments mapped pid g n \<Longrightarrow> i < n \<Longrightarrow> mapped (fst (unique_name prefix pid (g + of_nat i))) = zero_mem"
  by (simp add: fresh_segments_def)

section \<open>Input\<close>

definition consume :: "nat \<Rightarrow> byte list \<Rightarrow> (byte list \<times> byte list) option" where
  "consume n rest = (if length rest < n then None else Some (take n rest, drop n rest))"

text \<open>\<open>if (!consume(ptr, remaining, x)) x = 0;\<close>\<close>

definition consume_or_zero :: "nat \<Rightarrow> byte list \<Rightarrow> byte list \<times> byte list" where
  "consume_or_zero n rest = (case consume n rest of None \<Rightarrow> (replicate n 0, rest) | Some r \<Rightarrow> r)"

lemma consume_shrinks: "consume n rest = Some (x, rest') \<Longrightarrow> length rest' \<le> length rest"
  by (auto simp: consume_def split: if_splits)

lemma consume_length: "consume n rest = Some (x, rest') \<Longrightarrow> length x = n"
  by (auto simp: consume_def split: if_splits)

lemma consume_or_zero_eq: "consume_or_zero n rest = (x, rest') \<Longrightarrow> length x = n \<and> length rest' \<le> length rest"
  by (auto simp: consume_or_zero_def consume_def split: if_splits)

section \<open>Elements\<close>

text \<open>\<open>Elem = Stamped<double>\<close>.\<close>

definition Elem :: ctype where
  "Elem = Stamped_type double_type"

definition Cap :: nat where
  "Cap = 16"

definition elem :: "u64 \<Rightarrow> u64 \<Rightarrow> byte list \<Rightarrow> byte list" where
  "elem ts seq val =
     encode_stamped double_type (\<lambda>_. 0) \<lparr>timestamp_ns = ts, sequence = seq, stamped_data = val\<rparr>"

lemma wf_Elem: "wf_ctype Elem"
  by (simp add: Elem_def wf_Stamped_type wf_double_type)

lemma elem_object: "length val = 8 \<Longrightarrow> object_of Elem (elem ts seq val)"
  using length_encode_stamped [OF wf_double_type]
  by (simp add: Elem_def elem_def object_of_def)

lemma capacity_ok_16: "CyclicBuffer_capacity_ok Cap"
  by (simp add: CyclicBuffer_capacity_ok_def Cap_def) code_simp

section \<open>Buffers of the harnesses\<close>

text \<open>The buffer whose segment holds \<open>m\<close>; well-formed means that no insertion is under way.\<close>

abbreviation fuzz_buf :: "mem \<Rightarrow> cbuf" where
  "fuzz_buf m \<equiv> \<lparr>cb_T = Elem, cb_N = Cap, cb_m = m\<rparr>"

definition fuzz_ok :: "mem \<Rightarrow> bool" where
  "fuzz_ok m \<longleftrightarrow> cb_ok (fuzz_buf m)"

lemma fuzz_ok_zero: "fuzz_ok zero_mem"
  by (simp add: fuzz_ok_def cb_ok_def wf_Elem capacity_ok_16)

definition fuzz_inserted :: "byte list \<Rightarrow> mem \<Rightarrow> mem" where
  "fuzz_inserted e m = exec_acts (CyclicBufferWriter_insert Elem Cap e m) m"

lemma fuzz_insert:
  assumes "fuzz_ok m" and "length val = 8"
  shows "fuzz_ok (fuzz_inserted (elem ts seq val) m)"
    and "load_u64 (fuzz_inserted (elem ts seq val) m) 0 = load_u64 m 0 + 1"
proof -
  have obj: "cb_object (fuzz_buf m) (elem ts seq val)"
    using elem_object [OF assms(2)] by (simp add: cb_object_def)
  with assms(1) show "fuzz_ok (fuzz_inserted (elem ts seq val) m)"
    using cb_ok_insert [of "fuzz_buf m" "elem ts seq val"]
    by (simp add: fuzz_ok_def cb_insert_def fuzz_inserted_def)
  show "load_u64 (fuzz_inserted (elem ts seq val) m) 0 = load_u64 m 0 + 1"
    using obj load_inserted(3) [OF wf_Elem, of "elem ts seq val" "next_slot Cap m" m]
    by (simp add: fuzz_inserted_def exec_insert capacity_ok_16 cb_object_def object_of_def)
qed

text \<open>The readers at rest.\<close>

definition fuzz_avail :: "mem \<Rightarrow> u64" where
  "fuzz_avail m = min (load_u64 m 0) (of_nat Cap)"

lemma unat_fuzz_avail: "unat (fuzz_avail m) = length (cb_contents (fuzz_buf m))"
  using min_writes [OF capacity_ok_16] by (simp add: fuzz_avail_def cb_count_def)

lemma fuzz_avail_bounds: "fuzz_avail m \<le> of_nat Cap" "fuzz_avail m \<le> load_u64 m 0"
  by (simp_all add: fuzz_avail_def)

lemma fuzz_readers:
  assumes "fuzz_ok m"
  shows "CyclicBufferReader_available Cap (\<lambda>_. m) c = (fuzz_avail m, c + 1)"
    and "CyclicBufferReader_total_writes (\<lambda>_. m) c = (load_u64 m 0, c + 1)"
    and "trap_free (call (CyclicBufferReader_get_latest Elem Cap (\<lambda>_. m) c))"
    and "ri < fuzz_avail m \<Longrightarrow> trap_free (call (CyclicBufferReader_get Elem Cap (\<lambda>_. m) ri c))"
    and "\<exists>r. call (CyclicBufferReader_try_get Elem Cap (\<lambda>_. m) ri mx c) = Return r \<and>
           (r \<noteq> None) = (ri < fuzz_avail m)"
proof -
  have ok: "cb_ok (fuzz_buf m)" using assms by (simp add: fuzz_ok_def)
  show "CyclicBufferReader_available Cap (\<lambda>_. m) c = (fuzz_avail m, c + 1)"
    by (simp add: CyclicBufferReader_available_def fuzz_avail_def)
  show "CyclicBufferReader_total_writes (\<lambda>_. m) c = (load_u64 m 0, c + 1)"
    by (simp add: CyclicBufferReader_total_writes_def)
  show "trap_free (call (CyclicBufferReader_get_latest Elem Cap (\<lambda>_. m) c))"
    using call_fst [OF get_latest_at_rest [OF ok, of c]] by (simp add: trap_free_def)
  show "trap_free (call (CyclicBufferReader_get Elem Cap (\<lambda>_. m) ri c))" if "ri < fuzz_avail m"
  proof -
    have "unat ri < length (cb_contents (fuzz_buf m))"
      using that by (simp only: unat_fuzz_avail [symmetric] word_less_nat_alt)
    from get_at_rest [OF ok this, of c] show ?thesis by (simp add: trap_free_def)
  qed
  show "\<exists>r. call (CyclicBufferReader_try_get Elem Cap (\<lambda>_. m) ri mx c) = Return r \<and>
           (r \<noteq> None) = (ri < fuzz_avail m)"
    using try_get_at_rest [OF ok, of ri mx c] unat_fuzz_avail [of m] by (simp add: word_less_nat_alt)
qed

section \<open>Loops over the input\<close>

text \<open>
  The contract of a harness loop: \<open>loop\<close> consumes the input operation by operation. When every
  operation returns and keeps the invariant, so does the loop.
\<close>

locale input_loop =
  fixes step :: "byte \<Rightarrow> byte list \<Rightarrow> 's \<Rightarrow> (byte list \<times> 's) outcome"
    and loop :: "byte list \<Rightarrow> 's \<Rightarrow> 's outcome"
    and invar :: "'s \<Rightarrow> bool"
  assumes loop_Nil: "loop [] s = Return s"
    and loop_Cons: "step op rest s = Return (rest', s') \<Longrightarrow> loop (op # rest) s = loop rest' s'"
    and step_shrinks: "step op rest s = Return (rest', s') \<Longrightarrow> length rest' \<le> length rest"
    and step_returns: "invar s \<Longrightarrow> \<exists>rest' s'. step op rest s = Return (rest', s') \<and> invar s'"
begin

lemma whole_loop_returns: "invar s \<Longrightarrow> \<exists>s'. loop rest s = Return s' \<and> invar s'"
proof (induction rest arbitrary: s rule: length_induct)
  case (1 rest)
  show ?case
  proof (cases rest)
    case Nil
    with 1 show ?thesis by (simp add: loop_Nil)
  next
    case (Cons op tail)
    obtain rest' s' where step: "step op tail s = Return (rest', s')" and inv: "invar s'"
      using step_returns [OF 1(2)] by blast
    have "length rest' < length rest"
      using step_shrinks [OF step] Cons by simp
    with 1(1) inv show ?thesis by (simp add: Cons loop_Cons [OF step])
  qed
qed

end

section \<open>Names are never used twice\<close>

lemma digit_neq_underscore: "d < 10 \<Longrightarrow> digit d \<noteq> CHR ''_''"
proof
  assume d: "d < 10" and "digit d = CHR ''_''"
  then have "of_char (digit d) = (of_char (CHR ''_'') :: nat)" by simp
  with d show False by (simp add: digit_def)
qed

lemma digit_inj: "d < 10 \<Longrightarrow> e < 10 \<Longrightarrow> digit d = digit e \<longleftrightarrow> d = e"
proof
  assume "d < 10" "e < 10" "digit d = digit e"
  then have "of_char (digit d) = (of_char (digit e) :: nat)" by simp
  with \<open>d < 10\<close> \<open>e < 10\<close> show "d = e" by (simp add: digit_def)
qed simp

lemma to_string_no_underscore: "c \<in> set (to_string n) \<Longrightarrow> c \<noteq> CHR ''_''"
proof (induction n rule: to_string.induct)
  case (1 n)
  then show ?case
    using digit_neq_underscore [of "n mod 10"] digit_neq_underscore [of n]
    by (subst (asm) (2) to_string.simps) (auto split: if_splits)
qed

lemma to_string_Nil [simp]: "to_string n \<noteq> []" "[] \<noteq> to_string n"
  by (subst to_string.simps, simp)+

lemma to_string_inj: "to_string m = to_string n \<Longrightarrow> m = n"
proof (induction m arbitrary: n rule: to_string.induct)
  case (1 m)
  note eq = 1(2)
  consider "m < 10" "n < 10" | "10 \<le> m" "10 \<le> n" | "m < 10" "10 \<le> n" | "10 \<le> m" "n < 10" by linarith
  then show ?case
  proof cases
    case 1
    with eq show ?thesis by (simp add: to_string.simps [of m] to_string.simps [of n] digit_inj)
  next
    case 2
    with eq have "to_string (m div 10) = to_string (n div 10)" "m mod 10 = n mod 10"
      by (simp_all add: to_string.simps [of m] to_string.simps [of n] digit_inj)
    with 1(1) 2 have "m div 10 = n div 10" by simp
    with \<open>m mod 10 = n mod 10\<close> show ?thesis by (metis div_mult_mod_eq)
  qed (use eq in \<open>simp_all add: to_string.simps [of m] to_string.simps [of n]\<close>)
qed

text \<open>Two calls with different counters give different names, whatever the prefixes.\<close>

lemma unique_name_inj:
  assumes "fst (unique_name p pid k) = fst (unique_name p' pid' k')"
  shows "k = k'"
proof -
  have last: "takeWhile (\<lambda>c. c \<noteq> CHR ''_'') (rev (fst (unique_name q i j))) = rev (to_string (unat j))"
    for q i and j :: u64
    unfolding unique_name_def using to_string_no_underscore [of _ "unat j"]
    by (simp, subst takeWhile_append2) auto
  from last [of p pid k] last [of p' pid' k'] assms have "to_string (unat k) = to_string (unat k')" by simp
  then show ?thesis using to_string_inj by (metis word_unat_eq_iff)
qed

end
