(* ===== verification/Fuzz_Cyclic.thy ===== *)
theory Fuzz_Cyclic
  imports Fuzz_Input
begin

text \<open>
  \<^verbatim>\<open>fuzz/fuzz_cyclic_buffer.cpp\<close>: the harness that drives a cyclic buffer with operations decoded
  from arbitrary bytes and calls \<open>__builtin_trap()\<close> when one of its checks fails. The theory
  translates the whole of \<open>LLVMFuzzerTestOneInput\<close>, block by block, and shows that no input makes
  it trap or hang.
\<close>

section \<open>Empty input\<close>

definition fuzz_cb_empty :: "mem \<Rightarrow> unit outcome" where
  "fuzz_cb_empty m =
     and_then (call (CyclicBuffer_get_latest Elem Cap (\<lambda>_. m) 0)) (\<lambda>_.
     and_then (call (Some (CyclicBuffer_available Cap (\<lambda>_. m) 0))) (\<lambda>_.
     and_then (call (Some (CyclicBuffer_total_writes (\<lambda>_. m) 0))) (\<lambda>_.
     and_then (call (CyclicBuffer_try_get Elem Cap (\<lambda>_. m) 0 4 0)) (\<lambda>_.
     and_then (call (CyclicBuffer_try_get Elem Cap (\<lambda>_. m) 999 4 0)) (\<lambda>_. Return ())))))"

section \<open>One process\<close>

text \<open>The representation of the literal \<open>3.14\<close>.\<close>

definition double_3_14 :: "byte list" where
  "double_3_14 = le_bytes 8 (0x40091EB851EB851F :: u64)"

definition fuzz_cb_extreme_ts :: "byte \<Rightarrow> u64" where
  "fuzz_cb_extreme_ts which =
     (let k = unat which mod 4
      in if k = 0 then 0 else if k = 1 then - 1 else if k = 2 then (- 1) div 2 else 1)"

text \<open>The body of the loop after the operation code has been consumed: the input that is left and
  the segment.\<close>

definition fuzz_cb_same_op :: "byte \<Rightarrow> byte list \<Rightarrow> mem \<Rightarrow> (byte list \<times> mem) outcome" where
  "fuzz_cb_same_op op rest m =
     (let k = unat op mod 6
      in if k = 0 then
           (case consume 8 rest of
              None \<Rightarrow> Return (rest, m)
            | Some (ts, rest) \<Rightarrow>
                let (val, rest) = consume_or_zero 8 rest;
                    (seq, rest) = consume_or_zero 8 rest;
                    e = elem (le_word ts) (le_word seq) val
                in Return (rest, exec_acts (CyclicBuffer_insert Elem Cap e m) m))
         else if k = 1 then
           and_then (call (CyclicBuffer_get_latest Elem Cap (\<lambda>_. m) 0)) (\<lambda>_. Return (rest, m))
         else if k = 2 then
           (case consume 1 rest of
              None \<Rightarrow> Return (rest, m)
            | Some (idx, rest) \<Rightarrow>
                let avail = fst (CyclicBuffer_available Cap (\<lambda>_. m) 0)
                in if avail > 0 then
                     and_then (call (CyclicBuffer_get Elem Cap (\<lambda>_. m) (le_word idx mod avail) 0))
                       (\<lambda>_. Return (rest, m))
                   else Return (rest, m))
         else if k = 3 then
           (case consume 2 rest of
              None \<Rightarrow> Return (rest, m)
            | Some (idx, rest) \<Rightarrow>
                and_then (call (CyclicBuffer_try_get Elem Cap (\<lambda>_. m) (le_word idx) 4 0))
                  (\<lambda>_. Return (rest, m)))
         else if k = 4 then
           (let avail = fst (CyclicBuffer_available Cap (\<lambda>_. m) 0);
                tw = fst (CyclicBuffer_total_writes (\<lambda>_. m) 0)
            in and_then (trap_if (avail > of_nat Cap)) (\<lambda>_.
               and_then (trap_if (avail > tw)) (\<lambda>_. Return (rest, m))))
         else
           (case consume 1 rest of
              None \<Rightarrow> Return (rest, m)
            | Some (which, rest) \<Rightarrow>
                let e = elem (fuzz_cb_extreme_ts (le_word which)) (le_word which) double_3_14
                in Return (rest, exec_acts (CyclicBuffer_insert Elem Cap e m) m)))"

lemma fuzz_cb_same_op_shrinks:
  "fuzz_cb_same_op op rest m = Return (rest', m') \<Longrightarrow> length rest' \<le> length rest"
  unfolding fuzz_cb_same_op_def call_def trap_if_def Let_def
  by (auto split: if_splits option.splits prod.splits dest!: consume_shrinks consume_or_zero_eq)

function fuzz_cb_same_loop :: "byte list \<Rightarrow> mem \<Rightarrow> mem outcome" where
  "fuzz_cb_same_loop [] m = Return m"
| "fuzz_cb_same_loop (op # rest) m =
     (case fuzz_cb_same_op op rest m of
        Return (rest', m') \<Rightarrow> fuzz_cb_same_loop rest' m'
      | Trap \<Rightarrow> Trap
      | Hang \<Rightarrow> Hang)"
  by pat_completeness auto
termination
  by (relation "measure (\<lambda>(rest, m). length rest)") (auto dest: fuzz_cb_same_op_shrinks)

text \<open>The whole block, with the checks after the loop.\<close>

definition fuzz_cb_same :: "byte list \<Rightarrow> mem \<Rightarrow> unit outcome" where
  "fuzz_cb_same data m =
     and_then (fuzz_cb_same_loop data m) (\<lambda>m.
       let avail = fst (CyclicBuffer_available Cap (\<lambda>_. m) 0)
       in and_then (trap_if (avail > of_nat Cap)) (\<lambda>_.
          if avail > 0 then
            and_then (call (CyclicBuffer_get_latest Elem Cap (\<lambda>_. m) 0)) (\<lambda>_.
            and_then (call (CyclicBuffer_get Elem Cap (\<lambda>_. m) 0 0)) (\<lambda>_.
            if avail > 1 then
              and_then (call (CyclicBuffer_get Elem Cap (\<lambda>_. m) (avail - 1) 0)) (\<lambda>_. Return ())
            else Return ()))
          else Return ()))"

section \<open>Writer and reader\<close>

text \<open>The state is the segment and \<open>insert_count\<close>.\<close>

definition fuzz_cb_wr_op :: "byte \<Rightarrow> byte list \<Rightarrow> mem \<times> u64 \<Rightarrow> (byte list \<times> mem \<times> u64) outcome" where
  "fuzz_cb_wr_op op rest s =
     (let k = unat op mod 4; m = fst s; insert_count = snd s
      in if k = 0 then
           (case consume 8 rest of
              None \<Rightarrow> Return (rest, s)
            | Some (ts, rest) \<Rightarrow>
                let (val, rest) = consume_or_zero 8 rest;
                    e = elem (le_word ts) insert_count val
                in Return (rest, exec_acts (CyclicBufferWriter_insert Elem Cap e m) m, insert_count + 1))
         else if k = 1 then
           and_then (call (CyclicBufferReader_get_latest Elem Cap (\<lambda>_. m) 0)) (\<lambda>_. Return (rest, s))
         else if k = 2 then
           (case consume 1 rest of
              None \<Rightarrow> Return (rest, s)
            | Some (idx, rest) \<Rightarrow>
                and_then (call (CyclicBufferReader_try_get Elem Cap (\<lambda>_. m) (le_word idx) 4 0))
                  (\<lambda>_. Return (rest, s)))
         else
           (let avail = fst (CyclicBufferReader_available Cap (\<lambda>_. m) 0);
                tw = fst (CyclicBufferReader_total_writes (\<lambda>_. m) 0)
            in and_then (trap_if (avail > of_nat Cap)) (\<lambda>_.
               and_then (trap_if (avail > tw)) (\<lambda>_. Return (rest, s)))))"

lemma fuzz_cb_wr_op_shrinks:
  "fuzz_cb_wr_op op rest s = Return (rest', s') \<Longrightarrow> length rest' \<le> length rest"
  unfolding fuzz_cb_wr_op_def call_def trap_if_def Let_def
  by (auto split: if_splits option.splits prod.splits dest!: consume_shrinks consume_or_zero_eq)

function fuzz_cb_wr_loop :: "byte list \<Rightarrow> mem \<times> u64 \<Rightarrow> (mem \<times> u64) outcome" where
  "fuzz_cb_wr_loop [] s = Return s"
| "fuzz_cb_wr_loop (op # rest) s =
     (case fuzz_cb_wr_op op rest s of
        Return (rest', s') \<Rightarrow> fuzz_cb_wr_loop rest' s'
      | Trap \<Rightarrow> Trap
      | Hang \<Rightarrow> Hang)"
  by pat_completeness auto
termination
  by (relation "measure (\<lambda>(rest, s). length rest)") (auto dest: fuzz_cb_wr_op_shrinks)

section \<open>Overflow\<close>

text \<open>One insertion per eight bytes of input: \<open>rest\<close> is \<open>data + i\<close>.\<close>

function fuzz_cb_fill :: "byte list \<Rightarrow> u64 \<Rightarrow> mem \<Rightarrow> u64 \<times> mem" where
  "fuzz_cb_fill rest seq m =
     (if 8 \<le> length rest then
        let e = elem seq seq (take 8 rest)
        in fuzz_cb_fill (drop 8 rest) (seq + 1) (exec_acts (CyclicBuffer_insert Elem Cap e m) m)
      else (seq, m))"
  by pat_completeness auto
termination
  by (relation "measure (\<lambda>(rest, seq, m). length rest)") auto

fun fuzz_cb_read_all :: "mem \<Rightarrow> nat list \<Rightarrow> unit outcome" where
  "fuzz_cb_read_all m [] = Return ()"
| "fuzz_cb_read_all m (i # is) =
     and_then (call (CyclicBuffer_try_get Elem Cap (\<lambda>_. m) (of_nat i) 4 0)) (\<lambda>elem.
     and_then (trap_if (elem = None)) (\<lambda>_. fuzz_cb_read_all m is))"

definition fuzz_cb_overflow :: "byte list \<Rightarrow> mem \<Rightarrow> unit outcome" where
  "fuzz_cb_overflow data m =
     (let (seq, m) = fuzz_cb_fill data 0 m;
          avail = fst (CyclicBuffer_available Cap (\<lambda>_. m) 0);
          expected = (if seq < of_nat Cap then seq else of_nat Cap)
      in and_then (trap_if (avail \<noteq> expected)) (\<lambda>_.
         and_then (fuzz_cb_read_all m [0..<unat avail]) (\<lambda>_.
         and_then (call (CyclicBuffer_try_get Elem Cap (\<lambda>_. m) avail 4 0)) (\<lambda>elem.
         trap_if (elem \<noteq> None)))))"

section \<open>The harness\<close>

definition fuzz_cyclic_buffer_TestOneInput ::
    "(string \<Rightarrow> mem) \<Rightarrow> nat \<Rightarrow> byte list \<Rightarrow> u64 \<Rightarrow> (int \<times> u64) outcome" where
  "fuzz_cyclic_buffer_TestOneInput mapped pid data g_counter =
     (if length data = 0 then
        let (name, g_counter) = unique_name ''fuzz_cb_empty'' pid g_counter
        in and_then (fuzz_cb_empty (mapped name)) (\<lambda>_. Return (0, g_counter))
      else
        let (name, g_counter) = unique_name ''fuzz_cb_same'' pid g_counter
        in and_then (fuzz_cb_same data (mapped name)) (\<lambda>_.
           let (name, g_counter) = unique_name ''fuzz_cb_wr'' pid g_counter
           in and_then (fuzz_cb_wr_loop data (mapped name, 0)) (\<lambda>_.
              let (name, g_counter) = unique_name ''fuzz_cb_overflow'' pid g_counter
              in and_then (fuzz_cb_overflow data (mapped name)) (\<lambda>_. Return (0, g_counter)))))"

declare fuzz_cb_fill.simps [simp del]

section \<open>No operation traps\<close>

lemma fuzz_try_get_free: "fuzz_ok m \<Longrightarrow> trap_free (call (CyclicBufferReader_try_get Elem Cap (\<lambda>_. m) ri mx c))"
  using fuzz_readers(5) [of m ri mx c] by (auto simp: trap_free_def)

lemmas fuzz_cb_simps = CyclicBuffer_methods fuzz_readers(1-4) fuzz_try_get_free
  fuzz_avail_bounds [THEN leD]

lemma fuzz_ok_inserted: "fuzz_ok m \<Longrightarrow> length val = 8 \<Longrightarrow>
    fuzz_ok (exec_acts (CyclicBufferWriter_insert Elem Cap (elem ts seq val) m) m)"
  using fuzz_insert(1) by (simp add: fuzz_inserted_def)

lemma length_double_3_14 [simp]: "length double_3_14 = 8"
  by (simp add: double_3_14_def)

lemma mod_less_u64: "0 < (a :: u64) \<Longrightarrow> x mod a < a"
  by (simp add: word_less_nat_alt unat_mod)

lemma pred_less_u64: "0 < (a :: u64) \<Longrightarrow> a - 1 < a"
proof -
  assume "0 < a"
  then have "1 \<le> a" "0 < unat a" by (simp_all add: word_le_nat_alt word_less_nat_alt)
  then show "a - 1 < a" by (simp add: word_less_nat_alt unat_sub)
qed

lemma fuzz_cb_same_op_returns:
  assumes "fuzz_ok m"
  shows "\<exists>rest' m'. fuzz_cb_same_op op rest m = Return (rest', m') \<and> fuzz_ok m'"
proof -
  have "unat op mod 6 < 6" by simp
  then consider (insert) "unat op mod 6 = 0" | (extreme) "unat op mod 6 = 5" | (get) "unat op mod 6 = 2"
    | (read) "unat op mod 6 \<in> {1, 3, 4}"
    by fastforce
  then show ?thesis
  proof cases
    case insert
    then show ?thesis
      using assms by (auto simp: fuzz_cb_same_op_def CyclicBuffer_methods Let_def fuzz_ok_inserted
          dest: consume_or_zero_eq split: option.split prod.split)
  next
    case extreme
    then show ?thesis
      using assms fuzz_ok_inserted by (auto simp: fuzz_cb_same_op_def fuzz_cb_simps split: option.split)
  next
    case get
    then show ?thesis
      using assms mod_less_u64 [of "fuzz_avail m"]
      by (auto simp: fuzz_cb_same_op_def fuzz_cb_simps Let_def split: option.split)
  next
    case read
    then show ?thesis
      using assms by (auto simp: fuzz_cb_same_op_def fuzz_cb_simps Let_def split: option.split)
  qed
qed

interpretation fuzz_same: input_loop fuzz_cb_same_op fuzz_cb_same_loop fuzz_ok
  by unfold_locales (auto dest: fuzz_cb_same_op_shrinks intro: fuzz_cb_same_op_returns)

lemma fuzz_cb_wr_op_returns:
  assumes "fuzz_ok (fst s)"
  shows "\<exists>rest' s'. fuzz_cb_wr_op op rest s = Return (rest', s') \<and> fuzz_ok (fst s')"
proof (cases "unat op mod 4 = 0")
  case True
  then show ?thesis
    using assms by (cases s) (auto simp: fuzz_cb_wr_op_def Let_def fuzz_ok_inserted
        dest: consume_or_zero_eq split: option.split prod.split)
next
  case False
  then show ?thesis
    using assms by (cases s) (auto simp: fuzz_cb_wr_op_def fuzz_cb_simps Let_def split: option.split)
qed

interpretation fuzz_wr: input_loop fuzz_cb_wr_op fuzz_cb_wr_loop "\<lambda>s. fuzz_ok (fst s)"
  by unfold_locales (simp_all add: fuzz_cb_wr_op_shrinks fuzz_cb_wr_op_returns del: split_paired_Ex)

section \<open>The blocks\<close>

lemma fuzz_cb_empty_returns: "fuzz_ok m \<Longrightarrow> fuzz_cb_empty m = Return ()"
  by (simp add: fuzz_cb_empty_def fuzz_cb_simps)

lemma fuzz_cb_same_returns:
  assumes "fuzz_ok m"
  shows "fuzz_cb_same data m = Return ()"
proof -
  obtain m' where m': "fuzz_cb_same_loop data m = Return m'" "fuzz_ok m'"
    using fuzz_same.whole_loop_returns [OF assms] by blast
  have "fuzz_avail m' - 1 < fuzz_avail m'" if "0 < fuzz_avail m'"
    using that by (rule pred_less_u64)
  with m' show ?thesis
    by (simp add: fuzz_cb_same_def fuzz_cb_simps Let_def)
qed

lemma fuzz_cb_wr_returns: "fuzz_ok m \<Longrightarrow> \<exists>s. fuzz_cb_wr_loop data (m, k) = Return s"
  using fuzz_wr.whole_loop_returns [of "(m, k)" data] by auto

lemma fuzz_cb_fill_invar:
  "fuzz_ok m \<Longrightarrow> load_u64 m 0 = seq \<Longrightarrow> fuzz_cb_fill rest seq m = (seq', m') \<Longrightarrow> fuzz_ok m' \<and> load_u64 m' 0 = seq'"
proof (induction rest seq m rule: fuzz_cb_fill.induct)
  case (1 rest seq m)
  show ?case
  proof (cases "8 \<le> length rest")
    case True
    let ?e = "elem seq seq (take 8 rest)"
    have "fuzz_ok (fuzz_inserted ?e m)" "load_u64 (fuzz_inserted ?e m) 0 = seq + 1"
      using fuzz_insert [OF 1(2)] 1(3) True by simp_all
    moreover have "fuzz_cb_fill (drop 8 rest) (seq + 1) (fuzz_inserted ?e m) = (seq', m')"
      using 1(4) True fuzz_cb_fill.simps [of rest seq m] by (simp add: fuzz_inserted_def CyclicBuffer_methods)
    ultimately show ?thesis
      using 1(1) [OF True refl] by (simp add: fuzz_inserted_def CyclicBuffer_methods)
  next
    case False
    with 1 show ?thesis by (simp add: fuzz_cb_fill.simps)
  qed
qed

lemma fuzz_cb_read_all_returns:
  "fuzz_ok m \<Longrightarrow> (\<And>i. i \<in> set is \<Longrightarrow> i < unat (fuzz_avail m)) \<Longrightarrow> fuzz_cb_read_all m is = Return ()"
proof (induction "is")
  case (Cons i "is")
  have "i < unat (fuzz_avail m)" using Cons.prems(2) by simp
  moreover have "unat (fuzz_avail m) < 2 ^ 64" using unsigned_less [of "fuzz_avail m", where 'a = nat] by simp
  ultimately have "(of_nat i :: u64) < fuzz_avail m" by (simp add: word_less_nat_alt unat_of_nat)
  with fuzz_readers(5) [OF Cons.prems(1), of "of_nat i" 4 0] Cons show ?case
    by (auto simp: CyclicBuffer_methods)
qed simp

lemma fuzz_cb_overflow_returns:
  assumes "fuzz_ok m" and "load_u64 m 0 = 0"
  shows "fuzz_cb_overflow data m = Return ()"
proof -
  obtain seq m' where fill: "fuzz_cb_fill data 0 m = (seq, m')" by (cases "fuzz_cb_fill data 0 m")
  from fuzz_cb_fill_invar [OF assms fill] have m': "fuzz_ok m'" "load_u64 m' 0 = seq" by simp_all
  obtain r where "call (CyclicBufferReader_try_get Elem Cap (\<lambda>_. m') (fuzz_avail m') 4 0) = Return r" "r = None"
    using fuzz_readers(5) [OF m'(1), of "fuzz_avail m'" 4 0] by auto
  moreover have "fuzz_avail m' = (if seq < of_nat Cap then seq else of_nat Cap)"
    using m'(2) by (auto simp: fuzz_avail_def min_def)
  moreover have "fuzz_cb_read_all m' [0..<unat (fuzz_avail m')] = Return ()"
    using m'(1) by (intro fuzz_cb_read_all_returns) auto
  ultimately show ?thesis
    using m'(1) by (simp add: fuzz_cb_overflow_def fill fuzz_readers CyclicBuffer_methods Let_def)
qed

section \<open>Properties\<close>

text \<open>
  C19. No input makes the cyclic-buffer harness trap or hang: whatever the bytes, however many, when
  the segments of the names it makes up are zeroed at first, \<open>LLVMFuzzerTestOneInput\<close> returns 0, and
  it has drawn one name for an empty input and three otherwise. In particular all its checks hold:
  \<open>available()\<close> never exceeds the capacity or \<open>total_writes()\<close>, it is exactly the smaller of the
  capacity and the number of insertions, every readable index can be read and the next one cannot.
\<close>

theorem fuzz_cyclic_buffer_never_traps:
  assumes "fresh_segments mapped pid g_counter 3"
  shows "fuzz_cyclic_buffer_TestOneInput mapped pid data g_counter
           = Return (0, g_counter + (if data = [] then 1 else 3))"
proof -
  have ok: "fuzz_ok zero_mem" "load_u64 zero_mem 0 = 0" by (simp_all add: fuzz_ok_zero)
  note fresh = fresh_segmentsD [OF assms, of 0] fresh_segmentsD [OF assms, of 1] fresh_segmentsD [OF assms, of 2]
  have names: "snd (unique_name p pid k) = k + 1" for p k by (simp add: unique_name_def)
  obtain s where "fuzz_cb_wr_loop data (zero_mem, 0) = Return s" using fuzz_cb_wr_returns [OF ok(1)] by blast
  with fresh names show ?thesis
    by (simp add: fuzz_cyclic_buffer_TestOneInput_def fuzz_cb_empty_returns [OF ok(1)] fuzz_cb_same_returns [OF ok(1)]
        fuzz_cb_overflow_returns [OF ok] case_prod_beta Let_def add.assoc)
qed

section \<open>Witnesses\<close>

theorem fuzz_cyclic_buffer_never_traps_witness:
  "fuzz_cyclic_buffer_TestOneInput (\<lambda>_. zero_mem) 7 [0, 1, 2, 3, 4, 5, 6, 7, 8, 4, 2, 0] 5 = Return (0, 8)"
  using fuzz_cyclic_buffer_never_traps [of "\<lambda>_. zero_mem" 7 5 "[0, 1, 2, 3, 4, 5, 6, 7, 8, 4, 2, 0]"]
  by (simp add: fresh_segments_def)

end
