(* ===== verification/Fuzz_Time_Series.thy ===== *)
theory Fuzz_Time_Series
  imports Fuzz_Input Time_Series
begin

text \<open>
  \<^verbatim>\<open>fuzz/fuzz_time_series.cpp\<close>: the harness that inserts elements with growing time stamps and
  queries them through a \<open>TimeSeries\<close>, with operations decoded from arbitrary bytes. The theory
  translates the whole of \<open>LLVMFuzzerTestOneInput\<close> and shows that no input makes it trap or hang.
\<close>

section \<open>Queries\<close>

text \<open>The calls of \<open>ts\<close> on the segment \<open>m\<close>; \<open>key\<close> is the default extractor.\<close>

definition ts_key :: "byte list \<Rightarrow> u64" where
  "ts_key = StampedKeyExtractor double_type"

definition ts_reader :: "mem \<Rightarrow> byte list ts_reader" where
  "ts_reader m = cyclic_reader Elem Cap (\<lambda>_. m)"

definition ts_find_closest :: "mem \<Rightarrow> u64 \<Rightarrow> u64 option \<Rightarrow> byte list option outcome" where
  "ts_find_closest m target max_distance = call (find_closest (ts_reader m) ts_key target max_distance 0)"

definition ts_find_interpolation_pair :: "mem \<Rightarrow> u64 \<Rightarrow> byte list InterpPair option outcome" where
  "ts_find_interpolation_pair m target = call (find_interpolation_pair (ts_reader m) ts_key target 0)"

definition ts_get_latest_if_fresh :: "mem \<Rightarrow> u64 \<Rightarrow> byte list option outcome" where
  "ts_get_latest_if_fresh m min_key = call (get_latest_if_fresh (ts_reader m) ts_key min_key 0)"

definition ts_get_latest :: "mem \<Rightarrow> byte list outcome" where
  "ts_get_latest m = call (TimeSeries_get_latest Elem Cap (\<lambda>_. m) 0)"

definition ts_available :: "mem \<Rightarrow> u64" where
  "ts_available m = fst (TimeSeries_available Cap (\<lambda>_. m) 0)"

definition ts_total_writes :: "mem \<Rightarrow> u64" where
  "ts_total_writes m = fst (TimeSeries_total_writes (\<lambda>_. m) 0)"

section \<open>Empty input\<close>

definition fuzz_ts_empty :: "mem \<Rightarrow> unit outcome" where
  "fuzz_ts_empty m =
     and_then (ts_find_closest m 0 None) (\<lambda>_.
     and_then (ts_find_closest m (- 1) None) (\<lambda>_.
     and_then (ts_find_closest m 42 (Some 0)) (\<lambda>_.
     and_then (ts_find_closest m 42 (Some (- 1))) (\<lambda>_.
     and_then (ts_find_interpolation_pair m 0) (\<lambda>_.
     and_then (ts_find_interpolation_pair m (- 1)) (\<lambda>_.
     and_then (ts_get_latest_if_fresh m 0) (\<lambda>_.
     and_then (ts_get_latest_if_fresh m (- 1)) (\<lambda>_.
     and_then (Return (ts_available m)) (\<lambda>_.
     and_then (Return (ts_total_writes m)) (\<lambda>_.
     and_then (ts_get_latest m) (\<lambda>_. Return ())))))))))))"

section \<open>Main loop\<close>

record fuzz_ts_state =
  fts_mem :: mem
  current_ts :: u64
  fts_seq :: u64

text \<open>\<open>current_ts += delta + 1\<close> and the insertion that follows.\<close>

definition fuzz_ts_insert :: "byte list \<Rightarrow> byte list \<Rightarrow> fuzz_ts_state \<Rightarrow> fuzz_ts_state" where
  "fuzz_ts_insert delta val s =
     (let ts = current_ts s + (le_word delta + 1);
          e = elem ts (fts_seq s) val
      in s\<lparr>fts_mem := exec_acts (CyclicBufferWriter_insert Elem Cap e (fts_mem s)) (fts_mem s),
           current_ts := ts, fts_seq := fts_seq s + 1\<rparr>)"

definition fuzz_ts_extreme_closest :: "byte \<Rightarrow> u64 \<Rightarrow> u64" where
  "fuzz_ts_extreme_closest which current =
     (let k = unat which mod 5
      in if k = 0 then 0 else if k = 1 then - 1 else if k = 2 then (- 1) div 2
         else if k = 3 then current else 1)"

definition fuzz_ts_extreme_pair :: "byte \<Rightarrow> u64 \<Rightarrow> u64" where
  "fuzz_ts_extreme_pair which current =
     (let k = unat which mod 4
      in if k = 0 then 0 else if k = 1 then - 1 else if k = 2 then current
         else if current > 0 then current - 1 else 0)"

definition fuzz_ts_op ::
    "byte \<Rightarrow> byte list \<Rightarrow> fuzz_ts_state \<Rightarrow> (byte list \<times> fuzz_ts_state) outcome" where
  "fuzz_ts_op op rest s =
     (let k = unat op mod 8; m = fts_mem s
      in if k = 0 then
           (case consume 2 rest of
              None \<Rightarrow> Return (rest, s)
            | Some (delta, rest) \<Rightarrow>
                let (val, rest) = consume_or_zero 8 rest in Return (rest, fuzz_ts_insert delta val s))
         else if k = 1 then
           (case consume 8 rest of
              None \<Rightarrow> Return (rest, s)
            | Some (target, rest) \<Rightarrow>
                and_then (ts_find_closest m (le_word target) None) (\<lambda>_. Return (rest, s)))
         else if k = 2 then
           (case consume 8 rest of
              None \<Rightarrow> Return (rest, s)
            | Some (target, rest) \<Rightarrow>
                (case consume 8 rest of
                   None \<Rightarrow> Return (rest, s)
                 | Some (max_dist, rest) \<Rightarrow>
                     and_then (ts_find_closest m (le_word target) (Some (le_word max_dist)))
                       (\<lambda>_. Return (rest, s))))
         else if k = 3 then
           (case consume 8 rest of
              None \<Rightarrow> Return (rest, s)
            | Some (target, rest) \<Rightarrow>
                and_then (ts_find_interpolation_pair m (le_word target)) (\<lambda>result.
                and_then (case result of
                            None \<Rightarrow> Return ()
                          | Some p \<Rightarrow> trap_if (alpha p < 0 \<or> alpha p > 1))
                  (\<lambda>_. Return (rest, s))))
         else if k = 4 then
           (case consume 8 rest of
              None \<Rightarrow> Return (rest, s)
            | Some (min_key, rest) \<Rightarrow>
                and_then (ts_get_latest_if_fresh m (le_word min_key)) (\<lambda>_. Return (rest, s)))
         else if k = 5 then
           (case consume 1 rest of
              None \<Rightarrow> Return (rest, s)
            | Some (which, rest) \<Rightarrow>
                let target = fuzz_ts_extreme_closest (le_word which) (current_ts s)
                in and_then (ts_find_closest m target None) (\<lambda>_.
                   and_then (ts_find_closest m target (Some 0)) (\<lambda>_.
                   and_then (ts_find_closest m target (Some (- 1))) (\<lambda>_. Return (rest, s)))))
         else if k = 6 then
           (case consume 1 rest of
              None \<Rightarrow> Return (rest, s)
            | Some (which, rest) \<Rightarrow>
                and_then (ts_find_interpolation_pair m (fuzz_ts_extreme_pair (le_word which) (current_ts s)))
                  (\<lambda>_. Return (rest, s)))
         else
           (let avail = ts_available m; tw = ts_total_writes m
            in and_then (trap_if (avail > of_nat Cap)) (\<lambda>_.
               and_then (trap_if (avail > tw)) (\<lambda>_.
               and_then (trap_if (tw \<noteq> fts_seq s)) (\<lambda>_. Return (rest, s))))))"

lemma fuzz_ts_op_shrinks:
  "fuzz_ts_op op rest s = Return (rest', s') \<Longrightarrow> length rest' \<le> length rest"
  unfolding fuzz_ts_op_def Let_def
  by (auto simp: and_then_Return split: if_splits option.splits prod.splits
      dest!: consume_shrinks consume_or_zero_eq)

function fuzz_ts_loop :: "byte list \<Rightarrow> fuzz_ts_state \<Rightarrow> fuzz_ts_state outcome" where
  "fuzz_ts_loop [] s = Return s"
| "fuzz_ts_loop (op # rest) s =
     (case fuzz_ts_op op rest s of
        Return (rest', s') \<Rightarrow> fuzz_ts_loop rest' s'
      | Trap \<Rightarrow> Trap
      | Hang \<Rightarrow> Hang)"
  by pat_completeness auto
termination
  by (relation "measure (\<lambda>(rest, s). length rest)") (auto dest: fuzz_ts_op_shrinks)

section \<open>Sweep\<close>

text \<open>The condition of the loop makes both calls of \<open>consume\<close> succeed.\<close>

function fuzz_ts_fill :: "byte list \<Rightarrow> fuzz_ts_state \<Rightarrow> fuzz_ts_state" where
  "fuzz_ts_fill rest s =
     (if 2 + 8 \<le> length rest then
        fuzz_ts_fill (drop 8 (drop 2 rest)) (fuzz_ts_insert (take 2 rest) (take 8 (drop 2 rest)) s)
      else s)"
  by pat_completeness auto
termination
  by (relation "measure (\<lambda>(rest, s). length rest)") auto

fun fuzz_ts_latest_each :: "mem \<Rightarrow> nat \<Rightarrow> unit outcome" where
  "fuzz_ts_latest_each m 0 = Return ()"
| "fuzz_ts_latest_each m (Suc n) = and_then (ts_get_latest m) (\<lambda>_. fuzz_ts_latest_each m n)"

text \<open>The queries; \<open>return 0\<close> without any when nothing was inserted.\<close>

definition fuzz_ts_sweep :: "byte list \<Rightarrow> mem \<Rightarrow> unit outcome" where
  "fuzz_ts_sweep data m =
     (let s = fuzz_ts_fill data \<lparr>fts_mem = m, current_ts = 0, fts_seq = 0\<rparr>;
          m = fts_mem s; ts_val = current_ts s
      in if fts_seq s = 0 then Return ()
         else
           let avail = ts_available m
           in and_then (fuzz_ts_latest_each m (unat avail)) (\<lambda>_.
              and_then (ts_find_closest m 0 None) (\<lambda>_.
              and_then (ts_find_closest m (- 1) None) (\<lambda>_.
              and_then (ts_find_closest m ts_val None) (\<lambda>_.
              and_then (ts_find_closest m 1 None) (\<lambda>_.
              and_then (ts_find_closest m (ts_val div 2) None) (\<lambda>_.
              and_then (ts_find_closest m ts_val (Some 0)) (\<lambda>_.
              and_then (ts_find_closest m 0 (Some 0)) (\<lambda>_.
              and_then (ts_find_interpolation_pair m 0) (\<lambda>_.
              and_then (ts_find_interpolation_pair m (- 1)) (\<lambda>_.
              and_then (ts_find_interpolation_pair m ts_val) (\<lambda>_.
              and_then (if ts_val > 1 then ts_find_interpolation_pair m (ts_val - 1) else Return None) (\<lambda>_.
              and_then (ts_find_interpolation_pair m (ts_val div 2)) (\<lambda>_.
              and_then (ts_get_latest_if_fresh m 0) (\<lambda>_.
              and_then (ts_get_latest_if_fresh m (- 1)) (\<lambda>_.
              and_then (ts_get_latest_if_fresh m ts_val) (\<lambda>_. Return ())))))))))))))))))"

section \<open>The harness\<close>

definition fuzz_time_series_TestOneInput ::
    "(string \<Rightarrow> mem) \<Rightarrow> nat \<Rightarrow> byte list \<Rightarrow> u64 \<Rightarrow> (int \<times> u64) outcome" where
  "fuzz_time_series_TestOneInput mapped pid data g_counter =
     (if length data = 0 then
        let (wname, g_counter) = unique_name ''fuzz_ts_empty'' pid g_counter
        in and_then (fuzz_ts_empty (mapped wname)) (\<lambda>_. Return (0, g_counter))
      else
        let (name, g_counter) = unique_name ''fuzz_ts_main'' pid g_counter
        in and_then (fuzz_ts_loop data \<lparr>fts_mem = mapped name, current_ts = 0, fts_seq = 0\<rparr>) (\<lambda>_.
           let (name, g_counter) = unique_name ''fuzz_ts_sweep'' pid g_counter
           in and_then (fuzz_ts_sweep data (mapped name)) (\<lambda>_. Return (0, g_counter))))"

declare fuzz_ts_fill.simps [simp del]

section \<open>Every query returns\<close>

lemma ts_reader_rest: "ts_reader m = cyclic_reader (cb_T (fuzz_buf m)) (cb_N (fuzz_buf m)) (\<lambda>_. cb_m (fuzz_buf m))"
  by (simp add: ts_reader_def)

lemma ts_returning: "returning (ts_reader m)"
  by (simp add: ts_reader_def cyclic_reader_returning)

lemma ts_find_closest_free: "trap_free (ts_find_closest m target md)"
  unfolding ts_find_closest_def
  using find_closest_returns [OF ts_returning, of m ts_key target md 0] by (intro trap_freeI) blast

lemma ts_find_interpolation_pair_free: "trap_free (ts_find_interpolation_pair m target)"
  unfolding ts_find_interpolation_pair_def
  using find_interpolation_pair_returns [OF ts_returning, of m ts_key target 0] by (intro trap_freeI) blast

lemma ts_get_latest_if_fresh_free: "trap_free (ts_get_latest_if_fresh m min_key)"
proof -
  obtain avail c0 where a: "rd_available (ts_reader m) 0 = (avail, c0)" by (cases "rd_available (ts_reader m) 0")
  obtain r c1 where "rd_try_get (ts_reader m) 0 c0 = Some (r, c1)"
    using returningE [OF ts_returning] by blast
  with a show ?thesis
    unfolding ts_get_latest_if_fresh_def by (intro trap_freeI) (simp add: get_latest_if_fresh_def)
qed

lemma ts_get_latest_free: "fuzz_ok m \<Longrightarrow> trap_free (ts_get_latest m)"
  by (simp add: ts_get_latest_def TimeSeries_get_latest_def fuzz_readers)

lemma ts_counts: "fuzz_ok m \<Longrightarrow> ts_available m = fuzz_avail m" "fuzz_ok m \<Longrightarrow> ts_total_writes m = load_u64 m 0"
  by (simp_all add: ts_available_def ts_total_writes_def TimeSeries_available_def TimeSeries_total_writes_def fuzz_readers)

text \<open>The factor of a pair found in a well-formed buffer is in the unit interval.\<close>

lemma ts_alpha_range:
  assumes "fuzz_ok m" and "ts_find_interpolation_pair m target = Return (Some p)"
  shows "0 \<le> alpha p" and "alpha p \<le> 1"
proof -
  have "cb_ok (fuzz_buf m)" using assms(1) by (simp add: fuzz_ok_def)
  from ts.find_interpolation_pair_correct [OF this, of ts_key target 0] assms(2)
  have "brackets ts_key target (cb_contents (fuzz_buf m)) p"
    by (auto simp: ts_find_interpolation_pair_def ts_reader_rest call_def split: if_splits)
  then show "0 \<le> alpha p" and "alpha p \<le> 1" by (simp_all add: brackets_def)
qed

section \<open>The blocks\<close>

lemmas ts_query_free = ts_find_closest_free ts_find_interpolation_pair_free ts_get_latest_if_fresh_free
  ts_get_latest_free

definition fuzz_ts_inv :: "fuzz_ts_state \<Rightarrow> bool" where
  "fuzz_ts_inv s \<longleftrightarrow> fuzz_ok (fts_mem s) \<and> load_u64 (fts_mem s) 0 = fts_seq s"

lemma fuzz_ts_inv_insert: "fuzz_ts_inv s \<Longrightarrow> length val = 8 \<Longrightarrow> fuzz_ts_inv (fuzz_ts_insert delta val s)"
  using fuzz_insert [of "fts_mem s" val] by (simp add: fuzz_ts_inv_def fuzz_ts_insert_def fuzz_inserted_def Let_def)

lemma fuzz_ts_pair_op:
  assumes "fuzz_ok m"
  shows "and_then (ts_find_interpolation_pair m t) (\<lambda>result.
     and_then (case result of None \<Rightarrow> Return () | Some p \<Rightarrow> trap_if (alpha p < 0 \<or> alpha p > 1)) (\<lambda>_. r)) = r"
proof -
  obtain res where "ts_find_interpolation_pair m t = Return res"
    using ts_find_interpolation_pair_free by (auto simp: trap_free_def)
  with ts_alpha_range [OF assms, of t] show ?thesis by (cases res) (auto simp: not_less [symmetric])
qed

lemma fuzz_ts_op_returns:
  assumes "fuzz_ts_inv s"
  shows "\<exists>rest' s'. fuzz_ts_op op rest s = Return (rest', s') \<and> fuzz_ts_inv s'"
proof -
  have ok: "fuzz_ok (fts_mem s)" "load_u64 (fts_mem s) 0 = fts_seq s" using assms by (simp_all add: fuzz_ts_inv_def)
  consider (insert) "unat op mod 8 = 0" | (query) "unat op mod 8 \<noteq> 0" by auto
  then show ?thesis
  proof cases
    case insert
    then show ?thesis
      using assms by (auto simp: fuzz_ts_op_def Let_def fuzz_ts_inv_insert
          dest: consume_or_zero_eq split: option.split prod.split)
  next
    case query
    then show ?thesis
      using assms ok ts_counts [OF ok(1)] fuzz_avail_bounds [of "fts_mem s", THEN leD]
      by (auto simp: fuzz_ts_op_def Let_def ts_query_free fuzz_ts_pair_op split: option.split)
  qed
qed

interpretation fuzz_ts: input_loop fuzz_ts_op fuzz_ts_loop fuzz_ts_inv
  by unfold_locales (auto dest: fuzz_ts_op_shrinks intro: fuzz_ts_op_returns)

lemma fuzz_ts_fill_inv: "fuzz_ts_inv s \<Longrightarrow> fuzz_ts_inv (fuzz_ts_fill rest s)"
proof (induction rest s rule: fuzz_ts_fill.induct)
  case (1 rest s)
  then show ?case by (subst fuzz_ts_fill.simps) (auto simp: fuzz_ts_inv_insert)
qed

lemma fuzz_ts_latest_each_returns: "fuzz_ok m \<Longrightarrow> fuzz_ts_latest_each m n = Return ()"
  by (induction n) (simp_all add: ts_query_free)

lemma fuzz_ts_sweep_returns:
  assumes "fuzz_ok m" and "load_u64 m 0 = 0"
  shows "fuzz_ts_sweep data m = Return ()"
proof -
  let ?s = "fuzz_ts_fill data \<lparr>fts_mem = m, current_ts = 0, fts_seq = 0\<rparr>"
  have "fuzz_ts_inv ?s" using assms by (intro fuzz_ts_fill_inv) (simp add: fuzz_ts_inv_def)
  then have "fuzz_ok (fts_mem ?s)" by (simp add: fuzz_ts_inv_def)
  then show ?thesis
    by (simp add: fuzz_ts_sweep_def Let_def fuzz_ts_latest_each_returns ts_query_free if_distrib [of trap_free]
        trap_free_def [of "Return _"])
qed

lemma fuzz_ts_empty_returns: "fuzz_ok m \<Longrightarrow> fuzz_ts_empty m = Return ()"
  by (simp add: fuzz_ts_empty_def ts_query_free)

section \<open>Properties\<close>

text \<open>
  C26. No input makes the time-series harness trap or hang: when the segments of the names it makes
  up are zeroed at first, \<open>LLVMFuzzerTestOneInput\<close> returns 0 for every sequence of bytes. All its
  checks hold after every prefix of the operations: the interpolation factor is between 0 and 1,
  \<open>available()\<close> is at most the capacity and \<open>total_writes()\<close>, and \<open>total_writes()\<close> is the number of
  insertions. No bound on the input is needed, although \<open>current_ts\<close> may wrap.
\<close>

theorem fuzz_time_series_never_traps:
  assumes "fresh_segments mapped pid g_counter 2"
  shows "fuzz_time_series_TestOneInput mapped pid data g_counter
           = Return (0, g_counter + (if data = [] then 1 else 2))"
proof -
  have ok: "fuzz_ok zero_mem" "load_u64 zero_mem 0 = 0" by (simp_all add: fuzz_ok_zero)
  note fresh = fresh_segmentsD [OF assms, of 0] fresh_segmentsD [OF assms, of 1]
  have names: "snd (unique_name p pid k) = k + 1" for p k by (simp add: unique_name_def)
  obtain s where "fuzz_ts_loop data \<lparr>fts_mem = zero_mem, current_ts = 0, fts_seq = 0\<rparr> = Return s"
    using fuzz_ts.whole_loop_returns [of "\<lparr>fts_mem = zero_mem, current_ts = 0, fts_seq = 0\<rparr>"] ok
    by (auto simp: fuzz_ts_inv_def)
  with fresh names show ?thesis
    by (simp add: fuzz_time_series_TestOneInput_def fuzz_ts_empty_returns [OF ok(1)] fuzz_ts_sweep_returns [OF ok]
        case_prod_beta Let_def add.assoc)
qed

section \<open>Witnesses\<close>

theorem fuzz_time_series_never_traps_witness:
  "fuzz_time_series_TestOneInput (\<lambda>_. zero_mem) 7 [0, 9, 0, 1, 2, 3, 4, 5, 6, 7, 8, 7, 3] 5 = Return (0, 7)"
  using fuzz_time_series_never_traps [of "\<lambda>_. zero_mem" 7 5 "[0, 9, 0, 1, 2, 3, 4, 5, 6, 7, 8, 7, 3]"]
  by (simp add: fresh_segments_def)

end
