(* ===== verification/Memory_Order.thy ===== *)
theory Memory_Order
  imports Seqlock Cyclic_History
begin

text \<open>
  The memory orders written in \<^verbatim>\<open>seqlock.hpp\<close> and \<^verbatim>\<open>cyclic_buffer.hpp\<close>. The other theories let the
  accesses of a writer take effect in program order. Here this is derived for processors with total
  store order (the x86-64 of the README): a writer whose stores go through a FIFO store buffer and
  readers that load in order give exactly the histories of \<open>Shared_Access\<close>, so the guarantees carry
  over. For processors that use the freedom the orders leave (the ARM64 of the README) it is refuted:
  a release store holds back what precedes it and not the copy that follows it, and an acquire
  load holds back what follows it and not the copy before it.
\<close>

section \<open>Orders of the accesses\<close>

datatype mem_order = Plain | Release | Acquire | Barrier

text \<open>The counters are stored with \<open>memory_order_release\<close>, the object with \<open>memcpy\<close>; the system
  call is ordered with everything.\<close>

fun store_order :: "act \<Rightarrow> mem_order" where
  "store_order (Store32 a v) = Release"
| "store_order (Store64 a v) = Release"
| "store_order (CopyByte a b) = Plain"
| "store_order (FutexWake a) = Barrier"

text \<open>The orders of the accesses of one pass of \<open>load\<close> that begins with access \<open>c\<close>.\<close>

definition load_order :: "ctype \<Rightarrow> nat \<Rightarrow> nat \<Rightarrow> mem_order" where
  "load_order T c k = (if k = c \<or> k = c + 1 + sizeof T then Acquire else Plain)"

section \<open>Release stores\<close>

text \<open>A later access may take effect before an earlier one unless it is a release, one of the two is
  a barrier, or they touch the same bytes.\<close>

definition may_pass :: "act \<Rightarrow> act \<Rightarrow> bool" where
  "may_pass earlier later \<longleftrightarrow>
     store_order earlier \<noteq> Barrier \<and> store_order later \<noteq> Barrier \<and> store_order later \<noteq> Release \<and>
     touched earlier \<inter> touched later = {}"

inductive takes_effect :: "act list \<Rightarrow> act list \<Rightarrow> bool" for prog where
  in_order: "takes_effect prog prog"
| pass: "takes_effect prog (us @ x # y # vs) \<Longrightarrow> may_pass x y \<Longrightarrow> takes_effect prog (us @ y # x # vs)"

lemma exec_act_untouched: "x \<notin> touched a \<Longrightarrow> exec_act a m x = m x"
  by (cases a) (auto simp: store_u32_def store_u64_def store_bytes_def)

lemma exec_act_touched: "x \<in> touched a \<Longrightarrow> store_order a \<noteq> Barrier \<Longrightarrow> exec_act a m x = exec_act a m' x"
  by (cases a) (auto simp: store_u32_def store_u64_def store_bytes_def)

lemma exec_act_commute:
  assumes "may_pass a b"
  shows "exec_act a (exec_act b m) = exec_act b (exec_act a m)"
proof
  fix x
  have d: "touched a \<inter> touched b = {}" "store_order a \<noteq> Barrier" "store_order b \<noteq> Barrier"
    using assms by (simp_all add: may_pass_def)
  consider "x \<in> touched a" "x \<notin> touched b" | "x \<notin> touched a" "x \<in> touched b" | "x \<notin> touched a" "x \<notin> touched b"
    using d(1) by blast
  then show "exec_act a (exec_act b m) x = exec_act b (exec_act a m) x"
  proof cases
    case 1
    then show ?thesis using exec_act_touched [OF 1(1) d(2)] by (metis exec_act_untouched)
  next
    case 2
    then show ?thesis using exec_act_touched [OF 2(2) d(3)] by (metis exec_act_untouched)
  qed (simp add: exec_act_untouched)
qed

lemma takes_effect_exec: "takes_effect prog as \<Longrightarrow> exec_acts as m = exec_acts prog m"
proof (induction rule: takes_effect.induct)
  case (pass us x y vs)
  then show ?case using exec_act_commute [OF pass(2)] by simp
qed simp

section \<open>Acquire loads\<close>

text \<open>No access takes place before an acquire load that precedes it.\<close>

definition acquire_clock :: "(nat \<Rightarrow> mem_order) \<Rightarrow> (nat \<Rightarrow> nat) \<Rightarrow> bool" where
  "acquire_clock ord clk \<longleftrightarrow> (\<forall>i j. i < j \<longrightarrow> ord i = Acquire \<longrightarrow> clk i \<le> clk j)"

section \<open>Total store order\<close>

text \<open>The writer: accesses not yet issued, the FIFO store buffer, the memory the readers see, and how
  many accesses have reached it. The writer's own load of the counter is answered from its buffer,
  so it reads what it stored last, as in \<open>trace\<close>. The kernel's part of the wake drains the buffer.\<close>

record tso =
  tso_todo :: "act list"
  tso_buffer :: "act list"
  tso_mem :: mem
  tso_count :: nat

definition tso_init :: "act list \<Rightarrow> mem \<Rightarrow> tso" where
  "tso_init prog m = \<lparr>tso_todo = prog, tso_buffer = [], tso_mem = m, tso_count = 0\<rparr>"

inductive tso_step :: "tso \<Rightarrow> tso \<Rightarrow> bool" where
  issue: "tso_todo s = a # as \<Longrightarrow> store_order a \<noteq> Barrier \<Longrightarrow>
    tso_step s (s\<lparr>tso_todo := as, tso_buffer := tso_buffer s @ [a]\<rparr>)"
| wake: "tso_todo s = a # as \<Longrightarrow> store_order a = Barrier \<Longrightarrow> tso_buffer s = [] \<Longrightarrow>
    tso_step s (s\<lparr>tso_todo := as, tso_mem := exec_act a (tso_mem s), tso_count := Suc (tso_count s)\<rparr>)"
| flush: "tso_buffer s = a # bs \<Longrightarrow>
    tso_step s (s\<lparr>tso_buffer := bs, tso_mem := exec_act a (tso_mem s), tso_count := Suc (tso_count s)\<rparr>)"

text \<open>A run: at every instant the writer's side makes a step or none.\<close>

definition tso_run :: "act list \<Rightarrow> mem \<Rightarrow> (nat \<Rightarrow> tso) \<Rightarrow> bool" where
  "tso_run prog m run \<longleftrightarrow> run 0 = tso_init prog m \<and> (\<forall>t. run (Suc t) = run t \<or> tso_step (run t) (run (Suc t)))"

definition tso_inv :: "act list \<Rightarrow> mem \<Rightarrow> tso \<Rightarrow> bool" where
  "tso_inv prog m s \<longleftrightarrow> tso_mem s = exec_acts (take (tso_count s) prog) m \<and>
     tso_buffer s @ tso_todo s = drop (tso_count s) prog"

lemma exec_take_Suc: "drop k prog = a # as \<Longrightarrow> exec_acts (take (Suc k) prog) m = exec_act a (exec_acts (take k prog) m)"
proof -
  assume d: "drop k prog = a # as"
  then have "k < length prog" by (metis drop_all list.distinct(1) not_le)
  with d show ?thesis by (simp add: take_Suc_conv_app_nth nth_via_drop)
qed

lemma drop_SucI: "drop k prog = a # as \<Longrightarrow> drop (Suc k) prog = as"
  by (metis drop_Suc list.sel(3) tl_drop)

lemma tso_inv_step: "tso_step s s' \<Longrightarrow> tso_inv prog m s \<Longrightarrow> tso_inv prog m s' \<and> tso_count s \<le> tso_count s'"
proof (induction rule: tso_step.induct)
  case (issue s a as)
  then show ?case by (simp add: tso_inv_def)
next
  case (wake s a as)
  then have d: "drop (tso_count s) prog = a # as" by (simp add: tso_inv_def)
  from wake show ?case using exec_take_Suc [OF d] drop_SucI [OF d] by (simp add: tso_inv_def)
next
  case (flush s a bs)
  then have d: "drop (tso_count s) prog = a # bs @ tso_todo s" by (simp add: tso_inv_def)
  from flush show ?case using exec_take_Suc [OF d] drop_SucI [OF d] by (simp add: tso_inv_def)
qed

text \<open>What readers see of a run is the history of the accesses in program order, at a clock that does
  not go back.\<close>

lemma tso_run_history:
  assumes "tso_run prog m run"
  shows "tso_mem (run t) = exec_acts (take (tso_count (run t)) prog) m" and "mono (\<lambda>t. tso_count (run t))"
proof -
  have inv: "tso_inv prog m (run t)" for t
  proof (induction t)
    case 0
    then show ?case using assms by (simp add: tso_run_def tso_init_def tso_inv_def)
  next
    case (Suc t)
    then show ?case using assms tso_inv_step unfolding tso_run_def by metis
  qed
  then show "tso_mem (run t) = exec_acts (take (tso_count (run t)) prog) m" by (simp add: tso_inv_def)
  have "tso_count (run t) \<le> tso_count (run (Suc t))" for t
    using assms tso_inv_step inv unfolding tso_run_def by (metis order_refl)
  then show "mono (\<lambda>t. tso_count (run t))" by (simp add: mono_iff_le_Suc)
qed

lemma tso_view:
  assumes "tso_run (trace f xs m) m run" and "mono at"
  shows "(\<lambda>k. tso_mem (run (at k))) = hist f xs m \<circ> (\<lambda>k. tso_count (run (at k)))"
    and "mono (\<lambda>k. tso_count (run (at k)))"
  using tso_run_history [OF assms(1)] assms(2) by (auto simp: hist_def mono_def)

text \<open>Conversely every history is seen in some run: the writer that flushes each store before it issues
  the next one. At instant \<open>2 * k\<close> the first \<open>k\<close> accesses have reached memory.\<close>

definition tso_eager :: "act list \<Rightarrow> mem \<Rightarrow> nat \<Rightarrow> tso" where
  "tso_eager prog m t =
     (let k = t div 2; pending = (odd t \<and> k < length prog \<and> store_order (prog ! k) \<noteq> Barrier)
      in \<lparr>tso_todo = drop (if pending then Suc k else k) prog, tso_buffer = (if pending then [prog ! k] else []),
          tso_mem = exec_acts (take k prog) m, tso_count = min k (length prog)\<rparr>)"

lemma tso_eager_run: "tso_run prog m (tso_eager prog m)"
  unfolding tso_run_def
proof (intro conjI allI)
  show "tso_eager prog m 0 = tso_init prog m" by (simp add: tso_eager_def tso_init_def)
next
  fix t
  let ?s = "tso_eager prog m t" and ?s' = "tso_eager prog m (Suc t)" and ?k = "t div 2"
  show "?s' = ?s \<or> tso_step ?s ?s'"
  proof (cases "?k < length prog")
    case False
    then have "?s' = ?s" by (cases "even t") (auto simp: tso_eager_def Let_def min_def elim!: evenE oddE)
    then show ?thesis ..
  next
    case True
    then have todo: "drop ?k prog = prog ! ?k # drop (Suc ?k) prog" by (rule Cons_nth_drop_Suc [symmetric])
    have mem: "exec_acts (take (Suc ?k) prog) m = exec_act (prog ! ?k) (exec_acts (take ?k prog) m)"
      using exec_take_Suc [OF todo] .
    consider (calm) "even t" "store_order (prog ! ?k) = Barrier" | (issue) "even t" "store_order (prog ! ?k) \<noteq> Barrier"
      | (wake) "odd t" "store_order (prog ! ?k) = Barrier" | (flush) "odd t" "store_order (prog ! ?k) \<noteq> Barrier"
      by blast
    then show ?thesis
    proof cases
      case calm
      then have "?s' = ?s" by (simp add: tso_eager_def Let_def)
      then show ?thesis ..
    next
      case issue
      then have "?s' = ?s\<lparr>tso_todo := drop (Suc ?k) prog, tso_buffer := tso_buffer ?s @ [prog ! ?k]\<rparr>"
        using True by (simp add: tso_eager_def Let_def)
      with tso_step.issue [of ?s "prog ! ?k" "drop (Suc ?k) prog"] issue todo show ?thesis
        by (simp add: tso_eager_def Let_def)
    next
      case wake
      then have "?s' = ?s\<lparr>tso_todo := drop (Suc ?k) prog, tso_mem := exec_act (prog ! ?k) (tso_mem ?s), tso_count := Suc (tso_count ?s)\<rparr>"
        using True mem by (simp add: tso_eager_def Let_def)
      with tso_step.wake [of ?s "prog ! ?k" "drop (Suc ?k) prog"] wake todo show ?thesis
        by (simp add: tso_eager_def Let_def)
    next
      case flush
      then have "?s' = ?s\<lparr>tso_buffer := [], tso_mem := exec_act (prog ! ?k) (tso_mem ?s), tso_count := Suc (tso_count ?s)\<rparr>"
        using True mem by (simp add: tso_eager_def Let_def)
      with tso_step.flush [of ?s "prog ! ?k" "[]"] flush True show ?thesis
        by (simp add: tso_eager_def Let_def)
    qed
  qed
qed

lemma tso_eager_view: "(\<lambda>k. tso_mem (tso_eager (trace f xs m) m (2 * clk k))) = hist f xs m \<circ> clk"
  by (simp add: tso_eager_def Let_def hist_def fun_eq_iff)

section \<open>Properties\<close>

abbreviation sl_prog :: "seqlock_run \<Rightarrow> act list" where
  "sl_prog r \<equiv> trace (SeqlockWriter_store (sl_type r)) (sl_stores r) (sl_mem0 r)"

text \<open>Two executions of the store of \<open>[1, 2]\<close> over \<open>[0, 0]\<close>. The first byte is written before the counter
  becomes odd.\<close>

definition early_copy :: "act list" where
  "early_copy = [CopyByte 4 1, Store32 0 1, CopyByte 5 2, Store32 0 2, FutexWake 0]"

lemma sl_demo_prog: "sl_prog sl_demo = [Store32 0 1, CopyByte 4 1, CopyByte 5 2, Store32 0 2, FutexWake 0]"
  by (simp add: SeqlockWriter_store_def layout_defs)

lemma early_copy_order: "takes_effect (sl_prog sl_demo) early_copy"
proof -
  let ?prog = "[Store32 0 1, CopyByte 4 1, CopyByte 5 2, Store32 0 2, FutexWake 0]"
  have "takes_effect ?prog ([] @ Store32 0 1 # CopyByte 4 1 # [CopyByte 5 2, Store32 0 2, FutexWake 0])"
    using takes_effect.in_order [of ?prog] by simp
  from takes_effect.pass [OF this] show ?thesis by (simp add: may_pass_def sl_demo_prog early_copy_def del: sl_demo_fields)
qed

lemma early_copy_load: "SeqlockReader_load (sl_type sl_demo) (\<lambda>k. exec_acts (take 1 early_copy) (sl_mem0 sl_demo)) 0 = Some ([1, 0], 4)"
proof -
  have "load_u32 (zero_mem(4 := 1)) 0 = 0" "load_bytes (zero_mem(4 := 1)) 4 2 = [1, 0]" by code_simp+
  then show ?thesis by (subst SeqlockReader_load_step) (simp add: early_copy_def layout_defs)
qed

text \<open>The first byte is read after it was written, everything else before the store begins.\<close>

definition late_copy :: "nat \<Rightarrow> nat" where
  "late_copy k = (if k = 1 then 2 else 0)"

lemma late_copy_clock: "acquire_clock (load_order (sl_type sl_demo) 0) late_copy"
  by (simp add: acquire_clock_def load_order_def late_copy_def)

lemma late_copy_load: "SeqlockReader_load (sl_type sl_demo) (sl_mem sl_demo \<circ> late_copy) 0 = Some ([1, 0], 4)"
proof -
  have "load_u32 (sl_mem sl_demo 0) 0 = 0" "read_bytes (sl_mem sl_demo \<circ> late_copy) 1 4 2 = [1, 0]" by code_simp+
  then show ?thesis by (subst SeqlockReader_load_step) (simp add: late_copy_def layout_defs)
qed

lemma sl_demo_values: "[1, 0] \<notin> {sl_value sl_demo 0, sl_value sl_demo 1}"
  by code_simp

text \<open>
  C3. Under total store order \<open>load\<close> is linearizable: with a writer whose stores sit in a FIFO buffer
  for any length of time and a reader that loads in program order, what \<open>load\<close> returns is
  the object of some store, not torn, in force at an instant between its first and its last access,
  counted in stores that have reached memory. The run may be of any length; the proviso is that of
  the interleavings in program order, that no \<open>2^31\<close> stores reach memory between the two counter reads of one pass.
\<close>

theorem tso_load_linearizable:
  assumes "sl_invar r" and "tso_run (sl_prog r) (sl_mem0 r) run" and "mono at"
    and no_lap: "\<And>k. sl_ver r (tso_count (run (at (Suc k + sl_size r)))) < sl_ver r (tso_count (run (at k))) + 2 ^ 32"
    and "SeqlockReader_load (sl_type r) (\<lambda>k. tso_mem (run (at k))) c = Some (v, c')"
  shows "\<exists>j. v = sl_value r j \<and>
           sl_ver r (tso_count (run (at c))) \<le> sl_ver r 0 + 2 * j \<and>
           sl_ver r 0 + 2 * j \<le> sl_ver r (tso_count (run (at c')))"
proof -
  note view = tso_view [OF assms(2,3)]
  have "SeqlockReader_load (sl_type r) (sl_mem r \<circ> (\<lambda>k. tso_count (run (at k)))) c = Some (v, c')"
    using assms(5) view(1) by (simp add: sl_mem_def)
  from load_in_run [OF assms(1) view(2) no_lap this] show ?thesis .
qed

text \<open>
  The same for the ring: under total store order \<open>try_get\<close> returns no torn object but an insertion, the
  requested one unless the slot was rewritten meanwhile, provided no slot is lapped within one pass.
\<close>

theorem tso_try_get_untorn:
  assumes "cr_invar r" and "load_u64 (cr_mem0 r) 0 = 0" and "length (cr_inserts r) < 2 ^ 64"
    and run: "tso_run (trace (CyclicBufferWriter_insert (cr_T r) (cr_N r)) (cr_inserts r) (cr_mem0 r)) (cr_mem0 r) run"
    and "mono at"
    and no_lap: "\<And>i k. cs_ver (r, i) (tso_count (run (at (Suc k + sizeof (cr_T r))))) < cs_ver (r, i) (tso_count (run (at k))) + 2 ^ 32"
    and ret: "CyclicBufferReader_try_get (cr_T r) (cr_N r) (\<lambda>k. tso_mem (run (at k))) ri max_retries c = Some (Some v, c')"
    and p: "p = cr_done r (tso_count (run (at c))) - 1 - unat ri"
  shows "\<exists>q. v = cr_inserts r ! q \<and> p \<le> q \<and> q < cr_pub r (tso_count (run (at c'))) \<and>
           (cr_pub r (tso_count (run (at c'))) \<le> p + cr_N r \<longrightarrow> q = p)"
proof -
  note view = tso_view [OF run \<open>mono at\<close>]
  have "CyclicBufferReader_try_get (cr_T r) (cr_N r) (cr_mem r \<circ> (\<lambda>k. tso_count (run (at k)))) ri max_retries c
      = Some (Some v, c')"
    using ret view(1) by (simp add: cr_mem_def)
  from try_get_in_run [OF assms(1-3) view(2) no_lap this refl p] show ?thesis by auto
qed

text \<open>
  Whatever of the permitted reorderings of its stores a processor makes, when all accesses of the writer have
  taken effect the segment holds what program order would have left, and \<open>load\<close> returns the
  last object stored.
\<close>

theorem reordered_stores_settle:
  assumes "sl_invar r" and "takes_effect (sl_prog r) as"
  shows "exec_acts as (sl_mem0 r) = exec_ops (SeqlockWriter_store (sl_type r)) (sl_stores r) (sl_mem0 r) \<and>
         SeqlockReader_load (sl_type r) (\<lambda>_. exec_acts as (sl_mem0 r)) c
           = Some (sl_value r (length (sl_stores r)), c + 2 + sl_size r)"
proof -
  let ?n = "length (sl_stores r) * (sl_size r + 3)"
  have eq: "exec_acts as (sl_mem0 r) = exec_ops (SeqlockWriter_store (sl_type r)) (sl_stores r) (sl_mem0 r)"
    using takes_effect_exec [OF assms(2)] by (simp add: exec_trace)
  have "length (sl_prog r) = (sl_size r + 3) * length (sl_stores r)"
    by (rule length_trace) (use assms(1) in \<open>simp add: sl_invar_def\<close>)
  then have view: "sl_mem r \<circ> (\<lambda>_. ?n) = (\<lambda>_. exec_acts as (sl_mem0 r))"
    by (simp add: fun_eq_iff sl_mem_def hist_end eq mult.commute)
  have "SeqlockReader_load (sl_type r) (sl_mem r \<circ> (\<lambda>_. ?n)) c
      = Some (sl_value r (length (sl_stores r)), c + 2 + sl_size r)"
    by (rule load_when_idle [THEN conjunct2, OF assms(1)]) simp
  with eq show ?thesis unfolding view by blast
qed

text \<open>
  C9. In between, the orders are too weak for the promise of a consistent snapshot. First, one store
  with its accesses taking effect in a permitted order and a reader in program order: \<open>load\<close>
  returns an object that was never stored, because the copy may pass the store that makes the counter odd. Second,
  one store in program order and a reader whose copy takes place after its second, acquire load of
  the counter: the same.
\<close>

theorem release_acquire_torn:
  "(\<exists>r as clk v c'. sl_invar r \<and> length (sl_stores r) = 1 \<and> takes_effect (sl_prog r) as \<and> mono clk \<and>
      SeqlockReader_load (sl_type r) (\<lambda>k. exec_acts (take (clk k) as) (sl_mem0 r)) 0 = Some (v, c') \<and>
      v \<notin> {sl_value r 0, sl_value r 1}) \<and>
   (\<exists>r clk v c'. sl_invar r \<and> length (sl_stores r) = 1 \<and> acquire_clock (load_order (sl_type r) 0) clk \<and>
      SeqlockReader_load (sl_type r) (sl_mem r \<circ> clk) 0 = Some (v, c') \<and>
      v \<notin> {sl_value r 0, sl_value r 1})"
proof
  show "\<exists>r as clk v c'. sl_invar r \<and> length (sl_stores r) = 1 \<and> takes_effect (sl_prog r) as \<and> mono clk \<and>
      SeqlockReader_load (sl_type r) (\<lambda>k. exec_acts (take (clk k) as) (sl_mem0 r)) 0 = Some (v, c') \<and>
      v \<notin> {sl_value r 0, sl_value r 1}"
    using sl_demo_invar early_copy_order early_copy_load sl_demo_values
    by (intro exI [of _ sl_demo] exI [of _ early_copy] exI [of _ "\<lambda>_. 1"] exI [of _ "[1, 0]"] exI [of _ 4])
      (simp add: mono_def)
  show "\<exists>r clk v c'. sl_invar r \<and> length (sl_stores r) = 1 \<and> acquire_clock (load_order (sl_type r) 0) clk \<and>
      SeqlockReader_load (sl_type r) (sl_mem r \<circ> clk) 0 = Some (v, c') \<and>
      v \<notin> {sl_value r 0, sl_value r 1}"
    using sl_demo_invar late_copy_clock late_copy_load sl_demo_values
    by (intro exI [of _ sl_demo] exI [of _ late_copy] exI [of _ "[1, 0]"] exI [of _ 4]) simp
qed

section \<open>Witnesses\<close>

lemma mono_double: "mono (\<lambda>k :: nat. 2 * k)"
  by (simp add: mono_def)

theorem tso_load_linearizable_witness:
  "\<exists>run at j. tso_run (sl_prog sl_demo) (sl_mem0 sl_demo) run \<and>
     SeqlockReader_load (sl_type sl_demo) (\<lambda>k. tso_mem (run (at k))) 0 = Some ([1, 2], 8) \<and> [1, 2] = sl_value sl_demo j"
proof -
  let ?run = "tso_eager (sl_prog sl_demo) (sl_mem0 sl_demo)" and ?at = "\<lambda>k :: nat. 2 * k"
  have "(\<lambda>k. tso_mem (?run (?at k))) = sl_mem sl_demo \<circ> id"
    using tso_eager_view [of _ _ _ id] by (simp only: sl_mem_def id_apply)
  then have load: "SeqlockReader_load (sl_type sl_demo) (\<lambda>k. tso_mem (?run (?at k))) 0 = Some ([1, 2], 8)"
    using sl_demo_load by simp
  from tso_load_linearizable [OF sl_demo_invar tso_eager_run mono_double sl_demo_no_lap load] obtain j where "[1, 2] = sl_value sl_demo j"
    by blast
  with load tso_eager_run show ?thesis by blast
qed

theorem tso_try_get_untorn_witness:
  "\<exists>(run :: nat \<Rightarrow> tso) at q. CyclicBufferReader_try_get (cr_T cr_demo) (cr_N cr_demo) (\<lambda>k. tso_mem (run (at k))) 0 4 8
       = Some (Some [1, 1, 1, 1], 15) \<and> [1, 1, 1, 1] = cr_inserts cr_demo ! q"
proof -
  let ?run = "tso_eager (trace (CyclicBufferWriter_insert (cr_T cr_demo) (cr_N cr_demo)) (cr_inserts cr_demo) (cr_mem0 cr_demo))
    (cr_mem0 cr_demo)" and ?at = "\<lambda>k :: nat. 2 * k"
  have "(\<lambda>k. tso_mem (?run (?at k))) = cr_mem cr_demo \<circ> id"
    using tso_eager_view [of _ _ _ id] by (simp only: cr_mem_def id_apply)
  then have load: "CyclicBufferReader_try_get (cr_T cr_demo) (cr_N cr_demo) (\<lambda>k. tso_mem (?run (?at k))) 0 4 8
      = Some (Some [1, 1, 1, 1], 15)"
    using cr_demo_read by simp
  have "load_u64 (cr_mem0 cr_demo) 0 = 0" "length (cr_inserts cr_demo) < 2 ^ 64" by simp_all
  from tso_try_get_untorn [OF cr_demo_invar this tso_eager_run mono_double cr_demo_no_lap load refl] obtain q
    where "[1, 1, 1, 1] = cr_inserts cr_demo ! q" by blast
  with load show ?thesis by (intro exI [of _ ?run] exI [of _ ?at] exI [of _ q]) blast
qed

theorem reordered_stores_settle_witness:
  "takes_effect (sl_prog sl_demo) early_copy \<and>
   SeqlockReader_load (sl_type sl_demo) (\<lambda>_. exec_acts early_copy (sl_mem0 sl_demo)) 0
     = Some (sl_value sl_demo (length (sl_stores sl_demo)), 0 + 2 + sl_size sl_demo)"
  using reordered_stores_settle [OF sl_demo_invar early_copy_order, of 0] early_copy_order by blast

end
