(* ===== verification/Wait_Machine.thy ===== *)
theory Wait_Machine
  imports Cyclic_History
begin

text \<open>
  \<open>wait_for_write\<close> of \<^verbatim>\<open>cyclic_buffer.hpp\<close> beside the writer, with the sleep in \<open>FUTEX_WAIT\<close> as a state of
  its own. \<open>CyclicBufferReader_wait_for_write\<close> takes the kernel's answers as they come; here the kernel puts the
  caller to sleep when the futex word has the expected value, and what ends the sleep is a step: the writer's
  \<open>FUTEX_WAKE\<close>, a signal, or the timeout. So it can be said, and is proved, that the waiter
  does not sleep through an insertion. Readers do not write, and a wake wakes them all: one waiter stands
  for any number.
\<close>

section \<open>The waiter\<close>

text \<open>Where the loop stands: before the load of the count, before the system call, asleep in it, or back.\<close>

datatype wait_pc = WaitRead | WaitCall | WaitAsleep | WaitReturned "u64 option"

text \<open>\<open>Proceed\<close> is the next access of the code itself; the others happen to a sleeper.\<close>

datatype wait_event = Proceed | Interrupt | Expire

text \<open>One step of the loop on the segment as it is at that moment.\<close>

fun wait_move :: "u64 \<Rightarrow> u64 option \<Rightarrow> mem \<Rightarrow> wait_event \<Rightarrow> wait_pc \<Rightarrow> wait_pc option" where
  "wait_move last_seen timeout_ns m Proceed WaitRead =
     (let cur = load_u64 m CyclicBufferReader_total_writes_ptr
      in Some (if cur \<noteq> last_seen then WaitReturned (Some cur) else WaitCall))"
| "wait_move last_seen timeout_ns m Proceed WaitCall =
     (let expected_lo = ucast last_seen
      in Some (if load_u32 m CyclicBufferReader_total_writes_ptr = expected_lo then WaitAsleep else WaitRead))"
| "wait_move last_seen timeout_ns m Interrupt WaitAsleep = Some WaitRead"
| "wait_move last_seen timeout_ns m Expire WaitAsleep = (if timeout_ns = None then None else Some (WaitReturned None))"
| "wait_move last_seen timeout_ns m ev pc = None"

section \<open>The waiter beside the writer\<close>

abbreviation cr_prog :: "cyclic_run \<Rightarrow> act list" where
  "cr_prog r \<equiv> trace (CyclicBufferWriter_insert (cr_T r) (cr_N r)) (cr_inserts r) (cr_mem0 r)"

text \<open>What access \<open>t\<close> of the writer does to the waiter. From the end of its program on the writer is idle.\<close>

definition wake_by :: "act list \<Rightarrow> nat \<Rightarrow> wait_pc \<Rightarrow> wait_pc" where
  "wake_by prog t pc =
     (if t < length prog \<and> prog ! t = FutexWake CyclicBufferReader_total_writes_ptr \<and> pc = WaitAsleep then WaitRead else pc)"

text \<open>The states of a call made after \<open>t0\<close> accesses of the writer: how many the writer has made, and where the waiter is.\<close>

inductive wait_reach :: "cyclic_run \<Rightarrow> u64 \<Rightarrow> u64 option \<Rightarrow> nat \<Rightarrow> nat \<Rightarrow> wait_pc \<Rightarrow> bool"
  for r last_seen timeout_ns t0 where
  call: "wait_reach r last_seen timeout_ns t0 t0 WaitRead"
| writer: "wait_reach r last_seen timeout_ns t0 t pc \<Longrightarrow>
    wait_reach r last_seen timeout_ns t0 (Suc t) (wake_by (cr_prog r) t pc)"
| waiter: "wait_reach r last_seen timeout_ns t0 t pc \<Longrightarrow> wait_move last_seen timeout_ns (cr_mem r t) ev pc = Some pc' \<Longrightarrow>
    wait_reach r last_seen timeout_ns t0 t pc'"

lemma wake_by_awake [simp]: "pc \<noteq> WaitAsleep \<Longrightarrow> wake_by prog t pc = pc"
  by (simp add: wake_by_def)

text \<open>While the writer alone moves, a waiter that is not asleep stays where it is.\<close>

lemma writer_alone:
  "wait_reach r lst timeout t0 t pc \<Longrightarrow> pc \<noteq> WaitAsleep \<Longrightarrow> t \<le> u \<Longrightarrow> wait_reach r lst timeout t0 u pc"
  by (rule dec_induct [of t u]) (auto dest: wait_reach.writer)

lemma writer_alone_asleep:
  assumes "wait_reach r lst timeout t0 t WaitAsleep" and "t \<le> u"
  shows "wait_reach r lst timeout t0 u WaitAsleep \<or> wait_reach r lst timeout t0 u WaitRead"
  using assms(2)
proof (induction u rule: dec_induct)
  case (step v)
  have next_pc: "wake_by (cr_prog r) v WaitAsleep \<in> {WaitAsleep, WaitRead}" by (simp add: wake_by_def)
  from step(3) show ?case
  proof
    assume "wait_reach r lst timeout t0 v WaitAsleep"
    from wait_reach.writer [OF this] next_pc show ?thesis by auto
  next
    assume "wait_reach r lst timeout t0 v WaitRead"
    from wait_reach.writer [OF this] show ?thesis by simp
  qed
qed (use assms(1) in blast)

section \<open>What has been seen\<close>

definition wait_seen :: "cyclic_run \<Rightarrow> u64 \<Rightarrow> u64 option \<Rightarrow> nat \<Rightarrow> nat \<Rightarrow> wait_pc \<Rightarrow> bool" where
  "wait_seen r lst timeout t0 t pc \<longleftrightarrow> t0 \<le> t \<and>
     (case pc of
        WaitRead \<Rightarrow> True
      | WaitCall \<Rightarrow> \<exists>u. t0 \<le> u \<and> u \<le> t \<and> load_u64 (cr_mem r u) 0 = lst
      | WaitReturned (Some n) \<Rightarrow> n \<noteq> lst \<and> (\<exists>u. t0 \<le> u \<and> u \<le> t \<and> load_u64 (cr_mem r u) 0 = n)
      | _ \<Rightarrow> (pc = WaitReturned None \<longrightarrow> timeout \<noteq> None) \<and>
             (\<exists>u v. t0 \<le> u \<and> u \<le> v \<and> v \<le> t \<and> load_u64 (cr_mem r u) 0 = lst \<and> load_u32 (cr_mem r v) 0 = ucast lst))"

lemma wait_seen_later: "wait_seen r lst timeout t0 t pc \<Longrightarrow> wait_seen r lst timeout t0 (Suc t) (wake_by prog t pc)"
  by (auto simp: wait_seen_def wake_by_def le_Suc_eq split: wait_pc.splits option.splits)

lemma wait_seen_move:
  assumes "wait_seen r lst timeout t0 t pc" and "wait_move lst timeout (cr_mem r t) ev pc = Some pc'"
  shows "wait_seen r lst timeout t0 t pc'"
  using assms by (cases ev; cases pc) (auto simp: wait_seen_def Let_def split: if_splits, blast)

lemma wait_reach_seen: "wait_reach r lst timeout t0 t pc \<Longrightarrow> wait_seen r lst timeout t0 t pc"
  by (induction rule: wait_reach.induct) (auto simp: wait_seen_def [of _ _ _ _ _ WaitRead] intro: wait_seen_later wait_seen_move)

section \<open>The sleeper\<close>

text \<open>The access after one that changes the count is the wake.\<close>

lemma insert_count_then_wake:
  assumes "\<And>d. d \<in> set ds \<Longrightarrow> length d = sizeof T"
    and "ins_done (sizeof T) (length ds) (Suc t) \<noteq> ins_done (sizeof T) (length ds) t"
  shows "Suc t < length (trace (CyclicBufferWriter_insert T N) ds m) \<and>
         trace (CyclicBufferWriter_insert T N) ds m ! Suc t = FutexWake 0"
  using assms
proof (induction ds arbitrary: m t)
  case (Cons d ds)
  then have d: "length d = sizeof T" by simp
  consider "Suc t < sizeof T + 3" | "Suc t = sizeof T + 3" | "t = sizeof T + 3" | "sizeof T + 4 \<le> t" by linarith
  then show ?case
  proof cases
    case 2
    have "CyclicBufferWriter_insert T N d m ! (sizeof T + 3) = FutexWake 0"
      using d by (simp add: CyclicBufferWriter_insert_def Let_def nth_append)
    with d show ?thesis unfolding 2 by (simp add: nth_append)
  next
    case 4
    let ?m = "exec_acts (CyclicBufferWriter_insert T N d m) m" and ?t = "t - (sizeof T + 4)"
    have "Suc t - (sizeof T + 4) = Suc ?t" using 4 by simp
    with Cons.prems 4 have "ins_done (sizeof T) (length ds) (Suc ?t) \<noteq> ins_done (sizeof T) (length ds) ?t" by auto
    with Cons.IH [of ?t ?m] Cons.prems(1) 4 d show ?thesis by (auto simp: nth_append Suc_diff_le)
  qed (use Cons.prems in auto)
qed simp

lemma cr_count:
  "cr_invar r \<Longrightarrow> load_u64 (cr_mem r t) 0 = load_u64 (cr_mem0 r) 0 + of_nat (cr_done r t)"
  by (simp add: cr_invar_def cr_mem_def cr_done_def hist_insert_count)

lemma count_then_wake:
  assumes "cr_invar r" and "load_u32 (cr_mem r (Suc t)) 0 \<noteq> load_u32 (cr_mem r t) 0"
  shows "Suc t < length (cr_prog r) \<and> cr_prog r ! Suc t = FutexWake 0"
proof -
  have "cr_done r (Suc t) \<noteq> cr_done r t"
    using assms by (auto simp: load_u32_low cr_count)
  then show ?thesis
    using assms(1) by (intro insert_count_then_wake) (auto simp: cr_invar_def cr_done_def)
qed

lemma sleeper_word:
  assumes "cr_invar r" and "wait_reach r lst timeout t0 t pc" and "pc = WaitAsleep"
  shows "load_u32 (cr_mem r t) 0 = ucast lst \<or> (t < length (cr_prog r) \<and> cr_prog r ! t = FutexWake 0)"
  using assms(2,3)
proof (induction rule: wait_reach.induct)
  case (writer t pc)
  then show ?case using count_then_wake [OF assms(1), of t] by (auto simp: wake_by_def split: if_splits)
next
  case (waiter t pc ev pc')
  then show ?case by (cases ev; cases pc) (auto simp: Let_def split: if_splits)
qed simp

lemma sleeper_woken_ahead:
  assumes "cr_invar r" and "wait_reach r lst timeout t0 t WaitAsleep" and "cr_done r t < length (cr_inserts r)"
  shows "\<exists>u \<ge> t. cr_done r t < cr_done r u \<and> wait_reach r lst timeout t0 (Suc u) WaitRead"
proof -
  obtain u where u: "t \<le> u" "u < length (cr_prog r)" "cr_prog r ! u = FutexWake 0" "cr_done r t < cr_done r u"
    using insert_wake_ahead [of "cr_inserts r" "cr_T r" t "cr_N r" "cr_mem0 r"] assms(1,3)
    by (auto simp: cr_done_def cr_invar_def)
  have wake: "wake_by (cr_prog r) u WaitAsleep = WaitRead" using u(2,3) by (simp add: wake_by_def layout_defs)
  from writer_alone_asleep [OF assms(2) u(1)] have "wait_reach r lst timeout t0 (Suc u) WaitRead"
  proof
    assume "wait_reach r lst timeout t0 u WaitAsleep"
    from wait_reach.writer [OF this] show ?thesis by (simp only: wake)
  next
    assume "wait_reach r lst timeout t0 u WaitRead"
    from wait_reach.writer [OF this] show ?thesis by simp
  qed
  with u show ?thesis by blast
qed

section \<open>The machine and the loop\<close>

text \<open>The outcomes of the machine are those of \<open>CyclicBufferReader_wait_for_write\<close>.\<close>

lemma outcome_of_loop:
  assumes "wait_seen r lst timeout t0 t (WaitReturned res)"
  shows "\<exists>futex clk c'. futex_spec futex \<and> mono clk \<and> t0 \<le> clk 0 \<and> clk (c' - 1) \<le> t \<and>
           CyclicBufferReader_wait_for_write futex (cr_mem r \<circ> clk) lst timeout 0 = Some (res, c')"
proof (cases res)
  case (Some n)
  with assms obtain u where u: "n \<noteq> lst" "t0 \<le> u" "u \<le> t" "load_u64 (cr_mem r u) 0 = n" by (auto simp: wait_seen_def)
  then have "CyclicBufferReader_wait_for_write futex_quick (cr_mem r \<circ> (\<lambda>_. u)) lst timeout 0 = Some (res, 1)"
    using Some by (subst wait_for_write_step) simp
  with u futex_quick_spec show ?thesis by (intro exI [of _ futex_quick] exI [of _ "\<lambda>_. u"] exI [of _ 1]) (simp add: mono_def)
next
  case None
  with assms obtain u v where t: "timeout \<noteq> None" "t0 \<le> u" "u \<le> v" "v \<le> t"
      "load_u64 (cr_mem r u) 0 = lst" "load_u32 (cr_mem r v) 0 = ucast lst" by (auto simp: wait_seen_def)
  let ?clk = "\<lambda>k :: nat. if k = 0 then u else v"
  have "CyclicBufferReader_wait_for_write futex_quick (cr_mem r \<circ> ?clk) lst timeout 0 = Some (res, 2)"
    using None t by (subst wait_for_write_step) (auto simp: futex_quick_def)
  with t futex_quick_spec show ?thesis
    by (intro exI [of _ futex_quick] exI [of _ ?clk] exI [of _ 2]) (simp add: mono_def)
qed

lemma outcome_of_machine:
  assumes "futex_spec futex" and "mono clk" and "t0 \<le> clk 0" and "clk (c' - 1) \<le> t"
    and ret: "CyclicBufferReader_wait_for_write futex (cr_mem r \<circ> clk) lst timeout 0 = Some (res, c')"
  shows "wait_reach r lst timeout t0 t (WaitReturned res)"
proof -
  have read: "wait_reach r lst timeout t0 (clk k) WaitRead" for k
    using writer_alone [OF wait_reach.call, of t0 "clk k"] order_trans [OF assms(3) monoD [OF assms(2), of 0 k]] by simp
  have "wait_reach r lst timeout t0 (clk (c' - 1)) (WaitReturned res)"
  proof (cases res)
    case (Some n)
    then obtain k where "n \<noteq> lst" "c' = Suc k" "load_u64 (cr_mem r (clk k)) 0 = n"
      using wait_for_write_SomeD [OF ret] by auto
    with Some wait_reach.waiter [OF read, where ev = Proceed] show ?thesis by simp
  next
    case None
    then obtain k where k: "c' = k + 2" "load_u64 (cr_mem r (clk k)) 0 = lst" and
        rc: "futex (Suc k) (load_u32 (cr_mem r (clk (Suc k))) 0) (ucast lst) (map_option timespec_of timeout) = FutexETIMEDOUT"
      using wait_for_write_SomeD [OF ret] by auto
    have "wait_reach r lst timeout t0 (clk k) WaitCall"
      using wait_reach.waiter [OF read, where ev = Proceed] k by simp
    then have "wait_reach r lst timeout t0 (clk (Suc k)) WaitCall"
      by (rule writer_alone) (use monoD [OF assms(2)] in simp_all)
    then have "wait_reach r lst timeout t0 (clk (Suc k)) WaitAsleep"
      using wait_reach.waiter [where ev = Proceed] futex_timed_outD(1) [OF assms(1) rc] by simp
    then have "wait_reach r lst timeout t0 (clk (Suc k)) (WaitReturned None)"
      using wait_reach.waiter [where ev = Expire] futex_timed_outD(2) [OF assms(1) rc] by simp
    with None k show ?thesis by simp
  qed
  then show ?thesis by (rule writer_alone) (use assms(4) in simp_all)
qed

section \<open>Properties\<close>

text \<open>
  C16. \<open>wait_for_write\<close> sleeps through no insertion. What a call can return by a given instant, over all interleavings
  and all behaviours of the kernel that \<^verbatim>\<open>futex(2)\<close> allows, is what the machine of waiter, kernel queue and writer can
  return by then. In the machine: a waiter that is asleep although the low half of the count is no longer that of
  \<open>last_seen\<close> is woken by the writer's very next access; one asleep while an insertion is still to be
  counted is woken after it has been; and when the writer has finished, and the count differs from
  \<open>last_seen\<close> by fewer than \<open>2^32\<close> insertions, the waiter is not asleep and comes back with the count: at the
  next load, or at the one after the system call that the kernel then refuses.
\<close>

theorem wait_for_write_no_missed_write:
  assumes "cr_invar r"
  shows "(wait_reach r last_seen timeout_ns t0 t (WaitReturned res) \<longleftrightarrow>
            (\<exists>futex clk c'. futex_spec futex \<and> mono clk \<and> t0 \<le> clk 0 \<and> clk (c' - 1) \<le> t \<and>
               CyclicBufferReader_wait_for_write futex (cr_mem r \<circ> clk) last_seen timeout_ns 0 = Some (res, c'))) \<and>
         (wait_reach r last_seen timeout_ns t0 t WaitAsleep \<and> load_u32 (cr_mem r t) 0 \<noteq> ucast last_seen \<longrightarrow>
            t < length (cr_prog r) \<and> wake_by (cr_prog r) t WaitAsleep = WaitRead) \<and>
         (wait_reach r last_seen timeout_ns t0 t WaitAsleep \<and> cr_done r t < length (cr_inserts r) \<longrightarrow>
            (\<exists>u \<ge> t. cr_done r t < cr_done r u \<and> wait_reach r last_seen timeout_ns t0 (Suc u) WaitRead)) \<and>
         (wait_reach r last_seen timeout_ns t0 t pc \<and> length (cr_prog r) \<le> t \<and> 0 < n \<and> n < 2 ^ 32 \<and>
          load_u64 (cr_mem r t) 0 = last_seen + of_nat n \<longrightarrow>
            pc \<noteq> WaitAsleep \<and>
            (pc = WaitCall \<longrightarrow> wait_move last_seen timeout_ns (cr_mem r t) Proceed pc = Some WaitRead) \<and>
            (pc = WaitRead \<longrightarrow> wait_move last_seen timeout_ns (cr_mem r t) Proceed pc
               = Some (WaitReturned (Some (last_seen + of_nat n)))))"
proof (intro conjI impI)
  show "wait_reach r last_seen timeout_ns t0 t (WaitReturned res) \<longleftrightarrow>
      (\<exists>futex clk c'. futex_spec futex \<and> mono clk \<and> t0 \<le> clk 0 \<and> clk (c' - 1) \<le> t \<and>
         CyclicBufferReader_wait_for_write futex (cr_mem r \<circ> clk) last_seen timeout_ns 0 = Some (res, c'))"
    using outcome_of_loop [OF wait_reach_seen] outcome_of_machine by blast
next
  assume "wait_reach r last_seen timeout_ns t0 t WaitAsleep \<and> cr_done r t < length (cr_inserts r)"
  then show "\<exists>u \<ge> t. cr_done r t < cr_done r u \<and> wait_reach r last_seen timeout_ns t0 (Suc u) WaitRead"
    using sleeper_woken_ahead [OF assms] by blast
qed (use sleeper_word [OF assms _ refl, of last_seen timeout_ns t0 t] ucast_plus_neq [of n last_seen] in
    \<open>auto simp: wake_by_def load_u32_low\<close>)

section \<open>Witness\<close>

text \<open>A waiter that falls asleep before the first of three insertions is woken; the one that looks when the writer has
  finished gets the count, and so does some call of the loop.\<close>

lemma cr_demo_idle: "load_u64 (cr_mem cr_demo 0) 0 = 0" "load_u32 (cr_mem cr_demo 0) 0 = 0" "load_u64 (cr_mem cr_demo 24) 0 = 3"
  "length (cr_prog cr_demo) = 24" "cr_done cr_demo 0 = 0"
  by code_simp+

lemma cr_demo_asleep: "wait_reach cr_demo 0 None 0 0 WaitAsleep"
proof -
  have "wait_reach cr_demo 0 None 0 0 WaitCall"
    using wait_reach.waiter [OF wait_reach.call, where ev = Proceed] by (simp add: cr_demo_idle)
  from wait_reach.waiter [OF this, where ev = Proceed] show ?thesis by (simp add: cr_demo_idle)
qed

lemma cr_demo_waiting: "wait_reach cr_demo 0 None 0 24 WaitRead"
  using writer_alone [OF wait_reach.call] by simp

theorem wait_for_write_no_missed_write_witness:
  "wait_reach cr_demo 0 None 0 0 WaitAsleep \<and>
   (\<exists>u \<ge> 0. cr_done cr_demo 0 < cr_done cr_demo u \<and> wait_reach cr_demo 0 None 0 (Suc u) WaitRead) \<and>
   wait_move 0 None (cr_mem cr_demo 24) Proceed WaitRead = Some (WaitReturned (Some (0 + of_nat 3))) \<and>
   (\<exists>futex clk c'. futex_spec futex \<and> mono clk \<and> 0 \<le> clk 0 \<and> clk (c' - 1) \<le> 24 \<and>
      CyclicBufferReader_wait_for_write futex (cr_mem cr_demo \<circ> clk) 0 None 0 = Some (Some (0 + of_nat 3), c'))"
proof -
  note ok = wait_for_write_no_missed_write [OF cr_demo_invar]
  have woken: "\<exists>u \<ge> 0. cr_done cr_demo 0 < cr_done cr_demo u \<and> wait_reach cr_demo 0 None 0 (Suc u) WaitRead"
    using ok [of 0 None 0 0, THEN conjunct2, THEN conjunct2, THEN conjunct1] cr_demo_asleep by (simp add: cr_demo_idle)
  have count: "wait_move 0 None (cr_mem cr_demo 24) Proceed WaitRead = Some (WaitReturned (Some (0 + of_nat 3)))"
    using ok [of 0 None 0 24 _ WaitRead 3, THEN conjunct2, THEN conjunct2, THEN conjunct2] cr_demo_waiting
    by (simp add: cr_demo_idle del: wait_move.simps)
  from ok [of 0 None 0 24 "Some (0 + of_nat 3)", THEN conjunct1] wait_reach.waiter [OF cr_demo_waiting count] woken count
  show ?thesis using cr_demo_asleep by blast
qed

end
