(* ===== verification/Interp_Linear.thy ===== *)
theory Interp_Linear
  imports Time_Series
begin

text \<open>
  The linear fall-back of \<open>find_interpolation_pair\<close> (\<^verbatim>\<open>time_series.hpp\<close>) on a buffer at rest, and its
  agreement with the binary search. The scan keeps the nearest element on either side of the target
  (\<open>bracket_step\<close>); \<open>nearest_below\<close> and \<open>nearest_above\<close> say what it has found.
\<close>

section \<open>The scan\<close>

abbreviation bracket_init :: "'e bracket" where
  "bracket_init \<equiv> \<lparr>before_elem = None, before_key = 0, before_diff = - 1,
     after_elem = None, after_key = 0, after_diff = - 1\<rparr>"

definition nearest_below :: "('e \<Rightarrow> u64) \<Rightarrow> u64 \<Rightarrow> 'e set \<Rightarrow> 'e bracket \<Rightarrow> bool" where
  "nearest_below key target X b \<longleftrightarrow>
     (\<forall>x \<in> X. key x \<le> target \<longrightarrow> before_diff b \<le> target - key x) \<and>
     (case before_elem b of
        None \<Rightarrow> before_diff b = - 1
      | Some e \<Rightarrow> e \<in> X \<and> key e \<le> target \<and> before_key b = key e \<and> before_diff b = target - key e)"

definition nearest_above :: "('e \<Rightarrow> u64) \<Rightarrow> u64 \<Rightarrow> 'e set \<Rightarrow> 'e bracket \<Rightarrow> bool" where
  "nearest_above key target X b \<longleftrightarrow>
     (\<forall>x \<in> X. target \<le> key x \<longrightarrow> after_diff b \<le> key x - target) \<and>
     (case after_elem b of
        None \<Rightarrow> after_diff b = - 1
      | Some e \<Rightarrow> e \<in> X \<and> target \<le> key e \<and> after_key b = key e \<and> after_diff b = key e - target)"

lemma nearest_init: "nearest_below key target {} bracket_init" "nearest_above key target {} bracket_init"
  by (simp_all add: nearest_below_def nearest_above_def)

lemma bracket_step_below:
  "nearest_below key target X b \<Longrightarrow> nearest_below key target (insert e X) (bracket_step key target e b)"
  by (auto simp: nearest_below_def bracket_step_def Let_def not_less split: option.splits)

lemma bracket_step_above:
  "nearest_above key target X b \<Longrightarrow> nearest_above key target (insert e X) (bracket_step key target e b)"
  by (auto simp: nearest_above_def bracket_step_def Let_def not_less split: option.splits)

lemma fold_below:
  "nearest_below key target X b \<Longrightarrow> nearest_below key target (X \<union> set xs) (fold (bracket_step key target) xs b)"
proof (induction xs arbitrary: X b)
  case (Cons e xs)
  from Cons.IH [OF bracket_step_below [OF Cons.prems, of e]] show ?case by simp
qed simp

lemma fold_above:
  "nearest_above key target X b \<Longrightarrow> nearest_above key target (X \<union> set xs) (fold (bracket_step key target) xs b)"
proof (induction xs arbitrary: X b)
  case (Cons e xs)
  from Cons.IH [OF bracket_step_above [OF Cons.prems, of e]] show ?case by simp
qed simp

context window_reader
begin

lemma interp_linear_loop_at_rest:
  assumes b: "invar b" and "\<And>i. i \<in> set is \<Longrightarrow> i < length (window b)"
  shows "\<exists>c'. interp_linear_loop (reader b) key target is br c
     = Some (fold (bracket_step key target) (map ((!) (window b)) is) br, c')"
  using assms(2)
proof (induction "is" arbitrary: br c)
  case (Cons i "is")
  obtain c1 where "rd_try_get (reader b) i c = Some (Some (window b ! i), c1)"
    using try_get [OF b, of i c] Cons.prems by auto
  with Cons show ?case by simp
qed simp

lemma find_interpolation_pair_linear_at_rest:
  assumes "invar b"
  shows "\<exists>br c'. nearest_below key target (set (window b)) br \<and> nearest_above key target (set (window b)) br \<and>
     find_interpolation_pair_linear (reader b) key target (length (window b)) c
       = Some (case (before_elem br, after_elem br) of
                 (Some x, Some y) \<Rightarrow> Some \<lparr>before = x, after = y,
                    alpha = (if after_key br = before_key br then 0 else interp_alpha target (before_key br) (after_key br))\<rparr>
               | _ \<Rightarrow> None, c')"
proof -
  let ?br = "fold (bracket_step key target) (window b) bracket_init"
  obtain c' where "interp_linear_loop (reader b) key target [0..<length (window b)] bracket_init c = Some (?br, c')"
    using interp_linear_loop_at_rest [OF assms, of "[0..<length (window b)]" key target bracket_init c] by (auto simp: map_nth)
  moreover have "nearest_below key target (set (window b)) ?br" "nearest_above key target (set (window b)) ?br"
    using fold_below [OF nearest_init(1), of key target "window b"] fold_above [OF nearest_init(2), of key target "window b"]
    by simp_all
  ultimately show ?thesis
    by (intro exI [of _ ?br] exI [of _ c']) (simp add: find_interpolation_pair_linear_def)
qed

end

section \<open>Nearest elements of an ordered window\<close>

lemma key_inj_nth:
  assumes "sorted_wrt (\<lambda>x y. key y < (key x :: u64)) w" and "x \<in> set w" "y \<in> set w" "key x = key y"
  shows "x = y"
  using assms by (metis in_set_conv_nth linorder_neqE_nat order_less_irrefl sorted_wrt_iff_nth_less)

text \<open>A pair that brackets the target in a strictly ordered window has the greatest key not above the target
  and, unless the target is met exactly, the least key above it.\<close>

lemma brackets_extreme:
  assumes sorted: "sorted_wrt (\<lambda>x y. key y < (key x :: u64)) w" and br: "brackets key target w p"
  shows "before p \<in> set w" "after p \<in> set w"
    and "x \<in> set w \<Longrightarrow> key x \<le> target \<Longrightarrow> key x \<le> key (before p)"
    and "x \<in> set w \<Longrightarrow> target \<le> key x \<Longrightarrow> target \<noteq> key (before p) \<Longrightarrow> key (after p) \<le> key x"
proof -
  obtain i where i: "i < length w" "after p = w ! i"
      "before p = w ! i \<and> target = key (w ! i) \<or> Suc i < length w \<and> before p = w ! Suc i \<and> target < key (w ! i)"
    using br unfolding brackets_def by blast
  then show "before p \<in> set w" "after p \<in> set w" by auto
  have le: "key (before p) \<le> target" using br by (simp add: brackets_def)
  have down: "j < k \<Longrightarrow> k < length w \<Longrightarrow> key (w ! k) < key (w ! j)" for j k
    using sorted by (simp add: sorted_wrt_iff_nth_less)
  show "key x \<le> key (before p)" if x: "x \<in> set w" "key x \<le> target"
  proof (rule ccontr)
    assume "\<not> key x \<le> key (before p)"
    then have less: "key (before p) < key x" by (simp only: not_le)
    obtain j where j: "j < length w" "w ! j = x" using x(1) unfolding in_set_conv_nth by blast
    from i(3) show False
    proof
      assume "before p = w ! i \<and> target = key (w ! i)"
      with less x j show False by simp
    next
      assume r: "Suc i < length w \<and> before p = w ! Suc i \<and> target < key (w ! i)"
      have "\<not> (j = Suc i \<or> Suc i < j)" using down [of "Suc i" j] j r less by auto
      then have "j = i \<or> j < i" by auto
      then have "key (w ! i) \<le> key (w ! j)" using down [of j i] i(1) by auto
      with r x(2) j(2) show False by (meson leD order_trans)
    qed
  qed
  show "key (after p) \<le> key x" if x: "x \<in> set w" "target \<le> key x" "target \<noteq> key (before p)"
  proof (rule ccontr)
    assume "\<not> key (after p) \<le> key x"
    then have less: "key x < key (w ! i)" using i(2) by (simp only: not_le)
    obtain j where j: "j < length w" "w ! j = x" using x(1) unfolding in_set_conv_nth by blast
    from x(3) i(3) have r: "Suc i < length w" "before p = w ! Suc i" by auto
    have "\<not> (j = i \<or> j < i)" using less down [of j i] i(1) j(2) by auto
    then have "j = Suc i \<or> Suc i < j" by auto
    then have "key x \<le> key (before p)" using down [of "Suc i" j] r j by auto
    with le x show False by simp
  qed
qed

text \<open>What the scan has found at the end, outside the range of the window and inside it.\<close>

lemma window_range:
  assumes "sorted_wrt (\<lambda>x y. key y < (key x :: u64)) w" and "x \<in> set w"
  shows "key x \<le> key (hd w)" "key (last w) \<le> key x"
proof -
  obtain j where j: "j < length w" "x = w ! j" using assms(2) by (metis in_set_conv_nth)
  have down: "i < k \<Longrightarrow> k < length w \<Longrightarrow> key (w ! k) < key (w ! i)" for i k
    using assms(1) by (simp add: sorted_wrt_iff_nth_less)
  have ne: "w \<noteq> []" using j by auto
  have "key (w ! j) \<le> key (w ! 0)" using down [of 0 j] j(1) by (cases "j = 0") auto
  with j ne show "key x \<le> key (hd w)" by (simp add: hd_conv_nth)
  have "key (w ! (length w - 1)) \<le> key (w ! j)" 
  proof (cases "j = length w - 1")
    case False
    with j(1) have "j < length w - 1" "length w - 1 < length w" by simp_all
    from down [OF this] show ?thesis by simp
  qed simp
  with j ne show "key (last w) \<le> key x" by (simp add: last_conv_nth)
qed

lemma no_pair_outside:
  assumes "sorted_wrt (\<lambda>x y. key y < (key x :: u64)) w" and "w \<noteq> []"
    and br: "nearest_below key target (set w) br" "nearest_above key target (set w) br"
    and out: "key (hd w) < target \<or> target < key (last w)"
  shows "before_elem br = None \<or> after_elem br = None"
proof (rule ccontr)
  assume "\<not> ?thesis"
  then obtain x y where "x \<in> set w" "key x \<le> target" "y \<in> set w" "target \<le> key y"
    using br by (auto simp: nearest_below_def nearest_above_def)
  with window_range [OF assms(1)] out show False by fastforce
qed

lemma diff_below: "(a :: u64) \<le> t \<Longrightarrow> b \<le> t \<Longrightarrow> t - a \<le> t - b \<longleftrightarrow> b \<le> a"
  by (simp add: word_le_nat_alt unat_sub) linarith

lemma diff_above: "(t :: u64) \<le> a \<Longrightarrow> t \<le> b \<Longrightarrow> a - t \<le> b - t \<longleftrightarrow> a \<le> b"
  by (simp add: word_le_nat_alt unat_sub) linarith

lemma nearest_below_found:
  assumes "nearest_below key target X br" and "e \<in> X" "key e \<le> target" "target - key e \<noteq> - 1"
    and max: "\<And>x. x \<in> X \<Longrightarrow> key x \<le> target \<Longrightarrow> key x \<le> key e"
  shows "\<exists>x \<in> X. before_elem br = Some x \<and> before_key br = key x \<and> key x = key e"
proof -
  have "before_diff br \<noteq> - 1"
    using assms(1-4) by (auto simp: nearest_below_def word_order.extremum_unique)
  with assms(1) obtain x where x: "before_elem br = Some x" "x \<in> X" "key x \<le> target" "before_key br = key x"
      "target - key x \<le> target - key e"
    using assms(2,3) by (auto simp: nearest_below_def split: option.splits)
  then have "key e \<le> key x" using diff_below assms(3) by blast
  with max [OF x(2,3)] x show ?thesis by auto
qed

lemma nearest_above_found:
  assumes "nearest_above key target X br" and "e \<in> X" "target \<le> key e" "key e - target \<noteq> - 1"
    and min: "\<And>x. x \<in> X \<Longrightarrow> target \<le> key x \<Longrightarrow> key e \<le> key x"
  shows "\<exists>x \<in> X. after_elem br = Some x \<and> after_key br = key x \<and> key x = key e"
proof -
  have "after_diff br \<noteq> - 1"
    using assms(1-4) by (auto simp: nearest_above_def word_order.extremum_unique)
  with assms(1) obtain x where x: "after_elem br = Some x" "x \<in> X" "target \<le> key x" "after_key br = key x"
      "key x - target \<le> key e - target"
    using assms(2,3) by (auto simp: nearest_above_def split: option.splits)
  then have "key x \<le> key e" using diff_above assms(3) by blast
  with min [OF x(2,3)] x show ?thesis by auto
qed

text \<open>Neither side of a pair is \<open>2^64 - 1\<close> away from the target, the distance the scan starts from.\<close>

lemma close_diffs:
  assumes "brackets key target w p"
  shows "target - key (before p) \<noteq> - 1" "key (if target = key (before p) then before p else after p) - target \<noteq> - 1"
proof -
  have le: "key (before p) \<le> target" "target \<le> key (after p)" "target = key (before p) \<or> target < key (after p)"
    using assms by (auto simp: brackets_def)
  have far: "a = 0" "b = - 1" if "a \<le> b" "b - a = (- 1 :: u64)" for a b
  proof -
    have "uint b - uint a = 2 ^ 64 - 1"
      using that uint_minus_simple_alt [of a b] by (simp add: unsigned_minus_1_eq_mask mask_eq_exp_minus_1)
    moreover have "0 \<le> uint a" "uint b < 2 ^ 64" using uint_lt2p [of b] by simp_all
    ultimately have "uint a = 0" "uint b = 2 ^ 64 - 1" by linarith+
    then show "a = 0" "b = - 1" by (simp_all add: word_uint_eq_iff unsigned_minus_1_eq_mask mask_eq_exp_minus_1)
  qed
  show "target - key (before p) \<noteq> - 1"
  proof
    assume "target - key (before p) = - 1"
    from far [OF le(1) this] le(3) have "- 1 < key (after p)" by auto
    with word_order.extremum [of "key (after p)"] show False by (simp add: leD)
  qed
  show "key (if target = key (before p) then before p else after p) - target \<noteq> - 1"
    using far(1) [OF le(2)] le(1,3) by (auto simp: word_le_0_iff)
qed

lemma pair_inside:
  assumes sorted: "sorted_wrt (\<lambda>x y. key y < (key x :: u64)) w"
    and br: "nearest_below key target (set w) br" "nearest_above key target (set w) br"
    and p: "brackets key target w p"
  shows "\<exists>x y. before_elem br = Some x \<and> after_elem br = Some y \<and> before_key br = key x \<and> after_key br = key y \<and>
     x = before p \<and> y = (if target = key (before p) then before p else after p)"
proof -
  note ext = brackets_extreme [OF sorted p]
  let ?y = "if target = key (before p) then before p else after p"
  have le: "key (before p) \<le> target" "target \<le> key (after p)" using p by (simp_all add: brackets_def)
  have close: "target - key (before p) \<noteq> - 1" "key ?y - target \<noteq> - 1"
    using close_diffs [OF p] by simp_all
  obtain x where x: "x \<in> set w" "before_elem br = Some x" "before_key br = key x" "key x = key (before p)"
    using nearest_below_found [OF br(1) ext(1) le(1) close(1) ext(3)] by blast
  have y: "?y \<in> set w" "target \<le> key ?y" using ext(1,2) le by auto
  have "key ?y \<le> key z" if "z \<in> set w" "target \<le> key z" for z
    using ext(4) [OF that] that by auto
  then obtain y where "y \<in> set w" "after_elem br = Some y" "after_key br = key y" "key y = key ?y"
    using nearest_above_found [OF br(2) y close(2)] by blast
  with x y ext(1) key_inj_nth [OF sorted] show ?thesis by metis
qed

section \<open>Properties\<close>

text \<open>
  C25. On a buffer at rest with strictly increasing keys and at least two elements, the linear scan that
  \<open>find_interpolation_pair\<close> falls back to finds a pair exactly when the binary search does, with the
  same older element and the same factor, so interpolation gives the same value; the newer element
  is the same as well unless the target is exactly the key of the older one.
\<close>

theorem find_interpolation_pair_linear_agrees:
  assumes "cb_ok b" and sorted: "sorted_wrt (\<lambda>x y. key y < key x) (cb_contents b)" and "2 \<le> length (cb_contents b)"
    and rd: "rd = cyclic_reader (cb_T b) (cb_N b) (\<lambda>_. cb_m b)"
    and bin: "find_interpolation_pair rd key target c = Some (res, c1)"
    and lin: "find_interpolation_pair_linear rd key target (length (cb_contents b)) c' = Some (res', c2)"
  shows "(res = None) = (res' = None) \<and>
         (\<forall>p q. res = Some p \<and> res' = Some q \<longrightarrow>
            before q = before p \<and> alpha q = alpha p \<and> (target = key (before p) \<or> after q = after p))"
proof -
  let ?w = "cb_contents b"
  obtain br where br: "nearest_below key target (set ?w) br" "nearest_above key target (set ?w) br"
      and res': "res' = (case (before_elem br, after_elem br) of
        (Some x, Some y) \<Rightarrow> Some \<lparr>before = x, after = y,
           alpha = (if after_key br = before_key br then 0 else interp_alpha target (before_key br) (after_key br))\<rparr>
      | _ \<Rightarrow> None)"
    using ts.find_interpolation_pair_linear_at_rest [OF assms(1), of key target c'] lin unfolding rd by auto
  have ne: "?w \<noteq> []" using assms(3) by (metis list.size(3) not_numeral_le_zero)
  show ?thesis
  proof (cases "key (hd ?w) < target \<or> target < key (last ?w)")
    case True
    then have "res = None"
      using ts.find_interpolation_pair_correct [OF assms(1), of key target c] bin unfolding rd by auto
    moreover have "res' = None" using no_pair_outside [OF sorted ne br True] res' by (auto split: option.split)
    ultimately show ?thesis by simp
  next
    case False
    then obtain p where p: "res = Some p" "brackets key target ?w p"
      using ts.find_interpolation_pair_correct [OF assms(1), of key target c] bin assms(3) unfolding rd
      by (auto simp: min_def split: if_splits)
    obtain x y where xy: "before_elem br = Some x" "after_elem br = Some y" "before_key br = key x" "after_key br = key y"
        "x = before p" "y = (if target = key (before p) then before p else after p)"
      using pair_inside [OF sorted br p(2)] by blast
    have "alpha p = (if key (after p) = key (before p) then 0 else interp_alpha target (key (before p)) (key (after p)))"
      "(alpha p = 0) = (key (before p) = target)"
      using p(2) unfolding brackets_def by blast+
    with res' xy p(1) show ?thesis by auto
  qed
qed

section \<open>Witness\<close>

text \<open>The target 25 lies between the keys 20 and 40 of the demonstration buffer.\<close>

theorem find_interpolation_pair_linear_agrees_witness:
  "\<exists>p q c1 c2. find_interpolation_pair (cyclic_reader (cb_T ts_buf) (cb_N ts_buf) (\<lambda>_. cb_m ts_buf)) le_word 25 0 = Some (Some p, c1) \<and>
     find_interpolation_pair_linear (cyclic_reader (cb_T ts_buf) (cb_N ts_buf) (\<lambda>_. cb_m ts_buf)) le_word 25
       (length (cb_contents ts_buf)) 0 = Some (Some q, c2) \<and>
     before q = before p \<and> alpha q = alpha p"
proof -
  let ?rd = "cyclic_reader (cb_T ts_buf) (cb_N ts_buf) (\<lambda>_. cb_m ts_buf)"
  have sorted: "sorted_wrt (\<lambda>x y. (le_word y :: u64) < le_word x) (cb_contents ts_buf)"
    by (simp add: ts_buf_contents ts_buf_keys)
  have in_range: "\<not> (40 :: u64) < 25" "\<not> (25 :: u64) < 10" and len: "2 \<le> length (cb_contents ts_buf)"
    by (simp_all add: ts_buf_contents del: length_cb_contents)
  obtain p c1 where bin: "find_interpolation_pair ?rd le_word 25 0 = Some (Some p, c1)"
    using ts.find_interpolation_pair_correct [OF ts_buf_ok, of le_word 25 0] in_range
    by (auto simp: ts_buf_contents ts_buf_keys)
  obtain res c2 where lin: "find_interpolation_pair_linear ?rd le_word 25 (length (cb_contents ts_buf)) 0 = Some (res, c2)"
    using ts.find_interpolation_pair_linear_at_rest [OF ts_buf_ok, of le_word 25 0] by blast
  from find_interpolation_pair_linear_agrees [OF ts_buf_ok sorted len refl bin lin] bin lin show ?thesis by blast
qed

end
