(* ===== verification/Lock_Order.thy ===== *)
theory Lock_Order
  imports Memory_Order Storage
begin

text \<open>
  The memory orders of \<^verbatim>\<open>shm_lock.hpp\<close> and \<^verbatim>\<open>swap_runner.hpp\<close> on a processor that reorders as much
  as they permit. In an execution every access of a process has an instant at which it takes effect
  for all processes; two accesses of one process keep their program order unless the later one may
  overtake the earlier one (\<open>may_overtake\<close>). The lock word itself is one location, so the parts of
  \<open>lock()\<close> and \<open>unlock()\<close> take effect in an order that is a run of \<open>Shm_Lock\<close>. The question is where the
  accesses to the guarded object go: \<open>Storage\<close> and \<open>Loader_Machine\<close> put them between \<open>lock()\<close> and
  \<open>unlock()\<close>, and here this is derived.
\<close>

section \<open>Accesses and their orders\<close>

datatype 'l access = Access (ac_order: mem_order) (ac_loc: 'l)

definition may_overtake :: "'l access \<Rightarrow> 'l access \<Rightarrow> bool" where
  "may_overtake earlier later \<longleftrightarrow>
     ac_order earlier \<noteq> Acquire \<and> ac_order earlier \<noteq> Barrier \<and>
     ac_order later \<noteq> Release \<and> ac_order later \<noteq> Barrier \<and> ac_loc earlier \<noteq> ac_loc later"

text \<open>\<open>prog p\<close> are the accesses process \<open>p\<close> makes, in program order; \<open>time p i\<close> is when the \<open>i\<close>-th
  takes effect.\<close>

definition weak_times :: "('p \<Rightarrow> 'l access list) \<Rightarrow> ('p \<Rightarrow> nat \<Rightarrow> nat) \<Rightarrow> bool" where
  "weak_times prog time \<longleftrightarrow>
     (\<forall>p q i j. i < length (prog p) \<longrightarrow> j < length (prog q) \<longrightarrow> time p i = time q j \<longrightarrow> p = q \<and> i = j) \<and>
     (\<forall>p i j. i < j \<longrightarrow> j < length (prog p) \<longrightarrow> time p j < time p i \<longrightarrow> may_overtake (prog p ! i) (prog p ! j))"

lemma weak_times_kept:
  assumes "weak_times prog time" and "i < j" "j < length (prog p)" and "\<not> may_overtake (prog p ! i) (prog p ! j)"
  shows "time p i < time p j"
proof -
  have "time p i \<noteq> time p j" using assms(1-3) unfolding weak_times_def by (metis less_trans nat_neq_iff)
  moreover have "\<not> time p j < time p i" using assms unfolding weak_times_def by blast
  ultimately show ?thesis by simp
qed

lemma acquire_first: "ac_order x = Acquire \<Longrightarrow> \<not> may_overtake x y"
  by (simp add: may_overtake_def)

lemma release_last: "ac_order y = Release \<Longrightarrow> \<not> may_overtake x y"
  by (simp add: may_overtake_def)

lemma same_loc_kept: "ac_loc x = ac_loc y \<Longrightarrow> \<not> may_overtake x y"
  by (simp add: may_overtake_def)

section \<open>Passing a message\<close>

text \<open>
  The writer stores its data and then, with release, a flag; the reader loads the flag with acquire and
  then reads. If the load of the flag takes effect after the store, all that precedes the store
  takes effect before all that follows the load.
\<close>

lemma message_passing:
  assumes w: "weak_times prog time"
    and "i < s" "s < length (prog p)" "ac_order (prog p ! s) = Release"
    and "l < j" "j < length (prog q)" "ac_order (prog q ! l) = Acquire"
    and "time p s < time q l"
  shows "time p i < time q j"
  using weak_times_kept [OF w assms(2,3) release_last [OF assms(4)]]
    weak_times_kept [OF w assms(5,6) acquire_first [OF assms(7)]] assms(8) by simp

section \<open>The lock\<close>

text \<open>A process uses the lock and the guarded bytes.\<close>

datatype 'p item =
    Use "'p lock_event"   \<comment> \<open>a part of \<open>lock()\<close> or \<open>unlock()\<close>\<close>
  | Touch nat             \<comment> \<open>a plain access to a byte of the guarded object\<close>

fun lock_order :: "'p lock_event \<Rightarrow> mem_order" where
  "lock_order (CallLock p) = Plain"
| "lock_order (Fast p) = Acquire"
| "lock_order (Slow p) = Acquire"
| "lock_order (FutexWait p) = Barrier"
| "lock_order (Spurious p) = Barrier"
| "lock_order (CallUnlock p) = Release"
| "lock_order (WakeOne p q) = Barrier"
| "lock_order (WakeNone p) = Barrier"

fun item_access :: "'p item \<Rightarrow> nat option access" where
  "item_access (Use e) = Access (lock_order e) None"
| "item_access (Touch x) = Access Plain (Some x)"

text \<open>The lock at instant \<open>t\<close> is \<open>st t\<close>: it changes at the instants of the parts of \<open>lock()\<close> and \<open>unlock()\<close>, as
  \<open>ShmLock_exec\<close> says, and at no other.\<close>

definition weak_lock_run ::
    "('p \<Rightarrow> 'p item list) \<Rightarrow> ('p \<Rightarrow> nat \<Rightarrow> nat) \<Rightarrow> (nat \<Rightarrow> 'p lock_state) \<Rightarrow> bool" where
  "weak_lock_run prog time st \<longleftrightarrow>
     weak_times (\<lambda>p. map item_access (prog p)) time \<and>
     (\<forall>p i e. i < length (prog p) \<longrightarrow> prog p ! i = Use e \<longrightarrow> lock_event_by e = p) \<and>
     st 0 = lock_init \<and>
     (\<forall>t. (\<exists>p i e. i < length (prog p) \<and> time p i = t \<and> prog p ! i = Use e \<and> ShmLock_exec e (st t) = Some (st (Suc t))) \<or>
          (\<forall>p i e. i < length (prog p) \<longrightarrow> time p i = t \<longrightarrow> prog p ! i \<noteq> Use e) \<and> st (Suc t) = st t)"

lemma weak_lock_run_inv: "weak_lock_run prog time st \<Longrightarrow> lock_inv (st t)"
proof (induction t)
  case 0
  then show ?case by (simp add: weak_lock_run_def lock_inv_init)
next
  case (Suc t)
  then have "st (Suc t) = st t \<or> (\<exists>e. ShmLock_exec e (st t) = Some (st (Suc t)))"
    unfolding weak_lock_run_def by blast
  with Suc lock_inv_exec [of "st t"] show ?case by auto
qed

text \<open>Between two neighbouring uses of the lock by \<open>p\<close> there is no other one in time either.\<close>

lemma uses_in_order:
  assumes "weak_times (\<lambda>p. map item_access (prog p)) time" and "i < j" "j < length (prog p)"
    and "prog p ! i = Use e" "prog p ! j = Use f"
  shows "time p i < time p j"
proof -
  have "i < length (prog p)" using assms(2,3) by simp
  with weak_times_kept [OF assms(1,2), of p] assms(3-5) show ?thesis by (simp add: may_overtake_def)
qed

definition section_of :: "'p \<Rightarrow> ('p \<Rightarrow> 'p item list) \<Rightarrow> nat \<Rightarrow> nat \<Rightarrow> bool" where
  "section_of p prog a r \<longleftrightarrow>
     a < r \<and> r < length (prog p) \<and> (prog p ! a = Use (Fast p) \<or> prog p ! a = Use (Slow p)) \<and>
     prog p ! r = Use (CallUnlock p) \<and> (\<forall>k. a < k \<longrightarrow> k < r \<longrightarrow> (\<exists>x. prog p ! k = Touch x))"

lemma section_kept:
  assumes run: "weak_lock_run prog time st" and sec: "section_of p prog a r"
    and got: "holds_lock (st (Suc (time p a))) p" and "time p a < t" "t \<le> time p r"
  shows "holds_lock (st t) p"
  using assms(4,5)
proof (induction t)
  case (Suc t)
  show ?case
  proof (cases "t = time p a")
    case False
    with Suc have t: "time p a < t" "t < time p r" "holds_lock (st t) p" by simp_all
    have "st (Suc t) = st t \<or> (\<exists>q i e. i < length (prog q) \<and> time q i = t \<and> prog q ! i = Use e \<and>
        ShmLock_exec e (st t) = Some (st (Suc t)))"
      using run unfolding weak_lock_run_def by blast
    then show ?thesis
    proof
      assume "\<exists>q i e. i < length (prog q) \<and> time q i = t \<and> prog q ! i = Use e \<and> ShmLock_exec e (st t) = Some (st (Suc t))"
      then obtain q i e where i: "i < length (prog q)" "time q i = t" "prog q ! i = Use e"
        and ex: "ShmLock_exec e (st t) = Some (st (Suc t))" by blast
      have "e \<noteq> CallUnlock p"
      proof
        assume e: "e = CallUnlock p"
        then have q: "q = p" using run i(1,3) unfolding weak_lock_run_def by fastforce
        note ord = uses_in_order [of prog time _ _ p]
        have wt: "weak_times (\<lambda>p. map item_access (prog p)) time" using run by (simp add: weak_lock_run_def)
        consider "i < a" | "i = a" | "a < i" "i < r" | "i = r" | "r < i" by linarith
        then show False
        proof cases
          case 1
          then have "time p i < time p a" using ord [OF wt, of i a] sec i q by (auto simp: section_of_def)
          with t i q show False by simp
        next
          case 5
          then have "time p r < time p i" using ord [OF wt, of r i] sec i q by (auto simp: section_of_def)
          with t i q show False by simp
        qed (use t i q e sec in \<open>auto simp: section_of_def\<close>)
      qed
      with lk.keep [OF weak_lock_run_inv [OF run] ex t(3)] show ?thesis by simp
    qed (use t in simp)
  qed (use got in simp)
qed simp

section \<open>The rounds of the swap runner\<close>

text \<open>
  The two threads of a \<open>SwapRunner\<close> share the flags \<open>idle_\<close> and \<open>triggered_\<close> and the data of the task. In a
  round the user writes what the task is to work on, calls \<open>trigger()\<close> and then \<open>wait()\<close>; the thread leaves
  its wait, clears \<open>triggered_\<close>, runs the task and stores \<open>idle_\<close>. Of a wait only the load that makes it
  return is listed; that load has seen a value other than 0. The notifications order nothing here.
\<close>

datatype 'd runner_loc = Idle_flag | Triggered_flag | Data 'd

definition plain_data :: "'d list \<Rightarrow> 'd runner_loc access list" where
  "plain_data ds = map (\<lambda>d. Access Plain (Data d)) ds"

definition runner_round_user :: "'d list \<Rightarrow> 'd runner_loc access list" where
  "runner_round_user us = plain_data us @
     [Access Plain Idle_flag, Access Release Triggered_flag, Access Acquire Idle_flag]"

definition runner_round_thread :: "'d list \<Rightarrow> 'd runner_loc access list" where
  "runner_round_thread ws =
     [Access Acquire Triggered_flag, Access Plain Triggered_flag] @ plain_data ws @ [Access Release Idle_flag]"

text \<open>\<open>n\<close> rounds; \<open>False\<close> is the user and \<open>True\<close> the thread.\<close>

definition runner_prog :: "nat \<Rightarrow> 'd list \<Rightarrow> 'd list \<Rightarrow> bool \<Rightarrow> 'd runner_loc access list" where
  "runner_prog n us ws p =
     concat (replicate n (if p then runner_round_thread ws else runner_round_user us))"

text \<open>Where in program order the accesses of round \<open>k\<close> are.\<close>

definition user_at :: "'d list \<Rightarrow> nat \<Rightarrow> nat \<Rightarrow> nat" where
  "user_at us k i = k * (length us + 3) + i"

definition thread_at :: "'d list \<Rightarrow> nat \<Rightarrow> nat \<Rightarrow> nat" where
  "thread_at ws k i = k * (length ws + 3) + i"

text \<open>A load at instant \<open>t\<close> of a location with the stores \<open>S\<close> (instant and value) and the initial value \<open>v0\<close>
  sees the newest store before it.\<close>

definition sees :: "(nat \<times> nat) set \<Rightarrow> nat \<Rightarrow> nat \<Rightarrow> nat \<Rightarrow> bool" where
  "sees S v0 t v \<longleftrightarrow>
     (\<exists>s\<in>S. fst s < t \<and> snd s = v \<and> (\<forall>s'\<in>S. fst s' < t \<longrightarrow> fst s' \<le> fst s)) \<or> (\<forall>s\<in>S. t \<le> fst s) \<and> v = v0"

definition triggered_stores :: "nat \<Rightarrow> 'd list \<Rightarrow> 'd list \<Rightarrow> (bool \<Rightarrow> nat \<Rightarrow> nat) \<Rightarrow> (nat \<times> nat) set" where
  "triggered_stores n us ws time =
     (\<lambda>k. (time False (user_at us k (length us + 1)), 1)) ` {..<n} \<union> (\<lambda>k. (time True (thread_at ws k 1), 0)) ` {..<n}"

definition idle_stores :: "nat \<Rightarrow> 'd list \<Rightarrow> 'd list \<Rightarrow> (bool \<Rightarrow> nat \<Rightarrow> nat) \<Rightarrow> (nat \<times> nat) set" where
  "idle_stores n us ws time =
     (\<lambda>k. (time False (user_at us k (length us)), 0)) ` {..<n} \<union> (\<lambda>k. (time True (thread_at ws k (length ws + 2)), 1)) ` {..<n}"

text \<open>An execution of \<open>n\<close> rounds in which every wait returned.\<close>

definition weak_runner_run :: "nat \<Rightarrow> 'd list \<Rightarrow> 'd list \<Rightarrow> (bool \<Rightarrow> nat \<Rightarrow> nat) \<Rightarrow> bool" where
  "weak_runner_run n us ws time \<longleftrightarrow>
     weak_times (runner_prog n us ws) time \<and>
     (\<forall>k<n. \<exists>v. v \<noteq> 0 \<and> sees (triggered_stores n us ws time) 0 (time True (thread_at ws k 0)) v) \<and>
     (\<forall>k<n. \<exists>v. v \<noteq> 0 \<and> sees (idle_stores n us ws time) 1 (time False (user_at us k (length us + 2))) v)"

lemma concat_replicate_nth: "k < n \<Longrightarrow> i < length r \<Longrightarrow> concat (replicate n r) ! (k * length r + i) = r ! i"
proof (induction n arbitrary: k)
  case (Suc n)
  then show ?case by (cases k) (simp_all add: nth_append add.assoc)
qed simp

lemma round_index: "k < n \<Longrightarrow> i < m \<Longrightarrow> k * m + i < n * (m::nat)"
proof -
  assume "k < n" "i < m"
  then have "k * m + i < Suc k * m" by simp
  also have "\<dots> \<le> n * m" using \<open>k < n\<close> by (intro mult_right_mono) simp_all
  finally show ?thesis .
qed

lemma length_rounds [simp]:
  "length (plain_data ds) = length ds" "length (runner_round_user us) = length us + 3"
  "length (runner_round_thread ws) = length ws + 3"
  "length (runner_prog n us ws p) = n * (if p then length ws + 3 else length us + 3)"
  by (simp_all add: plain_data_def runner_round_user_def runner_round_thread_def runner_prog_def
      length_concat sum_list_replicate)

lemma user_access:
  "k < n \<Longrightarrow> i < length us + 3 \<Longrightarrow> runner_prog n us ws False ! user_at us k i = runner_round_user us ! i"
  "k < n \<Longrightarrow> i < length us + 3 \<Longrightarrow> user_at us k i < length (runner_prog n us ws False)"
  using concat_replicate_nth [of k n i "runner_round_user us"] round_index [of k n i "length us + 3"]
  by (simp_all add: user_at_def runner_prog_def length_concat sum_list_replicate)

lemma thread_access:
  "k < n \<Longrightarrow> i < length ws + 3 \<Longrightarrow> runner_prog n us ws True ! thread_at ws k i = runner_round_thread ws ! i"
  "k < n \<Longrightarrow> i < length ws + 3 \<Longrightarrow> thread_at ws k i < length (runner_prog n us ws True)"
  using concat_replicate_nth [of k n i "runner_round_thread ws"] round_index [of k n i "length ws + 3"]
  by (simp_all add: thread_at_def runner_prog_def length_concat sum_list_replicate)

lemma round_user_nth:
  "runner_round_user us ! length us = Access Plain Idle_flag"
  "runner_round_user us ! (Suc (length us)) = Access Release Triggered_flag"
  "runner_round_user us ! (Suc (Suc (length us))) = Access Acquire Idle_flag"
  by (simp_all add: runner_round_user_def nth_append plain_data_def)

lemma round_thread_nth:
  "runner_round_thread ws ! 0 = Access Acquire Triggered_flag"
  "runner_round_thread ws ! (Suc 0) = Access Plain Triggered_flag"
  "runner_round_thread ws ! (Suc (Suc (length ws))) = Access Release Idle_flag"
  by (simp_all add: runner_round_thread_def nth_append plain_data_def)

lemma user_at_less: "j < k \<or> j = k \<and> i < i' \<Longrightarrow> i < length us + 3 \<Longrightarrow> user_at us j i < user_at us k i'"
  using round_index [of j k i "length us + 3"] by (auto simp: user_at_def)

lemma thread_at_less: "j < k \<or> j = k \<and> i < i' \<Longrightarrow> i < length ws + 3 \<Longrightarrow> thread_at ws j i < thread_at ws k i'"
  using round_index [of j k i "length ws + 3"] by (auto simp: thread_at_def)

lemma user_kept:
  assumes "weak_runner_run n us ws time" and "j < k \<or> j = k \<and> i < i'" and "k < n" "i < length us + 3" "i' < length us + 3"
    and "\<not> may_overtake (runner_round_user us ! i) (runner_round_user us ! i')"
  shows "time False (user_at us j i) < time False (user_at us k i')"
proof (rule weak_times_kept [of "runner_prog n us ws" time _ _ False])
  show "weak_times (runner_prog n us ws) time" using assms(1) by (simp add: weak_runner_run_def)
  show "user_at us j i < user_at us k i'" using user_at_less [OF assms(2,4)] .
  show "user_at us k i' < length (runner_prog n us ws False)" using user_access(2) [OF assms(3,5)] .
  have "j < n" using assms(2,3) by auto
  with assms show "\<not> may_overtake (runner_prog n us ws False ! user_at us j i) (runner_prog n us ws False ! user_at us k i')"
    by (simp add: user_access(1))
qed

lemma thread_kept:
  assumes "weak_runner_run n us ws time" and "j < k \<or> j = k \<and> i < i'" and "k < n" "i < length ws + 3" "i' < length ws + 3"
    and "\<not> may_overtake (runner_round_thread ws ! i) (runner_round_thread ws ! i')"
  shows "time True (thread_at ws j i) < time True (thread_at ws k i')"
proof (rule weak_times_kept [of "runner_prog n us ws" time _ _ True])
  show "weak_times (runner_prog n us ws) time" using assms(1) by (simp add: weak_runner_run_def)
  show "thread_at ws j i < thread_at ws k i'" using thread_at_less [OF assms(2,4)] .
  show "thread_at ws k i' < length (runner_prog n us ws True)" using thread_access(2) [OF assms(3,5)] .
  have "j < n" using assms(2,3) by auto
  with assms show "\<not> may_overtake (runner_prog n us ws True ! thread_at ws j i) (runner_prog n us ws True ! thread_at ws k i')"
    by (simp add: thread_access(1))
qed

text \<open>The load that ends the thread's wait of round \<open>k\<close> comes after the trigger of round \<open>k\<close>.\<close>

lemma trigger_seen:
  assumes run: "weak_runner_run n us ws time"
  shows "k < n \<Longrightarrow> time False (user_at us k (length us + 1)) < time True (thread_at ws k 0)"
proof (induction k)
  case (Suc k)
  let ?S = "triggered_stores n us ws time" and ?trig = "\<lambda>k. time False (user_at us k (length us + 1))"
    and ?load = "\<lambda>k. time True (thread_at ws k 0)" and ?clear = "\<lambda>k. time True (thread_at ws k 1)"
  obtain v where "v \<noteq> 0" "sees ?S 0 (?load (Suc k)) v" using run Suc.prems by (auto simp: weak_runner_run_def)
  then obtain s where s: "s \<in> ?S" "fst s < ?load (Suc k)" "snd s \<noteq> 0" "\<forall>s'\<in>?S. fst s' < ?load (Suc k) \<longrightarrow> fst s' \<le> fst s"
    by (auto simp: sees_def)
  then obtain j where j: "j < n" "fst s = ?trig j" by (auto simp: triggered_stores_def)
  have "?clear k < ?load (Suc k)"
    using thread_kept [OF run, of k "Suc k" 1 0] Suc.prems by (simp add: round_thread_nth may_overtake_def)
  moreover have "(?clear k, 0) \<in> ?S" using Suc.prems by (auto simp: triggered_stores_def)
  ultimately have "?clear k \<le> ?trig j" using s(4) j(2) by fastforce
  moreover have "?load k < ?clear k"
    using thread_kept [OF run, of k k 0 1] Suc.prems by (simp add: round_thread_nth may_overtake_def)
  ultimately have "?trig k < ?trig j" using Suc.IH Suc.prems by simp
  moreover have "?trig j \<le> ?trig k" if "j \<le> k"
    using user_kept [OF run, of j k "length us + 1" "length us + 1"] that Suc.prems
    by (cases "j = k") (auto simp: round_user_nth may_overtake_def less_imp_le)
  ultimately have "Suc k \<le> j" by (meson not_less not_less_eq_eq)
  then have "?trig (Suc k) \<le> ?trig j"
    using user_kept [OF run, of "Suc k" j "length us + 1" "length us + 1"] j(1)
    by (cases "j = Suc k") (auto simp: round_user_nth may_overtake_def less_imp_le)
  then show ?case using s(2) j(2) by simp
next
  case 0
  let ?S = "triggered_stores n us ws time" and ?trig = "\<lambda>k. time False (user_at us k (length us + 1))"
  obtain v where "v \<noteq> 0" "sees ?S 0 (time True (thread_at ws 0 0)) v" using run 0 by (auto simp: weak_runner_run_def)
  then obtain j where j: "j < n" "?trig j < time True (thread_at ws 0 0)"
    by (auto simp: sees_def triggered_stores_def)
  have "?trig 0 \<le> ?trig j"
    using user_kept [OF run, of 0 j "length us + 1" "length us + 1"] j(1)
    by (cases "j = 0") (auto simp: round_user_nth may_overtake_def less_imp_le)
  then show ?case using j(2) by simp
qed

text \<open>The load that ends the user's wait of round \<open>k\<close> comes after the thread's store of round \<open>k\<close>.\<close>

lemma idle_seen:
  assumes run: "weak_runner_run n us ws time"
  shows "k < n \<Longrightarrow> time True (thread_at ws k (length ws + 2)) < time False (user_at us k (length us + 2))"
proof (induction k rule: less_induct)
  case (less k)
  let ?S = "idle_stores n us ws time" and ?wait = "\<lambda>k. time False (user_at us k (length us + 2))"
    and ?one = "\<lambda>k. time True (thread_at ws k (length ws + 2))" and ?zero = "\<lambda>k. time False (user_at us k (length us))"
  have zero: "?zero k < ?wait k"
    using user_kept [OF run, of k k "length us" "length us + 2"] less.prems by (simp add: round_user_nth may_overtake_def)
  have mem: "(?zero k, 0) \<in> ?S" using less.prems by (auto simp: idle_stores_def)
  obtain v where "v \<noteq> 0" "sees ?S 1 (?wait k) v" using run less.prems by (auto simp: weak_runner_run_def)
  then obtain s where s: "s \<in> ?S" "fst s < ?wait k" "snd s \<noteq> 0" "\<forall>s'\<in>?S. fst s' < ?wait k \<longrightarrow> fst s' \<le> fst s"
    using mem zero by (auto simp: sees_def)
  then obtain j where j: "j < n" "fst s = ?one j" by (auto simp: idle_stores_def)
  have after: "?zero k \<le> ?one j" using s(4) j(2) mem zero by fastforce
  have "k \<le> j"
  proof (rule ccontr)
    assume "\<not> k \<le> j"
    then have jk: "j < k" by simp
    have "?wait j < ?zero k"
      using user_kept [OF run, of j k "length us + 2" "length us"] jk less.prems by (simp add: round_user_nth may_overtake_def)
    with less.IH [OF jk j(1)] after show False by simp
  qed
  then have "?one k \<le> ?one j"
    using thread_kept [OF run, of k j "length ws + 2" "length ws + 2"] j(1)
    by (cases "j = k") (auto simp: round_thread_nth may_overtake_def less_imp_le)
  then show ?case using s(2) j(2) by simp
qed

section \<open>Properties\<close>

text \<open>
  C29. The lock's memory orders are enough on any processor they are meant for: whatever reorderings they
  permit, an access to the guarded object that a process makes between the exchange with
  which it got the lock and the store with which it gives it back takes effect while it
  holds the lock and nobody else does.
\<close>

theorem guarded_access_exclusive:
  assumes "weak_lock_run prog time st" and "section_of p prog a r" and "holds_lock (st (Suc (time p a))) p"
    and "a < k" "k < r"
  shows "at (st (time p k)) p Critical \<and> (\<forall>q. at (st (time p k)) q Critical \<longrightarrow> q = p) \<and>
         time p a < time p k \<and> time p k < time p r"
proof -
  have wt: "weak_times (\<lambda>p. map item_access (prog p)) time" using assms(1) by (simp add: weak_lock_run_def)
  have r: "r < length (prog p)" using assms(2) by (simp add: section_of_def)
  have "time p a < time p k"
    using weak_times_kept [OF wt assms(4), of p] assms(2,5) r by (auto simp: section_of_def may_overtake_def)
  moreover have "time p k < time p r"
    using weak_times_kept [OF wt assms(5), of p] assms(2) r assms(4,5) by (auto simp: section_of_def may_overtake_def)
  moreover from calculation have "holds_lock (st (time p k)) p"
    using section_kept [OF assms(1-3), of "time p k"] by simp
  moreover from this have "q = p" if "holds_lock (st (time p k)) q" for q
    using lk.exclusive [OF weak_lock_run_inv [OF assms(1)]] that by blast
  ultimately show ?thesis by (simp add: at_def)
qed

text \<open>
  Critical sections of different processes do not overlap in time, however the accesses are reordered.
\<close>

theorem sections_disjoint:
  assumes run: "weak_lock_run prog time st"
    and p: "section_of p prog a r" "holds_lock (st (Suc (time p a))) p"
    and q: "section_of q prog b s" "holds_lock (st (Suc (time q b))) q" and "p \<noteq> q"
  shows "time p r < time q b \<or> time q s < time p a"
proof (rule ccontr)
  assume "\<not> ?thesis"
  then have over: "time q b \<le> time p r" "time p a \<le> time q s" by simp_all
  have wt: "weak_times (\<lambda>p. map item_access (prog p)) time" using run by (simp add: weak_lock_run_def)
  have ind: "a < r" "r < length (prog p)" "b < s" "s < length (prog q)" using p q by (simp_all add: section_of_def)
  have "time p a < time p r" "time q b < time q s"
    using uses_in_order [OF wt] p(1) q(1) by (auto simp: section_of_def)
  moreover have "time q b \<noteq> time p r" "time p a \<noteq> time q s"
    using wt ind \<open>p \<noteq> q\<close> unfolding weak_times_def by (metis length_map less_trans)+
  ultimately have t: "max (time p a) (time q b) < time p r" "max (time p a) (time q b) < time q s" using over by simp_all
  let ?t = "Suc (max (time p a) (time q b))"
  have "holds_lock (st ?t) p" using section_kept [OF run p, of ?t] t by simp
  moreover have "holds_lock (st ?t) q" using section_kept [OF run q, of ?t] t by simp
  ultimately show False using lk.exclusive [OF weak_lock_run_inv [OF run]] \<open>p \<noteq> q\<close> by blast
qed

text \<open>
  C35. The memory orders of \<open>SwapRunner\<close> keep its rounds apart on any processor they are meant for: what the
  user writes before \<open>trigger()\<close> takes effect before every access of the task of that round; all of
  the task, and the relaxed clearing of \<open>triggered_\<close>, takes effect before anything the user does after
  \<open>wait()\<close>, in particular before the next trigger, which is therefore not lost; and the relaxed
  \<open>idle_ = 0\<close> of \<open>trigger()\<close> before the thread's \<open>idle_ = 1\<close>, so that no wait returns early.
\<close>

theorem runner_rounds_ordered:
  assumes run: "weak_runner_run n us ws time" and k: "k < n"
  shows "(\<forall>i < length us. \<forall>j < length ws. time False (user_at us k i) < time True (thread_at ws k (j + 2))) \<and>
         (\<forall>j < length ws + 3. \<forall>k' < n. \<forall>i < length us + 3. k < k' \<longrightarrow>
            time True (thread_at ws k j) < time False (user_at us k' i)) \<and>
         time False (user_at us k (length us)) < time True (thread_at ws k (length ws + 2))"
proof (intro conjI allI impI)
  note seen = trigger_seen [OF run k] idle_seen [OF run k]
  have user: "time False (user_at us k i) < time False (user_at us k (length us + 1))" if "i < length us + 1" for i
    using user_kept [OF run, of k k i "length us + 1"] that k by (simp add: round_user_nth may_overtake_def)
  have thread: "time True (thread_at ws k 0) < time True (thread_at ws k j)" if "0 < j" "j < length ws + 3" for j
    using thread_kept [OF run, of k k 0 j] that k by (simp add: round_thread_nth may_overtake_def)
  show "time False (user_at us k i) < time True (thread_at ws k (j + 2))" if "i < length us" "j < length ws" for i j
    using user [of i] thread [of "j + 2"] seen(1) that by simp
  show "time False (user_at us k (length us)) < time True (thread_at ws k (length ws + 2))"
    using user [of "length us"] thread [of "length ws + 2"] seen(1) by simp
  show "time True (thread_at ws k j) < time False (user_at us k' i)"
    if "j < length ws + 3" "k' < n" "i < length us + 3" "k < k'" for j k' i
  proof -
    have "time True (thread_at ws k j) \<le> time True (thread_at ws k (length ws + 2))"
      using thread_kept [OF run, of k k j "length ws + 2"] that(1) k
      by (cases "j = length ws + 2") (auto simp: round_thread_nth may_overtake_def less_imp_le)
    moreover have "time False (user_at us k (length us + 2)) < time False (user_at us k' i)"
      using user_kept [OF run, of k k' "length us + 2" i] that by (simp add: round_user_nth may_overtake_def)
    ultimately show ?thesis using seen(2) by simp
  qed
qed

section \<open>Instances\<close>

text \<open>Two processes with one section each; process 0 goes first. The other processes do nothing.\<close>

definition two_sections :: "nat \<Rightarrow> nat item list" where
  "two_sections p =
     (if p < 2 then [Use (CallLock p), Use (Fast p), Touch 7, Use (CallUnlock p), Use (WakeNone p)] else [])"

definition two_times :: "nat \<Rightarrow> nat \<Rightarrow> nat" where
  "two_times p i = 5 * p + i"

definition two_pc :: "nat \<Rightarrow> nat \<Rightarrow> lock_pc" where
  "two_pc t p =
     (if 2 \<le> p then Outside else if t = 5 * p + 1 then FastExch else if t = 5 * p + 2 \<or> t = 5 * p + 3 then Critical
      else if t = 5 * p + 4 then AboutToWake else Outside)"

definition two_states :: "nat \<Rightarrow> nat lock_state" where
  "two_states t = \<lparr>lock_word = (if t \<in> {2, 3, 7, 8} then 1 else 0), futex_queue = [], lock_pc = two_pc t\<rparr>"

lemma two_sections_items: "i < length (two_sections p) \<longleftrightarrow> p < 2 \<and> i < 5"
  by (auto simp: two_sections_def)

lemma less_5: "i < 5 \<longleftrightarrow> i = 0 \<or> i = 1 \<or> i = 2 \<or> i = 3 \<or> i = (4::nat)"
  by auto

lemma two_sections_run: "weak_lock_run two_sections two_times two_states"
proof -
  have "weak_times (\<lambda>p. map item_access (two_sections p)) two_times"
    unfolding weak_times_def by (simp add: two_sections_items two_times_def, presburger)
  moreover have "lock_event_by e = p" if "i < length (two_sections p)" "two_sections p ! i = Use e" for p i e
    using that by (auto simp: two_sections_items less_5) (auto simp: two_sections_def)
  moreover have "two_states 0 = lock_init" by (auto simp: two_states_def lock_init_def two_pc_def)
  moreover have "(\<exists>p i e. i < length (two_sections p) \<and> two_times p i = t \<and> two_sections p ! i = Use e \<and>
         ShmLock_exec e (two_states t) = Some (two_states (Suc t))) \<or>
       (\<forall>p i e. i < length (two_sections p) \<longrightarrow> two_times p i = t \<longrightarrow> two_sections p ! i \<noteq> Use e) \<and>
         two_states (Suc t) = two_states t" for t
  proof -
    consider (use) p i e where "p < 2" "i < 5" "t = 5 * p + i" "two_sections p ! i = Use e"
      | (touch) p where "p < 2" "t = 5 * p + 2" | (rest) "10 \<le> t"
    proof -
      have "t < 10 \<Longrightarrow> t div 5 < 2 \<and> t mod 5 < 5 \<and> t = 5 * (t div 5) + t mod 5" by simp
      moreover have "two_sections p ! i = Use e \<or> i = 2" if "p < 2" "i < 5"
          "e = [CallLock p, Fast p, Fast p, CallUnlock p, WakeNone p] ! i" for p i e
        using that by (auto simp: less_5 two_sections_def)
      ultimately show ?thesis using that by (metis not_le)
    qed
    then show ?thesis
    proof cases
      case use
      then have "ShmLock_exec e (two_states t) = Some (two_states (Suc t))"
        by (auto simp: less_5 two_sections_def two_states_def two_pc_def lock_defs fun_eq_iff less_2_cases_iff)
      with use show ?thesis
        by (intro disjI1 exI [of _ p] exI [of _ i] exI [of _ e]) (simp add: two_sections_items two_times_def)
    next
      case touch
      have "two_sections q ! i \<noteq> Use e" if "i < length (two_sections q)" "two_times q i = t" for q i e
      proof -
        have "i < 5" "5 * q + i = 5 * p + 2" using that touch by (simp_all add: two_sections_items two_times_def)
        then have "q = p" "i = 2" by presburger+
        with touch show ?thesis by (simp add: two_sections_def)
      qed
      moreover have "two_states (Suc t) = two_states t"
        using touch by (auto simp: two_states_def two_pc_def fun_eq_iff less_2_cases_iff)
      ultimately show ?thesis by blast
    next
      case rest
      then show ?thesis by (auto simp: two_sections_items two_times_def two_states_def two_pc_def fun_eq_iff)
    qed
  qed
  ultimately show ?thesis by (simp add: weak_lock_run_def)
qed

lemma two_sections_held:
  "p < 2 \<Longrightarrow> section_of p two_sections 1 3" "p < 2 \<Longrightarrow> holds_lock (two_states (Suc (two_times p 1))) p"
proof -
  assume p: "p < 2"
  have "k = 2" if "1 < k" "k < 3" for k :: nat using that by simp
  with p show "section_of p two_sections 1 3" by (auto simp: section_of_def two_sections_def less_Suc_eq)
  show "holds_lock (two_states (Suc (two_times p 1))) p" using p by (simp add: two_states_def two_times_def two_pc_def)
qed

text \<open>Process 1 touches the object at instant 7 and holds the lock then.\<close>

theorem guarded_access_exclusive_witness:
  "at (two_states 7) 1 Critical \<and> \<not> at (two_states 7) 0 Critical \<and> two_times 1 1 < 7 \<and> 7 < two_times 1 3"
  using guarded_access_exclusive [OF two_sections_run two_sections_held(1) two_sections_held(2), of 1 2]
  by (auto simp: two_times_def)

text \<open>The section of process 0 ends at instant 3, that of process 1 begins at 6.\<close>

theorem sections_disjoint_witness: "two_times 0 3 < two_times 1 1 \<or> two_times 1 3 < two_times 0 1"
  by (rule sections_disjoint [OF two_sections_run two_sections_held two_sections_held]) simp_all

text \<open>Two rounds of a runner whose task reads one byte and writes it. In the first round the
  clearing of \<open>triggered_\<close> is overtaken by the task.\<close>

definition two_rounds :: "bool \<Rightarrow> nat \<Rightarrow> nat" where
  "two_rounds p i = (if p then [3, 6, 4, 5, 7, 12, 13, 14, 15, 16] ! i else [1, 0, 2, 8, 9, 10, 11, 17] ! i)"

lemma upt_10: "[0..<10] = [0, 1, 2, 3, 4, 5, 6, 7, 8, 9::nat]" "[0..<8] = [0, 1, 2, 3, 4, 5, 6, 7::nat]"
  by (simp_all add: upt_rec)

lemma two_rounds_progs:
  "runner_prog 2 [0::nat] [0, 1] True =
     [Access Acquire Triggered_flag, Access Plain Triggered_flag, Access Plain (Data 0), Access Plain (Data 1), Access Release Idle_flag,
      Access Acquire Triggered_flag, Access Plain Triggered_flag, Access Plain (Data 0), Access Plain (Data 1), Access Release Idle_flag]"
  "runner_prog 2 [0::nat] [0, 1] False =
     [Access Plain (Data 0), Access Plain Idle_flag, Access Release Triggered_flag, Access Acquire Idle_flag,
      Access Plain (Data 0), Access Plain Idle_flag, Access Release Triggered_flag, Access Acquire Idle_flag]"
  by (simp_all add: runner_prog_def runner_round_user_def runner_round_thread_def plain_data_def numeral_2_eq_2)

lemma two_rounds_times: "weak_times (runner_prog 2 [0::nat] [0, 1]) two_rounds"
proof -
  let ?P = "runner_prog 2 [0::nat] [0, 1]"
  let ?keep = "\<lambda>p i j. two_rounds p j < two_rounds p i \<longrightarrow> may_overtake (?P p ! i) (?P p ! j)"
  have "sorted_wrt (?keep True) [0..<10]" "sorted_wrt (?keep False) [0..<8]"
    unfolding two_rounds_progs upt_10 by (simp_all add: two_rounds_def may_overtake_def)
  then have keep: "?keep p i j" if "i < j" "j < length (?P p)" for p i j
    using that by (cases p) (auto simp: sorted_wrt_iff_nth_less)
  have "distinct (map (two_rounds True) [0..<10])" "distinct (map (two_rounds False) [0..<8])"
    "set (map (two_rounds True) [0..<10]) \<inter> set (map (two_rounds False) [0..<8]) = {}"
    unfolding upt_10 by (simp_all add: two_rounds_def)
  then have inj: "inj_on (two_rounds True) {0..<10}" "inj_on (two_rounds False) {0..<8}"
    and cross: "two_rounds True ` {0..<10} \<inter> two_rounds False ` {0..<8} = {}"
    by (simp_all only: distinct_map set_map set_upt)
  have "p = q \<and> i = j" if "i < length (?P p)" "j < length (?P q)" "two_rounds p i = two_rounds q j" for p q i j
  proof (cases p; cases q)
    assume "p" "q"
    with that inj(1) show ?thesis by (simp add: inj_on_def)
  next
    assume "\<not> p" "\<not> q"
    with that inj(2) show ?thesis by (simp add: inj_on_def)
  next
    assume "p" "\<not> q"
    with that have "i \<in> {0..<10}" "j \<in> {0..<8}" "two_rounds True i = two_rounds False j" by simp_all
    with cross show ?thesis by blast
  next
    assume "\<not> p" "q"
    with that have "i \<in> {0..<8}" "j \<in> {0..<10}" "two_rounds True j = two_rounds False i" by simp_all
    with cross show ?thesis by blast
  qed
  with keep show ?thesis unfolding weak_times_def by blast
qed

lemma two_rounds_run: "weak_runner_run 2 [0::nat] [0, 1] two_rounds"
proof -
  have r: "{..<2} = {0, 1::nat}" by auto
  have "triggered_stores 2 [0::nat] [0, 1] two_rounds = {(2, 1), (11, 1), (6, 0), (13, 0)}"
    unfolding triggered_stores_def r by (auto simp: two_rounds_def user_at_def thread_at_def)
  moreover have "idle_stores 2 [0::nat] [0, 1] two_rounds = {(0, 0), (10, 0), (7, 1), (16, 1)}"
    unfolding idle_stores_def r by (auto simp: two_rounds_def user_at_def thread_at_def)
  moreover have "sees {(2, 1), (11, 1), (6, 0), (13, 0)} 0 3 1" "sees {(2, 1), (11, 1), (6, 0), (13, 0)} 0 12 1"
    "sees {(0, 0), (10, 0), (7, 1), (16, 1)} 1 8 1" "sees {(0, 0), (10, 0), (7, 1), (16, 1)} 1 17 1"
    by (simp_all add: sees_def)
  moreover have "two_rounds True (thread_at [0::nat, 1] 0 0) = 3" "two_rounds True (thread_at [0::nat, 1] 1 0) = 12"
    "two_rounds False (user_at [0::nat] 0 3) = 8" "two_rounds False (user_at [0::nat] 1 3) = 17"
    by (simp_all add: two_rounds_def user_at_def thread_at_def)
  moreover have "(\<forall>k<2. Q k) \<longleftrightarrow> Q 0 \<and> Q 1" for Q :: "nat \<Rightarrow> bool" by (auto simp: less_2_cases_iff)
  ultimately have "\<forall>k<2. sees (triggered_stores 2 [0::nat] [0, 1] two_rounds) 0 (two_rounds True (thread_at [0::nat, 1] k 0)) 1"
    "\<forall>k<2. sees (idle_stores 2 [0::nat] [0, 1] two_rounds) 1 (two_rounds False (user_at [0::nat] k 3)) 1"
    by simp_all
  moreover have "length [0::nat] + 2 = 3" by simp
  ultimately show ?thesis using two_rounds_times unfolding weak_runner_run_def by (metis zero_neq_one)
qed

theorem runner_rounds_ordered_witness: "two_rounds False 0 < two_rounds True 3 \<and> two_rounds True 1 < two_rounds False 6"
proof -
  note rounds = runner_rounds_ordered [OF two_rounds_run, of 0]
  have "two_rounds False (user_at [0::nat] 0 0) < two_rounds True (thread_at [0::nat, 1] 0 (1 + 2))" using rounds by simp
  moreover have "two_rounds True (thread_at [0::nat, 1] 0 1) < two_rounds False (user_at [0::nat] 1 2)" using rounds by simp
  ultimately show ?thesis by (simp add: user_at_def thread_at_def eval_nat_numeral)
qed

end
