(* ===== verification/Float_Bits.thy ===== *)
theory Float_Bits
  imports Double
begin

text \<open>
  The bytes of \<open>float\<close> and \<open>double\<close> members (IEEE 754 binary32 and binary64) for the finite numbers the
  programs under \<^verbatim>\<open>src/examples\<close> and \<^verbatim>\<open>src/bench\<close> store: sign, biased exponent and fraction, from the most
  significant bit down. \<open>w\<close> is the width of the exponent field and \<open>prec\<close> the precision. Shown: a number is
  recovered from its bits, and every result of rounding has bits.
\<close>

section \<open>Bits\<close>

definition ieee_bias :: "nat \<Rightarrow> int" where
  "ieee_bias w = 2 ^ (w - 1) - 1"

definition ieee_bits :: "nat \<Rightarrow> nat \<Rightarrow> rat \<Rightarrow> nat" where
  "ieee_bits prec w x =
     (if x = 0 then 0
      else let e = ilog2 \<bar>x\<bar>;
               frac = nat (\<lfloor>\<bar>x\<bar> / 2 powi (e - (int prec - 1))\<rfloor> - 2 ^ (prec - 1))
           in (if x < 0 then 2 ^ (prec - 1 + w) else 0) + (nat (e + ieee_bias w) * 2 ^ (prec - 1) + frac))"

definition ieee_value :: "nat \<Rightarrow> nat \<Rightarrow> nat \<Rightarrow> rat" where
  "ieee_value prec w n =
     (let sign = (if odd (n div 2 ^ (prec - 1 + w)) then - 1 else 1);
          e = n div 2 ^ (prec - 1) mod 2 ^ w;
          frac = n mod 2 ^ (prec - 1)
      in if e = 0 then sign * (of_nat frac * 2 powi (1 - ieee_bias w - (int prec - 1)))
         else sign * (of_nat (2 ^ (prec - 1) + frac) * 2 powi (int e - ieee_bias w - (int prec - 1))))"

definition double_bits :: "rat \<Rightarrow> u64" where
  "double_bits x = of_nat (ieee_bits 53 11 x)"

definition double_value :: "u64 \<Rightarrow> rat" where
  "double_value v = ieee_value 53 11 (unat v)"

definition float_bits :: "rat \<Rightarrow> u32" where
  "float_bits x = of_nat (ieee_bits 24 8 x)"

definition float_value :: "u32 \<Rightarrow> rat" where
  "float_value v = ieee_value 24 8 (unat v)"

section \<open>Numbers that have bits\<close>

definition representable :: "nat \<Rightarrow> nat \<Rightarrow> rat \<Rightarrow> bool" where
  "representable prec w x \<longleftrightarrow>
     x = 0 \<or> (\<exists>e k. \<bar>x\<bar> = of_nat k * 2 powi (e - (int prec - 1)) \<and> 2 ^ (prec - 1) \<le> k \<and> k < 2 ^ prec \<and>
                  - ieee_bias w < e \<and> e \<le> ieee_bias w)"

lemma fields_of_sum:
  assumes "m < M" and "e < E"
  shows "(s * (M * E) + (e * M + m)) mod M = m"
    and "(s * (M * E) + (e * M + m)) div M mod E = (e::nat)"
    and "(s * (M * E) + (e * M + m)) div (M * E) = s"
proof -
  have M: "0 < M" and E: "0 < E" using assms by simp_all
  have eq: "s * (M * E) + (e * M + m) = (s * E + e) * M + m" by (simp add: algebra_simps)
  show "(s * (M * E) + (e * M + m)) mod M = m" unfolding eq using assms(1) by simp
  have "(s * (M * E) + (e * M + m)) div M = s * E + e" unfolding eq using assms(1) M by simp
  then show "(s * (M * E) + (e * M + m)) div M mod E = e" "(s * (M * E) + (e * M + m)) div (M * E) = s"
    using assms(2) E by (simp_all add: div_mult2_eq)
qed

lemma representable_ilog2:
  assumes "x = of_nat k * 2 powi (e - (int prec - 1))" and "2 ^ (prec - 1) \<le> k" "k < 2 ^ prec" and "0 < prec"
  shows "ilog2 x = e"
proof (rule ilog2_eqI)
  let ?u = "2 powi (e - (int prec - 1)) :: rat"
  have "2 powi e = (2 powi (int (prec - 1)) * ?u :: rat)" using assms(4) by (simp flip: power_int_add add: of_nat_diff)
  also have "\<dots> = of_nat (2 ^ (prec - 1)) * ?u" by simp
  also have "\<dots> \<le> x" unfolding assms(1) using assms(2) by (intro mult_right_mono) (simp_all only: of_nat_le_iff, simp)
  finally show "2 powi e \<le> x" .
  have "x < of_nat (2 ^ prec) * ?u"
    unfolding assms(1) using assms(3) by (intro mult_strict_right_mono) (simp_all only: of_nat_less_iff, simp)
  also have "\<dots> = 2 powi (int prec) * ?u" by simp
  also have "\<dots> = 2 powi (int prec + (e - (int prec - 1)))" by (subst power_int_add) simp_all
  also have "\<dots> = 2 powi (e + 1)" by simp
  finally show "x < 2 powi (e + 1)" .
qed

lemma ieee_value_bits:
  assumes "representable prec w x" and "0 < prec" "1 < w"
  shows "ieee_value prec w (ieee_bits prec w x) = x" and "ieee_bits prec w x < 2 ^ (prec + w)"
proof -
  have "ieee_value prec w (ieee_bits prec w x) = x \<and> ieee_bits prec w x < 2 ^ (prec + w)"
  proof (cases "x = 0")
    case True
    then show ?thesis by (simp add: ieee_bits_def ieee_value_def)
  next
    case False
    then obtain e k where x: "\<bar>x\<bar> = of_nat k * 2 powi (e - (int prec - 1))" and k: "2 ^ (prec - 1) \<le> k" "k < 2 ^ prec"
      and e: "- ieee_bias w < e" "e \<le> ieee_bias w" using assms(1) by (auto simp: representable_def)
    have log: "ilog2 \<bar>x\<bar> = e" by (rule representable_ilog2 [OF x k assms(2)])
    define s f E where "s = (if x < 0 then 1 else 0 :: nat)" and "f = k - 2 ^ (prec - 1)" and "E = nat (e + ieee_bias w)"
    have "(2::nat) ^ prec = 2 * 2 ^ (prec - 1)" using assms(2) by (simp flip: power_Suc)
    then have f: "f < 2 ^ (prec - 1)" using k by (simp add: f_def)
    have "(2::int) ^ w = 2 * 2 ^ (w - 1)" using assms(3) by (simp flip: power_Suc)
    then have E: "E < 2 ^ w" "E \<noteq> 0" "int E = e + ieee_bias w" using e by (auto simp: E_def ieee_bias_def nat_less_iff)
    have "\<lfloor>\<bar>x\<bar> / 2 powi (e - (int prec - 1))\<rfloor> = int k" unfolding x by simp
    moreover have frac: "nat (int k - 2 ^ (prec - 1)) = k - 2 ^ (prec - 1)"
      using k(1) by (metis nat_int_comparison(3) nat_minus_as_int of_nat_numeral of_nat_power)
    ultimately have bits: "ieee_bits prec w x = s * (2 ^ (prec - 1) * 2 ^ w) + (E * 2 ^ (prec - 1) + f)"
      using False by (simp add: ieee_bits_def Let_def log s_def f_def E_def power_add frac)
    note fields = fields_of_sum [OF f E(1), of s]
    have "ieee_value prec w (ieee_bits prec w x) = (if odd s then - 1 else 1) * (of_nat (2 ^ (prec - 1) + f) * 2 powi (e - (int prec - 1)))"
      unfolding ieee_value_def Let_def bits power_add fields using E by simp
    also have "\<dots> = (if odd s then - 1 else 1) * \<bar>x\<bar>" using k by (simp add: x f_def)
    also have "\<dots> = x" by (simp add: s_def)
    finally have "ieee_value prec w (ieee_bits prec w x) = x" .
    moreover have "ieee_bits prec w x < 2 ^ (prec + w)"
    proof -
      have "E * 2 ^ (prec - 1) + f < Suc E * 2 ^ (prec - 1)" using f by simp
      also have "\<dots> \<le> 2 ^ w * 2 ^ (prec - 1)" using E(1) by (intro mult_right_mono) simp_all
      finally have "ieee_bits prec w x < s * (2 ^ (prec - 1) * 2 ^ w) + 2 ^ (prec - 1) * 2 ^ w" unfolding bits by (simp add: mult.commute)
      also have "\<dots> \<le> 2 * (2 ^ (prec - 1) * 2 ^ w)" by (simp add: s_def)
      also have "\<dots> = 2 ^ (prec + w)" using assms(2) by (simp flip: power_Suc power_add)
      finally show ?thesis .
    qed
    ultimately show ?thesis ..
  qed
  then show "ieee_value prec w (ieee_bits prec w x) = x" "ieee_bits prec w x < 2 ^ (prec + w)" by simp_all
qed

lemma double_value_bits [simp]: "representable 53 11 x \<Longrightarrow> double_value (double_bits x) = x"
  using ieee_value_bits [of 53 11 x] by (simp add: double_value_def double_bits_def unat_of_nat)

lemma float_value_bits [simp]: "representable 24 8 x \<Longrightarrow> float_value (float_bits x) = x"
  using ieee_value_bits [of 24 8 x] by (simp add: float_value_def float_bits_def unat_of_nat)

section \<open>Results of rounding\<close>

lemma representable_0 [simp]: "representable prec w 0"
  by (simp add: representable_def)

lemma representable_uminus [simp]: "representable prec w (- x) = representable prec w x"
  by (simp add: representable_def)

lemma representable_round:
  assumes "0 < x" and "0 < prec" and "- ieee_bias w < ilog2 x" "ilog2 x < ieee_bias w"
  shows "representable prec w (round_binary prec x)"
proof -
  define ulp :: rat where "ulp = 2 powi (ilog2 x - (int prec - 1))"
  define k where "k = round_half_even (x / ulp)"
  have ulp: "0 < ulp" by (simp add: ulp_def)
  have r: "round_binary prec x = of_int k * ulp" using assms(1) by (simp add: round_binary_def Let_def ulp_def k_def)
  have split: "2 powi ilog2 x = of_int (2 ^ (prec - 1)) * ulp" "2 powi (ilog2 x + 1) = of_int (2 ^ prec) * ulp"
  proof -
    have "of_int (2 ^ (prec - 1)) * ulp = (2 powi int (prec - 1) * ulp :: rat)" by simp
    also have "\<dots> = 2 powi ilog2 x" unfolding ulp_def using assms(2) by (simp flip: power_int_add add: of_nat_diff)
    finally show "2 powi ilog2 x = of_int (2 ^ (prec - 1)) * ulp" by simp
    have "of_int (2 ^ prec) * ulp = (2 powi int prec * ulp :: rat)" by simp
    also have "\<dots> = 2 powi (int prec + (ilog2 x - (int prec - 1)))" unfolding ulp_def by (subst power_int_add) simp_all
    also have "\<dots> = 2 powi (ilog2 x + 1)" by simp
    finally show "2 powi (ilog2 x + 1) = of_int (2 ^ prec) * ulp" by simp
  qed
  have "of_int (2 ^ (prec - 1)) \<le> x / ulp" "x / ulp \<le> of_int (2 ^ prec)"
    using ilog2_bounds [OF assms(1)] ulp unfolding split
    by (simp_all only: pos_le_divide_eq pos_divide_le_eq, (rule less_imp_le)?)
  then have k: "2 ^ (prec - 1) \<le> k" "k \<le> 2 ^ prec"
    unfolding k_def using round_half_even_mono [of "of_int (2 ^ (prec - 1))" "x / ulp"]
      round_half_even_mono [of "x / ulp" "of_int (2 ^ prec)"] by (simp_all only: round_half_even_of_int)
  have k0: "0 \<le> k" by (rule order_trans [OF _ k(1)]) simp
  have nat: "of_int k = (of_nat (nat k) :: rat)" "2 ^ (prec - 1) \<le> nat k" "nat k \<le> 2 ^ prec"
    using k k0 by (simp_all add: le_nat_iff nat_le_iff)
  have abs: "\<bar>round_binary prec x\<bar> = of_nat (nat k) * ulp" unfolding r nat(1) using ulp by (simp add: abs_mult)
  show ?thesis
  proof (cases "nat k = 2 ^ prec")
    case True
    have "\<bar>round_binary prec x\<bar> = of_nat (2 ^ (prec - 1)) * 2 powi (ilog2 x + 1 - (int prec - 1))"
    proof -
      have "(2::nat) ^ prec = 2 * 2 ^ (prec - 1)" using assms(2) by (simp flip: power_Suc)
      moreover have "2 powi (ilog2 x + 1 - (int prec - 1)) = 2 * ulp"
        using powi2_Suc [of "ilog2 x - (int prec - 1)"] by (simp add: ulp_def algebra_simps)
      ultimately show ?thesis unfolding abs True by simp
    qed
    moreover have "(2::nat) ^ (prec - 1) < 2 ^ prec" using assms(2) by simp
    ultimately show ?thesis unfolding representable_def using assms(3,4)
      by (intro disjI2 exI [of _ "ilog2 x + 1"] exI [of _ "2 ^ (prec - 1)"]) simp
  next
    case False
    then have "nat k < 2 ^ prec" using nat(3) by simp
    then show ?thesis unfolding representable_def
      by (intro disjI2 exI [of _ "ilog2 x"] exI [of _ "nat k"] conjI abs [unfolded ulp_def] nat(2) assms(3) less_imp_le [OF assms(4)])
  qed
qed

lemma round_binary_near:
  assumes "0 < x" and "0 < prec"
  shows "x / 2 \<le> round_binary prec x" and "round_binary prec x \<le> 2 * x"
proof -
  define ulp :: rat where "ulp = 2 powi (ilog2 x - (int prec - 1))"
  have ulp: "0 < ulp" by (simp add: ulp_def)
  have r: "round_binary prec x = of_int (round_half_even (x / ulp)) * ulp"
    using assms(1) by (simp add: round_binary_def Let_def ulp_def)
  have bin: "2 powi ilog2 x = of_int (2 ^ (prec - 1)) * ulp"
  proof -
    have "of_int (2 ^ (prec - 1)) * ulp = (2 powi int (prec - 1) * ulp :: rat)" by simp
    also have "\<dots> = 2 powi ilog2 x" unfolding ulp_def using assms(2) by (simp flip: power_int_add add: of_nat_diff)
    finally show ?thesis by simp
  qed
  note b = ilog2_bounds [OF assms(1)] and half = round_half_even_bounds [of "x / ulp"]
  have "of_int (2 ^ (prec - 1)) \<le> x / ulp" using b(1) ulp unfolding bin by (simp only: pos_le_divide_eq)
  then have "2 ^ (prec - 1) \<le> round_half_even (x / ulp)"
    using round_half_even_mono [of "of_int (2 ^ (prec - 1))" "x / ulp"] by (simp only: round_half_even_of_int)
  then have "2 powi ilog2 x \<le> round_binary prec x"
    unfolding r bin using ulp by (intro mult_right_mono) (simp_all only: of_int_le_iff less_imp_le)
  then show "x / 2 \<le> round_binary prec x" using b(2) by (simp add: powi2_Suc)
  have "of_int (round_half_even (x / ulp)) \<le> x / ulp + 1"
    using half(2) of_int_floor_le [of "x / ulp"] by (metis add_mono_thms_linordered_semiring(3) of_int_1 of_int_add of_int_le_iff order_trans)
  then have "round_binary prec x \<le> (x / ulp + 1) * ulp" unfolding r using ulp by (intro mult_right_mono) simp_all
  also have "\<dots> = x + ulp" using ulp by (simp add: distrib_right)
  also have "ulp \<le> 2 powi ilog2 x" unfolding ulp_def using assms(2) by (intro powi2_le) simp
  finally show "round_binary prec x \<le> 2 * x" using b(1) by simp
qed

lemma round_double_le: "0 \<le> x \<Longrightarrow> round_double x \<le> 2 * x"
  using round_binary_near(2) [of x 53] by (cases "x = 0") (auto simp: round_double_def round_binary_def)

lemma round_float_0 [simp]: "round_float 0 = 0"
  by (simp add: round_float_def round_binary_def)

lemma round_float_near: "0 < x \<Longrightarrow> x / 2 \<le> round_float x \<and> round_float x \<le> 2 * x"
  using round_binary_near [of x 24] by (simp add: round_float_def)

lemma representable_in_range:
  assumes "2 powi (- int k) \<le> x" and "x < 2 ^ k" and "0 < prec" and "int k < ieee_bias w"
  shows "representable prec w (round_binary prec x)"
proof (rule representable_round)
  show pos: "0 < x" by (rule less_le_trans [OF _ assms(1)]) simp
  note b = ilog2_bounds [OF pos]
  show "- ieee_bias w < ilog2 x"
  proof (rule ccontr)
    assume "\<not> - ieee_bias w < ilog2 x"
    then have "(2 :: rat) powi (ilog2 x + 1) \<le> 2 powi (- int k)" using assms(4) by (intro powi2_le) simp
    with b(2) assms(1) show False by linarith
  qed
  show "ilog2 x < ieee_bias w"
  proof (rule ccontr)
    assume "\<not> ilog2 x < ieee_bias w"
    then have "(2 :: rat) powi int k \<le> 2 powi ilog2 x" using assms(4) by (intro powi2_le) simp
    with b(1) assms(2) show False by simp
  qed
qed (rule assms(3))

section \<open>Arithmetic\<close>

text \<open>Sum and product of two numbers of the type round the exact result; an integer is converted in the same way.\<close>

definition double_add :: "rat \<Rightarrow> rat \<Rightarrow> rat" where
  "double_add x y = round_double (x + y)"

definition double_mul :: "rat \<Rightarrow> rat \<Rightarrow> rat" where
  "double_mul x y = round_double (x * y)"

definition int_to_double :: "int \<Rightarrow> rat" where
  "int_to_double i = round_double (of_int i)"

definition float_mul :: "rat \<Rightarrow> rat \<Rightarrow> rat" where
  "float_mul x y = round_float (x * y)"

definition u64_to_float :: "u64 \<Rightarrow> rat" where
  "u64_to_float w = round_float (of_nat (unat w))"

lemma representable_round_double: "1 \<le> x \<Longrightarrow> x < 2 ^ 64 \<Longrightarrow> representable 53 11 (round_double x)"
  unfolding round_double_def by (rule representable_in_range [of 64]) (simp_all add: ieee_bias_def power_int_minus)

lemma representable_round_float: "1 / 2 ^ 20 \<le> x \<Longrightarrow> x < 2 ^ 20 \<Longrightarrow> representable 24 8 (round_float x)"
proof -
  assume "1 / 2 ^ 20 \<le> x" "x < 2 ^ 20"
  moreover have "(2 :: rat) powi (- int 20) = 1 / 2 ^ 20" by (simp add: power_int_minus inverse_eq_divide)
  moreover have "int 20 < ieee_bias 8" by (simp add: ieee_bias_def)
  ultimately show ?thesis unfolding round_float_def using representable_in_range [of 20 x 24 8] by simp
qed

lemma double_nonneg: "0 \<le> x \<Longrightarrow> 0 \<le> round_double x"
  using round_double_pos [of x] by (cases "x = 0") auto

lemma double_value_0 [simp]: "double_value 0 = 0" "float_value 0 = 0"
  by (simp_all add: double_value_def float_value_def ieee_value_def)

end
