(* ===== verification/Seqlock_Example.thy ===== *)
theory Seqlock_Example
  imports Seqlock Float_Bits
begin

text \<open>
  \<^verbatim>\<open>examples/seqlock_example.cpp\<close>: a writer that publishes 100 sensor records through a \<open>SeqlockWriter\<close>, and a
  reader that 50 times loads the record and then waits up to half a second for a new one. The two
  run as separate processes in any interleaving. The model returns what the reader prints, as the
  values that are formatted.
\<close>

section \<open>Command line\<close>

datatype program_mode = Usage | Writer | Reader | Other

text \<open>\<open>argv\<close> with the program name first; \<open>main\<close> returns 1 after printing the usage and 0 otherwise.\<close>

definition example_mode :: "string list \<Rightarrow> program_mode" where
  "example_mode argv =
     (if length argv < 2 then Usage
      else if argv ! 1 = ''writer'' then Writer
      else if argv ! 1 = ''reader'' then Reader else Other)"

definition example_exit :: "string list \<Rightarrow> int" where
  "example_exit argv = (if example_mode argv = Usage then 1 else 0)"

section \<open>Records\<close>

record SensorData =
  temperature :: rat
  pressure :: rat
  humidity :: rat
  timestamp_ms :: u64

definition SensorData_type :: ctype where
  "SensorData_type = flat 32 8"

definition encode_SensorData :: "SensorData \<Rightarrow> byte list" where
  "encode_SensorData d =
     le_bytes 8 (double_bits (temperature d)) @ le_bytes 8 (double_bits (pressure d))
     @ le_bytes 8 (double_bits (humidity d)) @ le_bytes 8 (timestamp_ms d)"

definition decode_SensorData :: "byte list \<Rightarrow> SensorData" where
  "decode_SensorData bs =
     \<lparr>temperature = double_value (le_word (take 8 bs)), pressure = double_value (le_word (take 8 (drop 8 bs))),
      humidity = double_value (le_word (take 8 (drop 16 bs))), timestamp_ms = le_word (take 8 (drop 24 bs))\<rparr>"

text \<open>The record of iteration \<open>i\<close>; the literals 0.1 and 1013.25 are rounded to \<open>double\<close>.\<close>

definition sensor_data :: "nat \<Rightarrow> SensorData" where
  "sensor_data i =
     \<lparr>temperature = double_add 20 (double_mul (int_to_double (int i)) (round_double (1 / 10))),
      pressure = round_double (101325 / 100),
      humidity = double_add 45 (int_to_double (int i mod 10)),
      timestamp_ms = of_nat i * 100\<rparr>"

section \<open>Writer\<close>

definition sensor_stores :: "byte list list" where
  "sensor_stores = map (\<lambda>i. encode_SensorData (sensor_data i)) [0..<100]"

definition sensor_run :: "mem \<Rightarrow> seqlock_run" where
  "sensor_run m = \<lparr>sl_type = SensorData_type, sl_mem0 = m, sl_stores = sensor_stores\<rparr>"

section \<open>Reader\<close>

text \<open>One iteration prints the record loaded, and either the record of the blocking read or that it timed
  out. \<open>last_seq\<close> is passed by reference. \<open>None\<close> is a loop that never ends.\<close>

fun sensor_reader_loop :: "futex \<Rightarrow> (nat \<Rightarrow> mem) \<Rightarrow> nat \<Rightarrow> u32 \<Rightarrow> nat \<Rightarrow> (SensorData \<times> SensorData option) list option" where
  "sensor_reader_loop futex view 0 last_seq c = Some []"
| "sensor_reader_loop futex view (Suc n) last_seq c =
     (case SeqlockReader_load SensorData_type view c of
        None \<Rightarrow> None
      | Some (data, c1) \<Rightarrow>
          (case SeqlockReader_load_blocking SensorData_type futex view last_seq (Some 500000000) c1 of
             None \<Rightarrow> None
           | Some ((result, last_seq'), c2) \<Rightarrow>
               map_option (\<lambda>printed. (decode_SensorData data, map_option decode_SensorData result) # printed)
                 (sensor_reader_loop futex view n last_seq' c2)))"

definition sensor_reader :: "futex \<Rightarrow> (nat \<Rightarrow> mem) \<Rightarrow> (SensorData \<times> SensorData option) list option" where
  "sensor_reader futex view = sensor_reader_loop futex view 50 0 0"

section \<open>Lemmas\<close>

lemma wf_SensorData_type: "wf_ctype SensorData_type"
  by (simp add: SensorData_type_def wf_ctype_def) code_simp

lemma SensorData_type_size [simp]: "sizeof SensorData_type = 32"
  by (simp add: SensorData_type_def)

lemma length_encode_SensorData [simp]: "length (encode_SensorData d) = 32"
  by (simp add: encode_SensorData_def)

lemma decode_encode_SensorData:
  "representable 53 11 (temperature d) \<Longrightarrow> representable 53 11 (pressure d) \<Longrightarrow> representable 53 11 (humidity d) \<Longrightarrow>
   decode_SensorData (encode_SensorData d) = d"
  by (simp add: decode_SensorData_def encode_SensorData_def)

lemma tenth_bounds: "0 \<le> round_double (1 / 10)" "round_double (1 / 10) \<le> 1 / 5"
  using double_nonneg [of "1 / 10"] round_double_le [of "1 / 10"] by simp_all

lemma sensor_representable:
  assumes "i < 100"
  shows "representable 53 11 (temperature (sensor_data i))" and "representable 53 11 (pressure (sensor_data i))"
    and "representable 53 11 (humidity (sensor_data i))"
proof -
  let ?i = "int_to_double (int i)"
  have i: "0 \<le> ?i" "?i \<le> 200"
    using double_nonneg [of "of_int (int i)"] round_double_le [of "of_int (int i)"] assms
    by (simp_all add: int_to_double_def)
  have p: "0 \<le> ?i * round_double (1 / 10)" "?i * round_double (1 / 10) \<le> 40"
    using mult_mono [OF i(2) tenth_bounds(2)] i tenth_bounds(1) by simp_all
  have "0 \<le> double_mul ?i (round_double (1 / 10))" "double_mul ?i (round_double (1 / 10)) \<le> 80"
    using double_nonneg [OF p(1)] round_double_le [OF p(1)] p(2) by (simp_all add: double_mul_def)
  then show "representable 53 11 (temperature (sensor_data i))"
    by (simp add: sensor_data_def double_add_def representable_round_double)
  show "representable 53 11 (pressure (sensor_data i))" by (simp add: sensor_data_def representable_round_double)
  have m: "0 \<le> (of_int (int i mod 10) :: rat)" "(of_int (int i mod 10) :: rat) \<le> 10"
    using of_int_le_iff [of "int i mod 10" 10, where ?'a = rat] by simp_all
  have "0 \<le> int_to_double (int i mod 10)" "int_to_double (int i mod 10) \<le> 20"
    using double_nonneg [OF m(1)] round_double_le [OF m(1)] m(2) by (simp_all add: int_to_double_def)
  then show "representable 53 11 (humidity (sensor_data i))"
    by (simp add: sensor_data_def double_add_def representable_round_double)
qed

text \<open>What the segment holds after \<open>j\<close> stores; the new segment decodes to zeros.\<close>

definition sensor_value :: "nat \<Rightarrow> SensorData" where
  "sensor_value j =
     (if j = 0 then \<lparr>temperature = 0, pressure = 0, humidity = 0, timestamp_ms = 0\<rparr> else sensor_data (j - 1))"

lemma le_word_replicate_0 [simp]: "le_word (replicate n 0) = 0"
  by (rule le_word_zero) simp

lemma sensor_run_fields [simp]:
  "sl_type (sensor_run m) = SensorData_type" "sl_mem0 (sensor_run m) = m" "sl_stores (sensor_run m) = sensor_stores"
  by (simp_all add: sensor_run_def)

lemma length_sensor_stores [simp]: "length sensor_stores = 100"
  by (simp add: sensor_stores_def)

lemma decode_sl_value: "j \<le> 100 \<Longrightarrow> decode_SensorData (sl_value (sensor_run zero_mem) j) = sensor_value j"
proof (cases "j = 0")
  case True
  then show ?thesis
    by (simp add: sl_value_def sensor_value_def load_bytes_zero_mem decode_SensorData_def)
next
  case False
  assume "j \<le> 100"
  with False have "j - 1 < 100" by simp
  with False show ?thesis
    using decode_encode_SensorData [OF sensor_representable]
    by (simp add: sl_value_def sensor_value_def sensor_stores_def)
qed

lemma sensor_run_invar: "sl_invar (sensor_run zero_mem)"
  using wf_SensorData_type by (auto simp: sl_invar_def sensor_stores_def)

lemma sensor_ver: "sl_ver (sensor_run zero_mem) 0 = 0" "sl_ver (sensor_run zero_mem) t \<le> 200"
  using store_ver_le [of 32 100 t] by (simp_all add: sl_ver_def)

section \<open>Properties\<close>

text \<open>What may be printed from state \<open>j0\<close> of the segment on, when the last blocking read returned state \<open>jb\<close>:
  each record is one that was in force, none older than the one printed before it, and each
  blocking read that does not time out reports a record newer than the one before.\<close>

fun sensor_reports :: "nat \<Rightarrow> nat \<Rightarrow> (SensorData \<times> SensorData option) list \<Rightarrow> bool" where
  "sensor_reports j0 jb [] = True"
| "sensor_reports j0 jb ((d, None) # ps) = (\<exists>j \<in> {j0..100}. d = sensor_value j \<and> sensor_reports j jb ps)"
| "sensor_reports j0 jb ((d, Some d') # ps) =
     (\<exists>j \<in> {j0..100}. d = sensor_value j \<and> (\<exists>j' \<in> {max j (jb + 1)..100}. d' = sensor_value j' \<and> sensor_reports j' j' ps))"

lemma sensor_no_lap: "sl_ver (sensor_run zero_mem) t < sl_ver (sensor_run zero_mem) u + 2 ^ 32"
  using sensor_ver(2) [of t] by simp

lemma sensor_load:
  assumes "mono clk" and "SeqlockReader_load SensorData_type (sl_mem (sensor_run zero_mem) \<circ> clk) c = Some (v, c')"
  shows "\<exists>j \<le> 100. decode_SensorData v = sensor_value j \<and>
           sl_ver (sensor_run zero_mem) (clk c) \<le> 2 * j \<and> 2 * j \<le> sl_ver (sensor_run zero_mem) (clk c')"
proof -
  obtain j where j: "v = sl_value (sensor_run zero_mem) j"
      "sl_ver (sensor_run zero_mem) (clk c) \<le> 2 * j" "2 * j \<le> sl_ver (sensor_run zero_mem) (clk c')"
    using load_in_run [OF sensor_run_invar assms(1) sensor_no_lap, of c v c'] assms(2) sensor_ver(1) by auto
  moreover have "j \<le> 100" using j(3) sensor_ver(2) [of "clk c'"] by simp
  ultimately show ?thesis using decode_sl_value by auto
qed

lemma sensor_blocking:
  assumes "mono clk" and "futex_spec futex" and "jb \<le> 100"
    and "SeqlockReader_load_blocking SensorData_type futex (sl_mem (sensor_run zero_mem) \<circ> clk) (of_nat (2 * jb)) (Some ns) c
           = Some ((res, last'), c')"
  shows "sl_ver (sensor_run zero_mem) (clk c) \<le> sl_ver (sensor_run zero_mem) (clk c') \<and>
         (case res of
            None \<Rightarrow> last' = of_nat (2 * jb)
          | Some v \<Rightarrow> \<exists>j \<le> 100. j \<noteq> jb \<and> last' = of_nat (2 * j) \<and> decode_SensorData v = sensor_value j \<and>
              sl_ver (sensor_run zero_mem) (clk c) \<le> 2 * j \<and> 2 * j \<le> sl_ver (sensor_run zero_mem) (clk c'))"
proof
  have "c \<le> c'" using SeqlockReader_load_blocking_SomeD [OF assms(4)] by (auto split: option.splits)
  then show "sl_ver (sensor_run zero_mem) (clk c) \<le> sl_ver (sensor_run zero_mem) (clk c')"
    using monoD [OF assms(1)] sl.ver_mono [OF sensor_run_invar] by blast
  note run = blocking_in_run [OF sensor_run_invar assms(1,2) sensor_no_lap, of "of_nat (2 * jb)" "Some ns" c res last' c']
  show "case res of
            None \<Rightarrow> last' = of_nat (2 * jb)
          | Some v \<Rightarrow> \<exists>j \<le> 100. j \<noteq> jb \<and> last' = of_nat (2 * j) \<and> decode_SensorData v = sensor_value j \<and>
              sl_ver (sensor_run zero_mem) (clk c) \<le> 2 * j \<and> 2 * j \<le> sl_ver (sensor_run zero_mem) (clk c')"
  proof (cases res)
    case (Some v)
    with run assms(4) obtain t where t: "clk c \<le> t" "t \<le> clk c'" "even (sl_ver (sensor_run zero_mem) t)"
        "last' = of_nat (sl_ver (sensor_run zero_mem) t)" "v = sl_published (sensor_run zero_mem) (sl_ver (sensor_run zero_mem) t)"
        "last' \<noteq> of_nat (2 * jb)" by auto
    from t(3) obtain j where j: "sl_ver (sensor_run zero_mem) t = 2 * j" by (rule evenE)
    have "j \<le> 100" using sensor_ver(2) [of t] j by simp
    moreover have "j \<noteq> jb" using t(4,6) j by auto
    moreover have "v = sl_value (sensor_run zero_mem) j" using t(5) j by (simp add: sl_published_def)
    moreover have "sl_ver (sensor_run zero_mem) (clk c) \<le> 2 * j" "2 * j \<le> sl_ver (sensor_run zero_mem) (clk c')"
      using sl.ver_mono [OF sensor_run_invar t(1)] sl.ver_mono [OF sensor_run_invar t(2)] j by simp_all
    ultimately show ?thesis using Some t(4) j decode_sl_value by auto
  qed (use run assms(4) in simp)
qed

lemma sensor_reader_loop_SucD:
  assumes "sensor_reader_loop futex view (Suc n) last_seq c = Some ps"
  shows "\<exists>v c1 res last' c2 ps'. SeqlockReader_load SensorData_type view c = Some (v, c1) \<and>
           SeqlockReader_load_blocking SensorData_type futex view last_seq (Some 500000000) c1 = Some ((res, last'), c2) \<and>
           sensor_reader_loop futex view n last' c2 = Some ps' \<and>
           ps = (decode_SensorData v, map_option decode_SensorData res) # ps'"
  using assms by (auto split: option.splits)

lemma sensor_reader_loop_SucI:
  "SeqlockReader_load SensorData_type view c = Some (v, c1) \<Longrightarrow>
   SeqlockReader_load_blocking SensorData_type futex view last_seq (Some 500000000) c1 = Some ((res, last'), c2) \<Longrightarrow>
   sensor_reader_loop futex view n last' c2 = Some ps \<Longrightarrow> \<exists>ps. sensor_reader_loop futex view (Suc n) last_seq c = Some ps"
  by simp

lemma sensor_loop_reports:
  assumes "mono clk" and "futex_spec futex"
    and "sensor_reader_loop futex (sl_mem (sensor_run zero_mem) \<circ> clk) n (of_nat (2 * jb)) c = Some ps"
    and "2 * j0 \<le> sl_ver (sensor_run zero_mem) (clk c)" "2 * jb \<le> sl_ver (sensor_run zero_mem) (clk c)"
  shows "sensor_reports j0 jb ps \<and> length ps = n"
  using assms(3-5)
proof (induction n arbitrary: j0 jb c ps)
  case (Suc n)
  let ?ver = "\<lambda>c. sl_ver (sensor_run zero_mem) (clk c)"
  have jb: "jb \<le> 100" using Suc.prems(3) sensor_ver(2) [of "clk c"] by simp
  obtain v c1 res last' c2 ps' where load: "SeqlockReader_load SensorData_type (sl_mem (sensor_run zero_mem) \<circ> clk) c = Some (v, c1)"
      and blk: "SeqlockReader_load_blocking SensorData_type futex (sl_mem (sensor_run zero_mem) \<circ> clk) (of_nat (2 * jb)) (Some 500000000) c1
           = Some ((res, last'), c2)"
      and rest: "sensor_reader_loop futex (sl_mem (sensor_run zero_mem) \<circ> clk) n last' c2 = Some ps'"
      and ps: "ps = (decode_SensorData v, map_option decode_SensorData res) # ps'"
    using sensor_reader_loop_SucD [OF Suc.prems(1)] by blast
  obtain j where j: "j \<le> 100" "decode_SensorData v = sensor_value j" "?ver c \<le> 2 * j" "2 * j \<le> ?ver c1"
    using sensor_load [OF assms(1) load] by blast
  note b = sensor_blocking [OF assms(1,2) jb blk]
  show ?case
  proof (cases res)
    case None
    then have last: "last' = of_nat (2 * jb)" and ver: "?ver c1 \<le> ?ver c2" using b by simp_all
    have "sensor_reports j jb ps' \<and> length ps' = n"
      by (rule Suc.IH [OF rest [unfolded last]]) (use ver j(3,4) Suc.prems(3) in simp_all)
    moreover have "j0 \<le> j" using Suc.prems(2) j(3) by simp
    ultimately show ?thesis using ps None j by auto
  next
    case (Some w)
    with b obtain j' where j': "j' \<le> 100" "j' \<noteq> jb" "last' = of_nat (2 * j')" "decode_SensorData w = sensor_value j'"
      "?ver c1 \<le> 2 * j'" "2 * j' \<le> ?ver c2" by auto
    then have "sensor_reports j' j' ps' \<and> length ps' = n"
      by (intro Suc.IH [OF rest [unfolded j'(3)]]) simp_all
    moreover have "j0 \<le> j" "j \<le> j'" "jb < j'" using Suc.prems(2,3) j j' by simp_all
    ultimately have "j \<in> {j0..100}" "j' \<in> {max j (jb + 1)..100}" "sensor_reports j' j' ps'" "length ps' = n"
      using j(1) j'(1) by simp_all
    then have "sensor_reports j0 jb ((decode_SensorData v, Some (decode_SensorData w)) # ps')" "length ps' = n"
      unfolding sensor_reports.simps j(2) j'(4) by blast+
    with ps Some show ?thesis by simp
  qed
qed simp

lemma sensor_loop_returns:
  assumes "mono clk"
    and idle: "\<forall>k \<ge> k0. 3500 \<le> clk k"
    and times_out: "\<forall>k \<ge> k0. futex k 200 200 (Some (timespec_of 500000000)) = FutexETIMEDOUT"
  shows "\<exists>ps. sensor_reader_loop futex (sl_mem (sensor_run zero_mem) \<circ> clk) n last_seq c = Some ps"
proof (induction n arbitrary: last_seq c)
  case (Suc n)
  let ?view = "sl_mem (sensor_run zero_mem) \<circ> clk"
  have quiet: "load_u32 (?view k) 0 = 200" if "k0 \<le> k" for k
  proof -
    have "sl_ver (sensor_run zero_mem) (clk k) = 200" using idle that by (simp add: sl_ver_def store_ver_end)
    then show ?thesis using sl.seq_ver [OF sensor_run_invar, of "clk k"] by simp
  qed
  obtain v c1 where "SeqlockReader_load SensorData_type ?view c = Some (v, c1)"
    using SeqlockReader_load_terminates [of k0 ?view 200 SensorData_type c, OF quiet] by simp blast
  moreover obtain r c2 where "SeqlockReader_load_blocking SensorData_type futex ?view last_seq (Some 500000000) c1 = Some (r, c2)"
    using SeqlockReader_load_blocking_terminates [of k0 ?view 200 last_seq futex "Some 500000000" SensorData_type c1, OF quiet]
      times_out by simp blast
  moreover obtain res last' where "r = (res, last')" by (cases r)
  moreover obtain ps where "sensor_reader_loop futex ?view n last' c2 = Some ps" using Suc by blast
  ultimately show ?case using sensor_reader_loop_SucI by blast
qed simp

text \<open>
  C10. The seqlock example, writer and reader in any interleaving on a new segment. When the writer's
  accesses are all made from some instant on, and the kernel then lets a wait on the unchanging counter time
  out, the reader ends after its 50 iterations. Every record it prints is one of the 100 the writer
  stored, or the zeros of the new segment, with all digits of the stored numbers; no record is older
  than the one printed before it, and each blocking read that does not report a timeout
  reports a record newer than all those before it.
\<close>

theorem sensor_example_correct:
  assumes "mono clk" and "futex_spec futex" and "\<forall>k \<ge> k0. 3500 \<le> clk k"
    and "\<forall>k \<ge> k0. futex k 200 200 (Some (timespec_of 500000000)) = FutexETIMEDOUT"
  shows "\<exists>ps. sensor_reader futex (sl_mem (sensor_run zero_mem) \<circ> clk) = Some ps \<and> length ps = 50 \<and> sensor_reports 0 0 ps"
proof -
  obtain ps where ps: "sensor_reader_loop futex (sl_mem (sensor_run zero_mem) \<circ> clk) 50 0 0 = Some ps"
    using sensor_loop_returns [of clk k0 futex 50 0 0] assms by blast
  have "sensor_reports 0 0 ps \<and> length ps = 50"
    by (rule sensor_loop_reports [OF assms(1,2), of 50 0 0]) (use ps in simp_all)
  with ps show ?thesis by (auto simp: sensor_reader_def)
qed

text \<open>A reader that makes three accesses for each of the writer's.\<close>

theorem sensor_example_correct_witness:
  "\<exists>ps. sensor_reader futex_demo (sl_mem (sensor_run zero_mem) \<circ> (\<lambda>k. k div 3)) = Some ps \<and> length ps = 50 \<and> sensor_reports 0 0 ps"
proof (rule sensor_example_correct)
  show "mono (\<lambda>k::nat. k div 3)" by (simp add: mono_def div_le_mono)
  show "futex_spec futex_demo" by (rule futex_demo_spec)
  show "\<forall>k \<ge> 10500. 3500 \<le> k div (3::nat)" by auto
  show "\<forall>k \<ge> 10500. futex_demo k 200 200 (Some (timespec_of 500000000)) = FutexETIMEDOUT" by (simp add: futex_demo_def)
qed

end
