(* ===== verification/Cyclic_Example.thy ===== *)
theory Cyclic_Example
  imports Stamped_Series Float_Bits
begin

text \<open>
  \<^verbatim>\<open>examples/cyclic_buffer_example.cpp\<close>: a writer that inserts 200 stamped IMU readings into a ring of 64, and
  a reader that asks a \<open>TimeSeries\<close> on it for the newest reading, its freshness, the reading closest to 100 ms
  before it and the pair around that instant. The clock is a parameter; the models return the values
  that are printed.
\<close>

section \<open>Readings\<close>

record IMUReading =
  accel_x :: rat
  accel_y :: rat
  accel_z :: rat
  gyro_x :: rat
  gyro_y :: rat
  gyro_z :: rat

definition IMUReading_type :: ctype where
  "IMUReading_type = flat 24 4"

definition encode_IMUReading :: "IMUReading \<Rightarrow> byte list" where
  "encode_IMUReading d =
     le_bytes 4 (float_bits (accel_x d)) @ le_bytes 4 (float_bits (accel_y d)) @ le_bytes 4 (float_bits (accel_z d))
     @ le_bytes 4 (float_bits (gyro_x d)) @ le_bytes 4 (float_bits (gyro_y d)) @ le_bytes 4 (float_bits (gyro_z d))"

definition decode_IMUReading :: "byte list \<Rightarrow> IMUReading" where
  "decode_IMUReading bs =
     \<lparr>accel_x = float_value (le_word (take 4 bs)), accel_y = float_value (le_word (take 4 (drop 4 bs))),
      accel_z = float_value (le_word (take 4 (drop 8 bs))), gyro_x = float_value (le_word (take 4 (drop 12 bs))),
      gyro_y = float_value (le_word (take 4 (drop 16 bs))), gyro_z = float_value (le_word (take 4 (drop 20 bs)))\<rparr>"

definition StampedIMU :: ctype where
  "StampedIMU = Stamped_type IMUReading_type"

definition BUFFER_SIZE :: nat where
  "BUFFER_SIZE = 64"

text \<open>The reading of iteration \<open>seq\<close>; the literals are rounded to \<open>float\<close>.\<close>

definition imu_reading :: "nat \<Rightarrow> IMUReading" where
  "imu_reading seq =
     \<lparr>accel_x = float_mul (round_float (1 / 100)) (u64_to_float (of_nat seq)), accel_y = 0,
      accel_z = - round_float (981 / 100), gyro_x = 0, gyro_y = 0,
      gyro_z = float_mul (round_float (1 / 1000)) (u64_to_float (of_nat seq))\<rparr>"

section \<open>Writer\<close>

definition imu_stamped :: "(nat \<Rightarrow> timespec) \<Rightarrow> nat \<Rightarrow> stamped" where
  "imu_stamped now seq = stamp (now seq) (encode_IMUReading (imu_reading seq)) (of_nat seq)"

text \<open>\<open>n\<close> iterations from \<open>seq\<close> on: the lines printed (sequence number, stamp and acceleration) and the segment.\<close>

fun imu_writer_loop ::
    "(nat \<Rightarrow> byte) \<Rightarrow> (nat \<Rightarrow> timespec) \<Rightarrow> nat \<Rightarrow> nat \<Rightarrow> mem \<Rightarrow> (nat \<times> u64 \<times> rat) list \<times> mem" where
  "imu_writer_loop pad now 0 seq m = ([], m)"
| "imu_writer_loop pad now (Suc n) seq m =
     (let imu = imu_reading seq;
          stamped = imu_stamped now seq;
          m = exec_acts (CyclicBufferWriter_insert StampedIMU BUFFER_SIZE (encode_stamped IMUReading_type pad stamped) m) m;
          line = (if seq mod 50 = 0 then [(seq, timestamp_ns stamped, accel_x imu)] else []);
          (rest, m) = imu_writer_loop pad now n (Suc seq) m
      in (line @ rest, m))"

text \<open>The lines, the total printed at the end, and the segment.\<close>

definition imu_writer :: "(nat \<Rightarrow> byte) \<Rightarrow> (nat \<Rightarrow> timespec) \<Rightarrow> mem \<Rightarrow> (nat \<times> u64 \<times> rat) list \<times> u64 \<times> mem" where
  "imu_writer pad now m =
     (let (lines, m) = imu_writer_loop pad now 200 0 m
      in (lines, fst (CyclicBufferWriter_total_writes (\<lambda>_. m) 0), m))"

section \<open>Reader\<close>

record imu_report =
  rp_available :: "u64 \<times> nat"
  rp_latest :: stamped
  rp_fresh :: bool
  rp_closest :: "(u64 \<times> u64) option"          \<comment> \<open>sequence number and distance\<close>
  rp_interp :: "(u64 \<times> u64 \<times> rat) option"    \<comment> \<open>sequence numbers before and after, factor\<close>

definition imu_reader :: "timespec \<Rightarrow> (nat \<Rightarrow> mem) \<Rightarrow> imu_report option" where
  "imu_reader clock view =
     (let rd = cyclic_reader StampedIMU BUFFER_SIZE view;
          key = StampedKeyExtractor IMUReading_type;
          decode = decode_stamped IMUReading_type;
          (avail, c) = TimeSeries_available BUFFER_SIZE view 0
      in do {
        (latest, c) \<leftarrow> TimeSeries_get_latest StampedIMU BUFFER_SIZE view c;
        let latest = decode latest;
        let now = monotonic_now_ns clock;
        (fresh, c) \<leftarrow> get_latest_if_fresh rd key (now - 1000000000) c;
        let target_ts = timestamp_ns latest - 100000000;
        (closest, c) \<leftarrow> find_closest rd key target_ts None c;
        (interp, c) \<leftarrow> find_interpolation_pair rd key target_ts c;
        Some \<lparr>rp_available = (avail, TimeSeries_capacity BUFFER_SIZE), rp_latest = latest, rp_fresh = (fresh \<noteq> None),
          rp_closest = map_option (\<lambda>e. (sequence (decode e),
            if timestamp_ns (decode e) > target_ts then timestamp_ns (decode e) - target_ts
            else target_ts - timestamp_ns (decode e))) closest,
          rp_interp = map_option (\<lambda>p. (sequence (decode (before p)), sequence (decode (after p)), alpha p)) interp\<rparr>
      })"

section \<open>Lemmas\<close>

lemma wf_IMUReading_type: "wf_ctype IMUReading_type"
  by (simp add: IMUReading_type_def wf_ctype_def) code_simp

lemma BUFFER_SIZE_ok: "CyclicBuffer_capacity_ok BUFFER_SIZE"
  by (simp add: CyclicBuffer_capacity_ok_def BUFFER_SIZE_def) code_simp

interpretation imu: stamped_ring IMUReading_type BUFFER_SIZE
  by unfold_locales (rule wf_IMUReading_type, rule BUFFER_SIZE_ok)

lemma length_encode_IMUReading [simp]: "length (encode_IMUReading d) = 24"
  by (simp add: encode_IMUReading_def)

lemma imu_stamped_object: "object_of IMUReading_type (stamped_data (imu_stamped now seq))"
  by (simp add: imu_stamped_def stamp_def object_of_def IMUReading_type_def)

abbreviation imu_series :: "(nat \<Rightarrow> timespec) \<Rightarrow> nat \<Rightarrow> stamped list" where
  "imu_series now n \<equiv> map (imu_stamped now) [0..<n]"

lemma imu_writer_loop_eq:
  "snd (imu_writer_loop pad now n seq (series_mem IMUReading_type BUFFER_SIZE pad (imu_series now seq)))
     = series_mem IMUReading_type BUFFER_SIZE pad (imu_series now (seq + n))"
  "fst (imu_writer_loop pad now n seq m)
     = map (\<lambda>i. (i, monotonic_now_ns (now i), accel_x (imu_reading i))) (filter (\<lambda>i. i mod 50 = 0) [seq..<seq + n])"
proof (induction n arbitrary: seq m)
  case (Suc n)
  { case 1
    have "imu_series now (Suc seq) = imu_series now seq @ [imu_stamped now seq]" by simp
    then have "exec_acts (CyclicBufferWriter_insert StampedIMU BUFFER_SIZE (encode_stamped IMUReading_type pad (imu_stamped now seq))
        (series_mem IMUReading_type BUFFER_SIZE pad (imu_series now seq))) (series_mem IMUReading_type BUFFER_SIZE pad (imu_series now seq))
        = series_mem IMUReading_type BUFFER_SIZE pad (imu_series now (Suc seq))"
      by (simp only: series_buf_snoc) (simp add: cb_insert_def StampedIMU_def)
    then show ?case using Suc.IH(1) [of "Suc seq"] by (auto simp: Let_def split: prod.split) }
  { case 2
    have "[seq..<seq + Suc n] = seq # [Suc seq..<Suc seq + n]" using upt_conv_Cons [of seq "seq + Suc n"] by simp
    then show ?case using Suc.IH(2) [of "Suc seq"]
      by (simp add: Let_def imu_stamped_def stamp_def split_beta del: upt_Suc) }
qed simp_all

lemma recordable_imu:
  assumes "n \<le> 200" and "\<forall>i j. i \<le> j \<longrightarrow> j < n \<longrightarrow> monotonic_now_ns (now i) \<le> monotonic_now_ns (now j)"
  shows "recordable IMUReading_type (imu_series now n)"
  using assms imu_stamped_object
  by (auto simp: recordable_def sorted_wrt_iff_nth_less imu_stamped_def stamp_def)

lemma imu_floats: "seq < 200 \<Longrightarrow> a \<in> {1 / 100, 1 / 1000} \<Longrightarrow> representable 24 8 (float_mul (round_float a) (u64_to_float (of_nat seq)))"
proof (cases "seq = 0")
  case False
  assume "seq < 200" and a: "a \<in> {1 / 100, 1 / 1000}"
  define r f where "r = round_float a" and "f = round_float (rat_of_nat seq)"
  have u: "unat (of_nat seq :: u64) = seq" using \<open>seq < 200\<close> by (intro unat_of_nat_small) simp
  have "a / 2 \<le> r \<and> r \<le> 2 * a" unfolding r_def using a by (intro round_float_near) auto
  then have r: "1 / 2000 \<le> r" "r \<le> 1 / 50" using a by auto
  have "rat_of_nat seq / 2 \<le> f \<and> f \<le> 2 * rat_of_nat seq" unfolding f_def using False by (intro round_float_near) simp
  moreover have "1 \<le> rat_of_nat seq" "rat_of_nat seq \<le> 200" using False \<open>seq < 200\<close> by simp_all
  ultimately have f: "1 / 2 \<le> f" "f \<le> 400" by auto
  have "1 / 2000 * (1 / 2) \<le> r * f" "r * f \<le> 1 / 50 * 400" using r f by (intro mult_mono; simp)+
  then have "representable 24 8 (round_float (r * f))" by (intro representable_round_float) simp_all
  then show ?thesis by (simp add: float_mul_def u64_to_float_def u r_def f_def)
qed (simp add: float_mul_def u64_to_float_def)

lemma decode_imu_reading: "seq < 200 \<Longrightarrow> decode_IMUReading (encode_IMUReading (imu_reading seq)) = imu_reading seq"
proof -
  assume "seq < 200"
  then have "representable 24 8 (accel_x (imu_reading seq))" "representable 24 8 (gyro_z (imu_reading seq))"
    using imu_floats [of seq] by (simp_all add: imu_reading_def)
  moreover have "representable 24 8 (accel_z (imu_reading seq))"
    by (simp add: imu_reading_def representable_round_float)
  ultimately show ?thesis
    by (simp add: decode_IMUReading_def encode_IMUReading_def) (simp add: imu_reading_def)
qed

lemma imu_series_new: "series_mem IMUReading_type BUFFER_SIZE pad (imu_series now 0) = zero_mem"
  by (simp add: series_buf_def)

lemma imu_read_back: "decode_stamped IMUReading_type (encode_stamped IMUReading_type pad (imu_stamped now i)) = imu_stamped now i"
  by (rule imu.read_back [OF imu_stamped_object])

lemma imu_stamped_fields [simp]:
  "timestamp_ns (imu_stamped now i) = monotonic_now_ns (now i)" "sequence (imu_stamped now i) = of_nat i"
  "stamped_data (imu_stamped now i) = encode_IMUReading (imu_reading i)"
  by (simp_all add: imu_stamped_def stamp_def)

section \<open>Properties\<close>

text \<open>What a pair of printed sequence numbers with factor says about the stamps \<open>ts\<close> of the \<open>n\<close> readings written.\<close>

definition imu_pair_ok :: "(nat \<Rightarrow> u64) \<Rightarrow> nat \<Rightarrow> u64 \<Rightarrow> u64 \<times> u64 \<times> rat \<Rightarrow> bool" where
  "imu_pair_ok ts n target = (\<lambda>(x, y, a). \<exists>i<n. n \<le> i + BUFFER_SIZE \<and> y = of_nat i \<and> 0 \<le> a \<and> a \<le> 1 \<and>
     (x = y \<and> target = ts i \<and> a = 0 \<or>
      0 < i \<and> n \<le> i - 1 + BUFFER_SIZE \<and> x = of_nat (i - 1) \<and> ts (i - 1) \<le> target \<and> target < ts i \<and> a = interp_alpha target (ts (i - 1)) (ts i)))"

lemma imu_interpolation:
  assumes "recordable IMUReading_type (imu_series now n)" and "0 < n"
  shows "\<exists>res c'. find_interpolation_pair (series_reader IMUReading_type BUFFER_SIZE (series_mem IMUReading_type BUFFER_SIZE pad (imu_series now n)))
      (StampedKeyExtractor IMUReading_type) target c = Some (res, c') \<and>
    (if n < 2 \<or> monotonic_now_ns (now (n - 1)) < target \<or> target < monotonic_now_ns (now (n - min n 64)) then res = None
     else \<exists>p. res = Some p \<and> imu_pair_ok (\<lambda>i. monotonic_now_ns (now i)) n target
       (sequence (decode_stamped IMUReading_type (before p)), sequence (decode_stamped IMUReading_type (after p)), alpha p))"
proof -
  let ?ss = "imu_series now n" and ?ts = "\<lambda>i. monotonic_now_ns (now i)"
  have ne: "?ss \<noteq> []" and last: "last ?ss = imu_stamped now (n - 1)" using assms(2) by (simp_all add: last_map)
  have first: "?ss ! (length ?ss - min (length ?ss) BUFFER_SIZE) = imu_stamped now (n - min n 64)"
    using assms(2) by (simp add: BUFFER_SIZE_def)
  have small: "min (length ?ss) BUFFER_SIZE < 2 \<longleftrightarrow> n < 2" by (auto simp: BUFFER_SIZE_def)
  obtain res c' where run: "find_interpolation_pair (series_reader IMUReading_type BUFFER_SIZE (series_mem IMUReading_type BUFFER_SIZE pad ?ss))
      (StampedKeyExtractor IMUReading_type) target c = Some (res, c')"
    and post: "if n < 2 \<or> ?ts (n - 1) < target \<or> target < ?ts (n - min n 64) then res = None
      else \<exists>p i. res = Some p \<and> in_ring BUFFER_SIZE ?ss i \<and> after p = encode_stamped IMUReading_type pad (?ss ! i) \<and> 0 \<le> alpha p \<and> alpha p \<le> 1 \<and>
        (before p = after p \<and> target = timestamp_ns (?ss ! i) \<and> alpha p = 0 \<or>
         0 < i \<and> in_ring BUFFER_SIZE ?ss (i - 1) \<and> before p = encode_stamped IMUReading_type pad (?ss ! (i - 1)) \<and>
         timestamp_ns (?ss ! (i - 1)) \<le> target \<and> target < timestamp_ns (?ss ! i) \<and>
         alpha p = interp_alpha target (timestamp_ns (?ss ! (i - 1))) (timestamp_ns (?ss ! i)))"
    using imu.series_interpolation [OF assms(1) ne, of pad target c] unfolding small last first imu_stamped_fields by blast
  show ?thesis
  proof (cases "n < 2 \<or> ?ts (n - 1) < target \<or> target < ?ts (n - min n 64)")
    case True
    with run post show ?thesis by simp
  next
    case False
    with post obtain p i where p: "res = Some p" "in_ring BUFFER_SIZE ?ss i" "after p = encode_stamped IMUReading_type pad (?ss ! i)" "0 \<le> alpha p" "alpha p \<le> 1"
        "before p = after p \<and> target = timestamp_ns (?ss ! i) \<and> alpha p = 0 \<or>
         0 < i \<and> in_ring BUFFER_SIZE ?ss (i - 1) \<and> before p = encode_stamped IMUReading_type pad (?ss ! (i - 1)) \<and>
         timestamp_ns (?ss ! (i - 1)) \<le> target \<and> target < timestamp_ns (?ss ! i) \<and>
         alpha p = interp_alpha target (timestamp_ns (?ss ! (i - 1))) (timestamp_ns (?ss ! i))"
      by auto
    from p(2) have i: "i < n" "n \<le> i + BUFFER_SIZE" "?ss ! i = imu_stamped now i" "?ss ! (i - 1) = imu_stamped now (i - 1)"
      by (auto simp: in_ring_def less_imp_diff_less)
    have "imu_pair_ok ?ts n target
       (sequence (decode_stamped IMUReading_type (before p)), sequence (decode_stamped IMUReading_type (after p)), alpha p)"
      unfolding imu_pair_ok_def split_conv
    proof (intro exI conjI)
      show "sequence (decode_stamped IMUReading_type (after p)) = of_nat i" using p(3) i(3) imu_read_back by simp
      show "sequence (decode_stamped IMUReading_type (before p)) = sequence (decode_stamped IMUReading_type (after p)) \<and> target = ?ts i \<and> alpha p = 0 \<or>
        0 < i \<and> n \<le> i - 1 + BUFFER_SIZE \<and> sequence (decode_stamped IMUReading_type (before p)) = of_nat (i - 1) \<and> ?ts (i - 1) \<le> target \<and> target < ?ts i \<and>
        alpha p = interp_alpha target (?ts (i - 1)) (?ts i)"
        using p(6) i imu_read_back by (auto simp: in_ring_def)
    qed (use i p in simp_all)
    with False run p(1) show ?thesis by auto
  qed
qed

text \<open>
  C27. The cyclic-buffer example: after \<open>n\<close> iterations of the writer on a new segment (\<open>n\<close> from 1 to
  200, clock not going back), the reader prints how many of the 64 slots are filled, the last reading
  written with all its digits, and "fresh" exactly when its stamp is not below the threshold computed from
  the clock; the reading it reports as closest to 100 ms before the newest is one of the
  readings still in the ring and none of them is closer; and it reports an interpolation pair exactly when
  there are two readings and that instant lies between the oldest and the newest, made of
  neighbouring readings around it with the factor between 0 and 1.
\<close>

theorem imu_example_correct:
  assumes "0 < n" "n \<le> 200" and "\<forall>i j. i \<le> j \<longrightarrow> j < n \<longrightarrow> monotonic_now_ns (now i) \<le> monotonic_now_ns (now j)"
    and "m = snd (imu_writer_loop pad now n 0 zero_mem)" and "ts = (\<lambda>i. monotonic_now_ns (now i))"
    and "target = ts (n - 1) - 100000000"
  shows "\<exists>r. imu_reader clock (\<lambda>_. m) = Some r \<and> rp_available r = (of_nat (min n 64), 64) \<and>
           sequence (rp_latest r) = of_nat (n - 1) \<and> timestamp_ns (rp_latest r) = ts (n - 1) \<and>
           decode_IMUReading (stamped_data (rp_latest r)) = imu_reading (n - 1) \<and>
           rp_fresh r = (monotonic_now_ns clock - 1000000000 \<le> ts (n - 1)) \<and>
           (\<exists>i<n. n \<le> i + 64 \<and> rp_closest r = Some (of_nat i, key_diff (ts i) target) \<and>
              (\<forall>j<n. n \<le> j + 64 \<longrightarrow> key_diff (ts i) target \<le> key_diff (ts j) target)) \<and>
           (if n < 2 \<or> ts (n - 1) < target \<or> target < ts (n - min n 64) then rp_interp r = None
            else \<exists>p. rp_interp r = Some p \<and> imu_pair_ok ts n target p)"
proof -
  let ?ss = "imu_series now n" and ?T = IMUReading_type and ?key = "StampedKeyExtractor IMUReading_type"
  have rec: "recordable ?T ?ss" by (rule recordable_imu [OF assms(2,3)])
  have ne: "?ss \<noteq> []" using assms(1) by simp
  have m: "m = series_mem ?T BUFFER_SIZE pad ?ss"
    using imu_writer_loop_eq(1) [of pad now n 0] imu_series_new assms(4) by simp
  have last: "last ?ss = imu_stamped now (n - 1)" using assms(1) by (simp add: last_map)
  have ring: "in_ring BUFFER_SIZE ?ss i \<longleftrightarrow> i < n \<and> n \<le> i + 64" for i by (simp add: in_ring_def BUFFER_SIZE_def)
  have avail: "TimeSeries_available BUFFER_SIZE (\<lambda>_. m) 0 = (of_nat (min n 64), 1)"
  proof -
    have "unat (fst (TimeSeries_available BUFFER_SIZE (\<lambda>_. m) 0)) = min n 64"
      using imu.series_available [OF rec, of pad 0] unfolding m by (simp add: BUFFER_SIZE_def)
    then have "fst (TimeSeries_available BUFFER_SIZE (\<lambda>_. m) 0) = of_nat (min n 64)" by (metis of_nat_unat ucast_id)
    then show ?thesis by (simp add: TimeSeries_available_def CyclicBufferReader_available_def Let_def)
  qed
  obtain c1 where c1: "TimeSeries_get_latest StampedIMU BUFFER_SIZE (\<lambda>_. m) 1 = Some (encode_stamped ?T pad (imu_stamped now (n - 1)), c1)"
    using imu.series_latest [OF rec ne] unfolding m last StampedIMU_def by blast
  obtain c2 where c2: "get_latest_if_fresh (cyclic_reader StampedIMU BUFFER_SIZE (\<lambda>_. m)) ?key (monotonic_now_ns clock - 1000000000) c1
       = Some (if monotonic_now_ns clock - 1000000000 \<le> ts (n - 1) then Some (encode_stamped ?T pad (imu_stamped now (n - 1))) else None, c2)"
    using imu.series_fresh [OF rec ne, of pad "monotonic_now_ns clock - 1000000000" c1] unfolding m last StampedIMU_def assms(5) by auto
  obtain i c3 where i: "i < n" "n \<le> i + 64" "\<forall>j<n. n \<le> j + 64 \<longrightarrow> key_diff (ts i) target \<le> key_diff (ts j) target"
      and c3: "find_closest (cyclic_reader StampedIMU BUFFER_SIZE (\<lambda>_. m)) ?key target None c2
        = Some (Some (encode_stamped ?T pad (imu_stamped now i)), c3)"
    using imu.series_closest [OF rec ne, of target pad None c2] unfolding m StampedIMU_def ring assms(5) by auto
  obtain res c4 where c4: "find_interpolation_pair (cyclic_reader StampedIMU BUFFER_SIZE (\<lambda>_. m)) ?key target c3 = Some (res, c4)"
      and post: "if n < 2 \<or> ts (n - 1) < target \<or> target < ts (n - min n 64) then res = None
        else \<exists>p. res = Some p \<and> imu_pair_ok ts n target (sequence (decode_stamped ?T (before p)), sequence (decode_stamped ?T (after p)), alpha p)"
    using imu_interpolation [OF rec assms(1), of pad target c3] unfolding m StampedIMU_def assms(5) by blast
  let ?r = "\<lparr>rp_available = (of_nat (min n 64), 64), rp_latest = imu_stamped now (n - 1),
      rp_fresh = (monotonic_now_ns clock - 1000000000 \<le> ts (n - 1)), rp_closest = Some (of_nat i, key_diff (ts i) target),
      rp_interp = map_option (\<lambda>p. (sequence (decode_stamped ?T (before p)), sequence (decode_stamped ?T (after p)), alpha p)) res\<rparr>"
  have "imu_reader clock (\<lambda>_. m) = Some ?r"
    unfolding imu_reader_def avail Let_def using c1 c2 c3 c4
    by (simp add: imu_read_back assms(5,6) key_diff_def TimeSeries_capacity_def BUFFER_SIZE_def)
  moreover have "decode_IMUReading (stamped_data (rp_latest ?r)) = imu_reading (n - 1)"
    using decode_imu_reading [of "n - 1"] assms(1,2) by simp
  moreover have "if n < 2 \<or> ts (n - 1) < target \<or> target < ts (n - min n 64) then rp_interp ?r = None
            else \<exists>p. rp_interp ?r = Some p \<and> imu_pair_ok ts n target p"
    using post by (auto split: if_splits)
  ultimately show ?thesis using i assms(5) by (intro exI [of _ ?r] conjI) auto
qed

text \<open>
  When the stamp is not later than the clock and the system is up for at least a second, "fresh" means at most
  one second old. In the first second after start-up the threshold \<open>now - 1'000'000'000\<close> wraps, and a reading of the
  same instant is reported as stale.
\<close>

lemma imu_fresh_threshold:
  fixes now t :: u64
  assumes "t \<le> now"
  shows "1000000000 \<le> now \<Longrightarrow> (now - 1000000000 \<le> t) = (uint now - uint t \<le> 1000000000)"
    and "now < 1000000000 \<Longrightarrow> \<not> now - 1000000000 \<le> t"
  using assms by (auto simp: word_le_def word_less_def uint_sub_if')

text \<open>The writer prints four lines and the total, and leaves the segment with the newest 64 readings.\<close>

lemma imu_writer_prints:
  assumes "imu_writer pad now zero_mem = (lines, written, m)"
  shows "map fst lines = [0, 50, 100, 150]" and "written = 200" and "m = snd (imu_writer_loop pad now 200 0 zero_mem)"
proof -
  have l: "lines = fst (imu_writer_loop pad now 200 0 zero_mem)"
    and t: "written = load_u64 m 0" and m: "m = snd (imu_writer_loop pad now 200 0 zero_mem)"
    using assms by (auto simp: imu_writer_def CyclicBufferWriter_total_writes_def split: prod.splits)
  have "filter (\<lambda>i. i mod 50 = 0) [0..<200] = [0, 50, 100, 150::nat]" by code_simp
  then show "map fst lines = [0, 50, 100, 150]" unfolding l imu_writer_loop_eq(2) by (simp add: comp_def)
  show "m = snd (imu_writer_loop pad now 200 0 zero_mem)" by (rule m)
  have "cb_count (series_buf IMUReading_type BUFFER_SIZE pad (imu_series now 200)) = 200"
    using imu.filled(2) [of "imu_series now 200" pad] imu_stamped_object by (simp add: object_of_def)
  then have "unat (load_u64 m 0) = 200"
    using imu_writer_loop_eq(1) [of pad now 200 0] imu_series_new m by (simp add: cb_count_def)
  then show "written = 200" unfolding t by (metis of_nat_numeral of_nat_unat ucast_id)
qed

section \<open>Witness\<close>

text \<open>Twelve readings, 20 ms apart, the first three seconds after start-up.\<close>

theorem imu_example_correct_witness:
  "\<exists>r. imu_reader \<lparr>tv_sec = 4, tv_nsec = 0\<rparr>
       (\<lambda>_. snd (imu_writer_loop (\<lambda>_. 0) (\<lambda>i. \<lparr>tv_sec = 3, tv_nsec = 20000000 * int i\<rparr>) 12 0 zero_mem)) = Some r \<and>
     rp_available r = (12, 64) \<and> sequence (rp_latest r) = 11 \<and> rp_fresh r"
proof -
  let ?now = "\<lambda>i::nat. \<lparr>tv_sec = 3, tv_nsec = 20000000 * int i\<rparr>"
  have ns: "uint (monotonic_now_ns (?now i)) = 3000000000 + 20000000 * int i" if "i < 12" for i
    using that uint_monotonic_now_ns [of "?now i"] by simp
  have mono: "\<forall>i j. i \<le> j \<longrightarrow> j < 12 \<longrightarrow> monotonic_now_ns (?now i) \<le> monotonic_now_ns (?now j)"
    by (simp add: word_le_def ns)
  have "monotonic_now_ns \<lparr>tv_sec = 4, tv_nsec = 0\<rparr> - 1000000000 \<le> monotonic_now_ns (?now 11)"
    by code_simp
  moreover have "0 < (12::nat)" "(12::nat) \<le> 200" by simp_all
  ultimately show ?thesis
    using imu_example_correct [OF _ _ mono refl refl refl, where pad = "\<lambda>_. 0" and clock = "\<lparr>tv_sec = 4, tv_nsec = 0\<rparr>"]
    by auto
qed

end
