(* ===== verification/Example_Mains.thy ===== *)
theory Example_Mains
  imports Seqlock_Example Cyclic_Example
begin

text \<open>
  \<open>main\<close> of the seqlock and ring examples, whole: from the argument to the exit code and the lines printed, with the values that are
  formatted. A line is its format with its arguments. A program that does not return is \<open>None\<close>.
\<close>

section \<open>seqlock_example.cpp\<close>

datatype sensor_line =
    Sensor_usage string | Sensor_writer_started | Sensor_wrote rat rat rat
  | Sensor_reader_started | Sensor_read rat rat rat u64 | Sensor_blocking rat | Sensor_timeout

definition sensor_wrote :: "SensorData \<Rightarrow> sensor_line" where
  "sensor_wrote data = Sensor_wrote (temperature data) (pressure data) (humidity data)"

definition sensor_iteration :: "SensorData \<times> SensorData option \<Rightarrow> sensor_line list" where
  "sensor_iteration = (\<lambda>(data, result).
     [Sensor_read (temperature data) (pressure data) (humidity data) (timestamp_ms data),
      case result of Some r \<Rightarrow> Sensor_blocking (temperature r) | None \<Rightarrow> Sensor_timeout])"

text \<open>The objects the program stores: those of the writer, in order.\<close>

definition sensor_main_stores :: "string list \<Rightarrow> byte list list" where
  "sensor_main_stores argv = (if example_mode argv = Writer then sensor_stores else [])"

text \<open>The lines printed and the exit code; \<open>argv\<close> begins with the program's name.\<close>

definition sensor_main :: "futex \<Rightarrow> (nat \<Rightarrow> mem) \<Rightarrow> string list \<Rightarrow> (sensor_line list \<times> int) option" where
  "sensor_main futex view argv =
     (case example_mode argv of
        Usage \<Rightarrow> Some ([Sensor_usage (hd argv)], 1)
      | Writer \<Rightarrow> Some (Sensor_writer_started # map (\<lambda>i. sensor_wrote (sensor_data i)) [0..<100], 0)
      | Reader \<Rightarrow> map_option (\<lambda>ps. (Sensor_reader_started # concat (map sensor_iteration ps), 0)) (sensor_reader futex view)
      | Other \<Rightarrow> Some ([], 0))"

section \<open>cyclic_buffer_example.cpp\<close>

datatype imu_line =
    Imu_usage string | Imu_writer_started nat | Imu_wrote nat u64 rat | Imu_writer_done u64
  | Imu_reader_started | Imu_available u64 nat | Imu_latest u64 rat | Imu_fresh | Imu_stale
  | Imu_closest int u64 u64 | Imu_interpolation u64 u64 rat

definition imu_writer_output :: "(nat \<times> u64 \<times> rat) list \<times> u64 \<times> mem \<Rightarrow> imu_line list \<times> mem" where
  "imu_writer_output = (\<lambda>(lines, written, m).
     (Imu_writer_started BUFFER_SIZE # map (\<lambda>(seq, ts, x). Imu_wrote seq ts x) lines @ [Imu_writer_done written], m))"

definition imu_reader_output :: "imu_report \<Rightarrow> imu_line list" where
  "imu_reader_output r =
     [Imu_reader_started, Imu_available (fst (rp_available r)) (snd (rp_available r)),
      Imu_latest (sequence (rp_latest r)) (accel_x (decode_IMUReading (stamped_data (rp_latest r)))),
      if rp_fresh r then Imu_fresh else Imu_stale]
     @ (case rp_closest r of Some (seq, delta) \<Rightarrow> [Imu_closest 100000000 seq delta] | None \<Rightarrow> [])
     @ (case rp_interp r of Some (x, y, a) \<Rightarrow> [Imu_interpolation x y a] | None \<Rightarrow> [])"

text \<open>The lines, the exit code and the segment; a reader does not change it, and reads it through \<open>view\<close>.\<close>

definition imu_main ::
    "(nat \<Rightarrow> byte) \<Rightarrow> (nat \<Rightarrow> timespec) \<Rightarrow> timespec \<Rightarrow> (nat \<Rightarrow> mem) \<Rightarrow> string list \<Rightarrow> mem \<Rightarrow> ((imu_line list \<times> int) \<times> mem) option" where
  "imu_main pad now clock view argv m =
     (case example_mode argv of
        Usage \<Rightarrow> Some (([Imu_usage (hd argv)], 1), m)
      | Writer \<Rightarrow> let (lines, m) = imu_writer_output (imu_writer pad now m) in Some ((lines, 0), m)
      | Reader \<Rightarrow> map_option (\<lambda>r. ((imu_reader_output r, 0), m)) (imu_reader clock view)
      | Other \<Rightarrow> Some (([], 0), m))"

section \<open>The seqlock example\<close>

lemma length_sensor_iterations: "length (concat (map sensor_iteration ps)) = 2 * length ps"
  by (induction ps) (auto simp: sensor_iteration_def)

text \<open>
  The program returns for every argument and every interleaving with a writer, provided the writer's accesses are made from some
  instant on and the kernel lets waits time out; its exit code is 1 exactly without an argument; the writer
  prints 101 lines and stores 100 records, the reader prints 101 lines; any other argument does nothing.
\<close>

theorem sensor_program:
  assumes "mono clk" and "\<forall>k \<ge> k0. 3500 \<le> clk k"
    and "\<forall>k \<ge> k0. futex k 200 200 (Some (timespec_of 500000000)) = FutexETIMEDOUT"
  shows "\<exists>lines. sensor_main futex (sl_mem (sensor_run zero_mem) \<circ> clk) argv = Some (lines, if length argv < 2 then 1 else 0) \<and>
           length lines = (case example_mode argv of Usage \<Rightarrow> 1 | Writer \<Rightarrow> 101 | Reader \<Rightarrow> 101 | Other \<Rightarrow> 0) \<and>
           length (sensor_main_stores argv) = (if example_mode argv = Writer then 100 else 0)"
proof -
  obtain ps where ps: "sensor_reader futex (sl_mem (sensor_run zero_mem) \<circ> clk) = Some ps"
    using sensor_loop_returns [of clk k0 futex 50 0 0] assms by (auto simp: sensor_reader_def)
  have len: "length xs = n" if "sensor_reader_loop futex view n l c = Some xs" for view n l c xs
    using that
  proof (induction n arbitrary: l c xs)
    case (Suc n)
    from sensor_reader_loop_SucD [OF Suc.prems] Suc.IH show ?case by auto
  qed simp
  have "length ps = 50" using len ps by (simp add: sensor_reader_def)
  moreover have "length argv < 2 \<longleftrightarrow> example_mode argv = Usage" by (auto simp: example_mode_def)
  ultimately show ?thesis
    using ps by (cases "example_mode argv") (auto simp: sensor_main_def sensor_main_stores_def length_sensor_iterations)
qed

section \<open>The ring example\<close>

lemma imu_reader_empty:
  "imu_reader clock (\<lambda>_. zero_mem) = Some \<lparr>rp_available = (0, 64), rp_latest = \<lparr>timestamp_ns = 0, sequence = 0, stamped_data = replicate 24 0\<rparr>,
     rp_fresh = False, rp_closest = None, rp_interp = None\<rparr>"
proof -
  let ?rd = "cyclic_reader StampedIMU BUFFER_SIZE (\<lambda>_. zero_mem)"
  have avail: "CyclicBufferReader_available BUFFER_SIZE (\<lambda>_. zero_mem) c = (0, c + 1)" for c
    by (simp add: CyclicBufferReader_available_def BUFFER_SIZE_def CyclicBufferReader_total_writes_ptr_def)
  then have rd: "rd_available ?rd c = (0, c + 1)" for c by (simp add: cyclic_reader_def)
  have obj: "object_of IMUReading_type (replicate 24 0)" and init: "value_init IMUReading_type = replicate 24 0"
    by (simp_all add: object_of_def IMUReading_type_def)
  have latest: "CyclicBufferReader_get_latest StampedIMU BUFFER_SIZE (\<lambda>_. zero_mem) c
      = Some (encode_stamped IMUReading_type (\<lambda>_. 0) \<lparr>timestamp_ns = 0, sequence = 0, stamped_data = replicate 24 0\<rparr>, c + 1)" for c
    by (simp add: CyclicBufferReader_get_latest_def CyclicBufferReader_total_writes_ptr_def StampedIMU_def Stamped_type_def init)
  have "decode_stamped IMUReading_type (encode_stamped IMUReading_type (\<lambda>_. 0) \<lparr>timestamp_ns = 0, sequence = 0, stamped_data = replicate 24 0\<rparr>)
      = \<lparr>timestamp_ns = 0, sequence = 0, stamped_data = replicate 24 0\<rparr>"
    by (rule imu.read_back) (simp add: obj)
  with latest avail rd show ?thesis
    by (simp add: imu_reader_def TimeSeries_available_def TimeSeries_get_latest_def TimeSeries_capacity_def get_latest_if_fresh_def
        find_closest_def find_interpolation_pair_def Let_def BUFFER_SIZE_def)
qed

text \<open>
  The ring example, writer first and reader afterwards, whatever the writer's clock and the reader's: the writer prints its first line, the readings 0, 50, 100 and 150 and
  the total of 200, and exits with 0. A reader started before any writer prints that nothing is available, an all-zero
  newest reading with number 0, which nothing tells from a reading, and "stale"; then nothing.
\<close>

theorem imu_program:
  "(\<exists>lines. imu_main pad now clock view [prog, ''writer''] zero_mem = Some ((lines, 0), snd (imu_writer_loop pad now 200 0 zero_mem)) \<and>
      (\<exists>xs. map fst xs = [0, 50, 100, 150] \<and>
         lines = Imu_writer_started 64 # map (\<lambda>(seq, ts, x). Imu_wrote seq ts x) xs @ [Imu_writer_done 200])) \<and>
   imu_main pad now clock (\<lambda>_. zero_mem) [prog, ''reader''] m
     = Some (([Imu_reader_started, Imu_available 0 64, Imu_latest 0 0, Imu_stale], 0), m) \<and>
   imu_main pad now clock view [prog] m = Some (([Imu_usage prog], 1), m)"
proof (intro conjI)
  obtain xs written m' where w: "imu_writer pad now zero_mem = (xs, written, m')" by (cases "imu_writer pad now zero_mem")
  from imu_writer_prints [OF w] w
  show "\<exists>lines. imu_main pad now clock view [prog, ''writer''] zero_mem = Some ((lines, 0), snd (imu_writer_loop pad now 200 0 zero_mem)) \<and>
      (\<exists>xs. map fst xs = [0, 50, 100, 150] \<and>
         lines = Imu_writer_started 64 # map (\<lambda>(seq, ts, x). Imu_wrote seq ts x) xs @ [Imu_writer_done 200])"
    by (simp add: imu_main_def example_mode_def imu_writer_output_def BUFFER_SIZE_def) (intro exI [of _ xs] conjI; simp)
  show "imu_main pad now clock (\<lambda>_. zero_mem) [prog, ''reader''] m
     = Some (([Imu_reader_started, Imu_available 0 64, Imu_latest 0 0, Imu_stale], 0), m)"
    by (simp add: imu_main_def example_mode_def imu_reader_empty imu_reader_output_def decode_IMUReading_def)
  show "imu_main pad now clock view [prog] m = Some (([Imu_usage prog], 1), m)"
    by (simp add: imu_main_def example_mode_def)
qed

end
