(* ===== verification/Lifecycle_Example.thy ===== *)
theory Lifecycle_Example
  imports Shm_Lifecycle Float_Bits
begin

text \<open>
  \<^verbatim>\<open>examples/lifecycle_example.cpp\<close>: lists the segments, creates an owned one, writes and beats, destroys it and
  removes every segment whose name begins with \<open>example_\<close>. Creating and destroying the file is done by the
  external package \<^verbatim>\<open>shm\<close>, so both are parameters on the directory; so are the bytes mapped, the process
  id, the answer of \<open>kill\<close> and the clock.
\<close>

section \<open>The object\<close>

record Config =
  gain :: rat
  offset :: rat
  mode :: u32

definition Config_type :: ctype where
  "Config_type = flat 24 8"

definition encode_Config :: "(nat \<Rightarrow> byte) \<Rightarrow> Config \<Rightarrow> byte list" where
  "encode_Config pad d =
     le_bytes 8 (double_bits (gain d)) @ le_bytes 8 (double_bits (offset d)) @ le_bytes 4 (mode d) @ map pad [20..<24]"

definition decode_Config :: "byte list \<Rightarrow> Config" where
  "decode_Config bs =
     \<lparr>gain = double_value (le_word (take 8 bs)), offset = double_value (le_word (take 8 (drop 8 bs))),
      mode = le_word (take 4 (drop 16 bs))\<rparr>"

section \<open>The program\<close>

text \<open>What is printed, in order. \<open>Heading\<close> is a line of fixed text.\<close>

datatype lifecycle_line =
    Heading string | Segment string | Created string | Exists bool | Magic u32 | WriterPid "32 word" | Alive bool
  | ConfigLine rat rat u32 | Fresh bool | HeartbeatUpdated | Removing string

record lifecycle_env =
  shm_open :: "string \<Rightarrow> shm_dir \<Rightarrow> shm_dir"
  shm_close :: "string \<Rightarrow> shm_dir \<Rightarrow> shm_dir"
  env_mapped :: mem
  env_pid :: "32 word"
  env_kill :: "32 word \<Rightarrow> kill_rc"
  env_clock :: "nat \<Rightarrow> timespec"   \<comment> \<open>the successive readings\<close>
  env_pad :: "nat \<Rightarrow> byte"

definition example_name :: string where
  "example_name = ''example_lifecycle_config''"

text \<open>The block in which \<open>owned\<close> lives, on the directory that has the segment: the lines and what the segment
  holds when it is destroyed.\<close>

definition owned_block :: "lifecycle_env \<Rightarrow> shm_dir \<Rightarrow> lifecycle_line list \<times> mem" where
  "owned_block env d =
     (let m0 = OwnedShm_construct Config_type (env_pid env) (env_clock env 0) (env_mapped env);
          m1 = store_bytes (encode_Config (env_pad env) \<lparr>gain = 3 / 2, offset = 0, mode = 3\<rparr>) (OwnedShm_data_offset Config_type) m0;
          m2 = OwnedShm_update_heartbeat (env_clock env 1) m1;
          config = decode_Config (OwnedShm_data Config_type m2);
          fresh = is_writer_alive (env_kill env) (env_clock env 2) (OwnedShm_header m2) 1000000000;
          m3 = OwnedShm_update_heartbeat (env_clock env 3) m2
      in ([Created example_name, Exists (shm_exists d example_name), Magic (magic (OwnedShm_header m0)),
          WriterPid (writer_pid (OwnedShm_header m0)),
          Alive (is_writer_alive (env_kill env) (env_clock env 1) (OwnedShm_header m0) 0),
          ConfigLine (gain config) (offset config) (mode config), Fresh fresh, HeartbeatUpdated], m3))"

fun remove_segments :: "string list \<Rightarrow> shm_dir \<Rightarrow> lifecycle_line list \<times> shm_dir" where
  "remove_segments [] d = ([], d)"
| "remove_segments (seg # segs) d =
     (let (lines, d') = remove_segments segs (snd (shm_remove seg d)) in (Removing seg # lines, d'))"

definition lifecycle_main :: "lifecycle_env \<Rightarrow> shm_dir \<Rightarrow> lifecycle_line list \<times> shm_dir" where
  "lifecycle_main env d =
     (let listed = map Segment (shm_list d []);
          d1 = shm_open env example_name d;
          (block, m) = owned_block env d1;
          d2 = shm_close env example_name d1;
          after = [Exists (shm_exists d2 example_name)];
          (removed, d3) = remove_segments (shm_list d2 ''example_'') d2
      in ([Heading ''Existing SHM segments:''] @ listed @ block @ [Heading ''After destruction:''] @ after @
          [Heading ''Looking for stale 'example_' segments:''] @ removed, d3))"

text \<open>What the package does to the directory: opening creates the name if it is not there, and the
  destructor removes it.\<close>

definition segment_files :: "lifecycle_env \<Rightarrow> bool" where
  "segment_files env \<longleftrightarrow>
     (\<forall>n d. dir_opens (shm_open env n d) = dir_opens d \<and> dir_unlinks (shm_open env n d) = dir_unlinks d \<and>
            set (dir_entries (shm_open env n d)) = insert n (set (dir_entries d))) \<and>
     (\<forall>n d. dir_opens (shm_close env n d) = dir_opens d \<and> dir_unlinks (shm_close env n d) = dir_unlinks d \<and>
            set (dir_entries (shm_close env n d)) = set (dir_entries d) - {n})"

section \<open>Lemmas\<close>

lemma wf_Config_type: "wf_ctype Config_type"
  by (simp add: Config_type_def wf_ctype_def) code_simp

lemma representable_three_halves: "representable 53 11 (3 / 2)"
  unfolding representable_def
  by (intro disjI2 exI [of _ 0] exI [of _ "3 * 2 ^ 51"]) (simp add: ieee_bias_def power_int_minus)

lemma length_encode_Config [simp]: "length (encode_Config pad d) = 24"
  by (simp add: encode_Config_def)

lemma decode_encode_Config:
  "representable 53 11 (gain d) \<Longrightarrow> representable 53 11 (offset d) \<Longrightarrow> decode_Config (encode_Config pad d) = d"
  by (simp add: decode_Config_def encode_Config_def)

lemma shm_remove_dir:
  "dir_opens (snd (shm_remove n d)) = dir_opens d" "dir_unlinks (snd (shm_remove n d)) = dir_unlinks d"
  "set (dir_entries (snd (shm_remove n d))) =
     (if n \<noteq> ''.'' \<and> n \<noteq> ''..'' \<and> dir_unlinks d n then set (dir_entries d) - {n} else set (dir_entries d))"
  by (auto simp: shm_remove_eq)

lemma remove_segments_eq:
  "fst (remove_segments segs d) = map Removing segs"
  "set (dir_entries (snd (remove_segments segs d))) =
     set (dir_entries d) - {n \<in> set segs. n \<noteq> ''.'' \<and> n \<noteq> ''..'' \<and> dir_unlinks d n}"
proof (induction segs arbitrary: d)
  case (Cons seg segs)
  { case 1 show ?case using Cons.IH(1) [of "snd (shm_remove seg d)"] by (simp add: split_beta) }
  { case 2 show ?case using Cons.IH(2) [of "snd (shm_remove seg d)"] by (auto simp: split_beta shm_remove_dir split: if_splits) }
qed simp_all

lemma owned_block_lines:
  "fst (owned_block env d) =
     [Created example_name, Exists (shm_exists d example_name), Magic SHM_HEADER_MAGIC, WriterPid (env_pid env),
      Alive (env_kill env (env_pid env) = KillOk), ConfigLine (3 / 2) 0 3,
      Fresh (env_kill env (env_pid env) = KillOk \<and> monotonic_now_ns (env_clock env 2) - monotonic_now_ns (env_clock env 1) \<le> 1000000000),
      HeartbeatUpdated]"
  "OwnedShm_header (snd (owned_block env d)) =
     \<lparr>magic = SHM_HEADER_MAGIC, version = SHM_HEADER_VERSION, heartbeat_ns = monotonic_now_ns (env_clock env 3),
      writer_pid = env_pid env, reserved = replicate 12 0\<rparr>"
proof -
  let ?m0 = "OwnedShm_construct Config_type (env_pid env) (env_clock env 0) (env_mapped env)"
  let ?bs = "encode_Config (env_pad env) \<lparr>gain = 3 / 2, offset = 0, mode = 3\<rparr>"
  let ?m1 = "store_bytes ?bs (OwnedShm_data_offset Config_type) ?m0"
  let ?m2 = "OwnedShm_update_heartbeat (env_clock env 1) ?m1"
  have bs: "object_of Config_type ?bs" by (simp add: object_of_def Config_type_def)
  note h0 = header_of_construct [OF wf_Config_type, of "env_pid env" "env_clock env 0" "env_mapped env"]
  have h2: "OwnedShm_header ?m2 = (OwnedShm_header ?m0)\<lparr>heartbeat_ns := monotonic_now_ns (env_clock env 1)\<rparr>"
    by (simp only: header_of_heartbeat owned_assign(1) [OF wf_Config_type bs])
  have data: "decode_Config (OwnedShm_data Config_type ?m2) = \<lparr>gain = 3 / 2, offset = 0, mode = 3\<rparr>"
    using decode_encode_Config [of "\<lparr>gain = 3 / 2, offset = 0, mode = 3\<rparr>"] representable_three_halves
    by (simp add: data_of_heartbeat [OF wf_Config_type] owned_assign(2) [OF wf_Config_type bs])
  show "fst (owned_block env d) =
     [Created example_name, Exists (shm_exists d example_name), Magic SHM_HEADER_MAGIC, WriterPid (env_pid env),
      Alive (env_kill env (env_pid env) = KillOk), ConfigLine (3 / 2) 0 3,
      Fresh (env_kill env (env_pid env) = KillOk \<and> monotonic_now_ns (env_clock env 2) - monotonic_now_ns (env_clock env 1) \<le> 1000000000),
      HeartbeatUpdated]"
    unfolding owned_block_def Let_def data h2 fst_conv unfolding h0
    by (simp add: is_writer_alive_def monotonic_now_ns_def not_less)
  show "OwnedShm_header (snd (owned_block env d)) =
     \<lparr>magic = SHM_HEADER_MAGIC, version = SHM_HEADER_VERSION, heartbeat_ns = monotonic_now_ns (env_clock env 3),
      writer_pid = env_pid env, reserved = replicate 12 0\<rparr>"
    unfolding owned_block_def Let_def snd_conv header_of_heartbeat owned_assign(1) [OF wf_Config_type bs] h0 by simp
qed

lemma example_prefix: "starts_with n ''example_'' \<Longrightarrow> n \<noteq> ''.'' \<and> n \<noteq> ''..''"
  by (cases n) auto

section \<open>Properties\<close>

text \<open>
  C36. The life-cycle example, on any directory that can be read, from any mapped bytes: all it prints, in order.
  It lists every file there is; between construction and destruction the segment exists with the right magic number
  and process id, and the configuration printed is the one written; "fresh" holds exactly when the process can
  be signalled and the heartbeat is at most a second old; after destruction the segment does not exist. The lines
  about removal name, in the directory's order, the files that begin with \<open>example_\<close>: those there were at
  the start, without the example's own. At the end no segment that may be unlinked begins with \<open>example_\<close>, and
  every other entry is still there.
\<close>

theorem lifecycle_example_correct:
  assumes "segment_files env" and "dir_opens d" and "lifecycle_main env d = (lines, d')"
  shows "lines =
           [Heading ''Existing SHM segments:''] @
           map Segment (filter (\<lambda>n. n \<noteq> ''.'' \<and> n \<noteq> ''..'') (dir_entries d)) @
           [Created example_name, Exists True, Magic SHM_HEADER_MAGIC, WriterPid (env_pid env),
            Alive (env_kill env (env_pid env) = KillOk), ConfigLine (3 / 2) 0 3,
            Fresh (env_kill env (env_pid env) = KillOk \<and>
              monotonic_now_ns (env_clock env 2) - monotonic_now_ns (env_clock env 1) \<le> 1000000000),
            HeartbeatUpdated, Heading ''After destruction:'', Exists False,
            Heading ''Looking for stale 'example_' segments:''] @
           map Removing (filter (\<lambda>n. starts_with n ''example_'')
             (dir_entries (shm_close env example_name (shm_open env example_name d)))) \<and>
         {n. Removing n \<in> set lines} =
           {n \<in> set (dir_entries d). n \<noteq> example_name \<and> starts_with n ''example_''} \<and>
         set (dir_entries d') =
           {n \<in> set (dir_entries d). n \<noteq> example_name \<and> \<not> (starts_with n ''example_'' \<and> dir_unlinks d n)}"
proof -
  define d1 d2 where "d1 = shm_open env example_name d" and "d2 = shm_close env example_name d1"
  let ?segs = "shm_list d2 ''example_''"
  have d1: "shm_exists d1 example_name"
    using assms(1) by (simp add: d1_def segment_files_def shm_exists_iff)
  have d2: "set (dir_entries d2) = set (dir_entries d) - {example_name}" "dir_opens d2" "dir_unlinks d2 = dir_unlinks d"
    using assms(1,2) by (auto simp: d2_def d1_def segment_files_def)
  then have gone: "\<not> shm_exists d2 example_name" by (simp add: shm_exists_iff example_name_def)
  have segs: "?segs = filter (\<lambda>n. starts_with n ''example_'') (dir_entries d2)"
    unfolding shm_list_eq [OF d2(2)] using example_prefix by (intro filter_cong) auto
  have main: "lines = [Heading ''Existing SHM segments:''] @ map Segment (shm_list d []) @ fst (owned_block env d1) @
        [Heading ''After destruction:'', Exists (shm_exists d2 example_name), Heading ''Looking for stale 'example_' segments:''] @
        map Removing ?segs"
      "d' = snd (remove_segments ?segs d2)"
    using assms(3) remove_segments_eq(1) [of ?segs d2]
    by (auto simp: lifecycle_main_def Let_def d1_def d2_def split: prod.splits)
  have "set (dir_entries d') =
      {n \<in> set (dir_entries d). n \<noteq> example_name \<and> \<not> (starts_with n ''example_'' \<and> dir_unlinks d n)}"
    unfolding main(2) remove_segments_eq(2) segs set_filter d2(1,3) using example_prefix by blast
  moreover have "{n. Removing n \<in> set lines} =
      {n \<in> set (dir_entries d). n \<noteq> example_name \<and> starts_with n ''example_''}"
    unfolding main(1) segs owned_block_lines using d2(1) by auto
  moreover have "shm_list d [] = filter (\<lambda>n. n \<noteq> ''.'' \<and> n \<noteq> ''..'') (dir_entries d)"
    using shm_list_eq [OF assms(2), of "[]"] by simp
  ultimately show ?thesis
    unfolding main(1) segs owned_block_lines using d1 gone by (simp add: d1_def d2_def)
qed

section \<open>Witness\<close>

definition lifecycle_demo :: lifecycle_env where
  "lifecycle_demo = \<lparr>shm_open = (\<lambda>n d. d\<lparr>dir_entries := n # dir_entries d\<rparr>),
     shm_close = (\<lambda>n d. d\<lparr>dir_entries := removeAll n (dir_entries d)\<rparr>), env_mapped = zero_mem, env_pid = 42,
     env_kill = (\<lambda>_. KillOk), env_clock = (\<lambda>i. \<lparr>tv_sec = 3, tv_nsec = int i\<rparr>), env_pad = (\<lambda>_. 0)\<rparr>"

theorem lifecycle_example_correct_witness:
  "\<exists>lines d'. lifecycle_main lifecycle_demo
       \<lparr>dir_opens = True, dir_entries = [''.'', ''..'', ''example_old'', ''log''], dir_unlinks = (\<lambda>_. True)\<rparr> = (lines, d') \<and>
     lines = [Heading ''Existing SHM segments:'', Segment ''example_old'', Segment ''log'', Created example_name, Exists True,
       Magic SHM_HEADER_MAGIC, WriterPid 42, Alive True, ConfigLine (3 / 2) 0 3, Fresh True, HeartbeatUpdated,
       Heading ''After destruction:'', Exists False, Heading ''Looking for stale 'example_' segments:'', Removing ''example_old''] \<and>
     set (dir_entries d') = {''.'', ''..'', ''log''}"
proof -
  let ?d = "\<lparr>dir_opens = True, dir_entries = [''.'', ''..'', ''example_old'', ''log''], dir_unlinks = (\<lambda>_. True)\<rparr>"
  obtain lines d' where main: "lifecycle_main lifecycle_demo ?d = (lines, d')" by (metis surj_pair)
  have env: "segment_files lifecycle_demo" by (auto simp: segment_files_def lifecycle_demo_def)
  have "dir_opens ?d" by simp
  note ok = lifecycle_example_correct [OF env this main]
  have ent: "set (dir_entries d') = {''.'', ''..'', ''log''}"
    unfolding ok [THEN conjunct2, THEN conjunct2] set_filter [symmetric] by (simp add: example_name_def)
  have "monotonic_now_ns \<lparr>tv_sec = 3, tv_nsec = 2\<rparr> - monotonic_now_ns \<lparr>tv_sec = 3, tv_nsec = 1\<rparr> \<le> 1000000000"
    by code_simp
  then have "lines = [Heading ''Existing SHM segments:'', Segment ''example_old'', Segment ''log'', Created example_name, Exists True,
       Magic SHM_HEADER_MAGIC, WriterPid 42, Alive True, ConfigLine (3 / 2) 0 3, Fresh True, HeartbeatUpdated,
       Heading ''After destruction:'', Exists False, Heading ''Looking for stale 'example_' segments:'', Removing ''example_old'']"
    unfolding ok [THEN conjunct1] by (simp add: lifecycle_demo_def example_name_def)
  with ent main show ?thesis by blast
qed

end
