(* ===== verification/Benchmarks.thy ===== *)
theory Benchmarks
  imports Seqlock Cyclic_Combined Stamped_Series Storage Double_Buffer Image Float_Bits
begin

text \<open>
  The benchmark programs (\<^verbatim>\<open>bench/benchmark.cpp\<close>, \<^verbatim>\<open>bench/benchmark_competitors.cpp\<close>) as clients of the library.
  The framework \<^verbatim>\<open>nanobench\<close> decides how often a body runs; here that number is a parameter and a run returns what
  every execution of the body hands to \<open>doNotOptimizeAway\<close>; an image is shown whole here, and \<open>Bench_Main\<close> takes its time stamp as the programs do. The locale \<open>benchmark\<close> is what a measurement relies on: the
  body returns, hands over what it is meant to, and can be run again. It is interpreted on the bodies of the
  two programs that use the library.
\<close>

section \<open>Runs\<close>

text \<open>\<open>None\<close> is a body that does not return or fails.\<close>

fun bench_run :: "('s \<Rightarrow> ('v \<times> 's) option) \<Rightarrow> nat \<Rightarrow> 's \<Rightarrow> ('v list \<times> 's) option" where
  "bench_run body 0 s = Some ([], s)"
| "bench_run body (Suc n) s =
     do {
       (v, s) \<leftarrow> body s;
       (vs, s) \<leftarrow> bench_run body n s;
       Some (v # vs, s)
     }"

text \<open>\<open>ready n s\<close>: the body can be run \<open>n\<close> times from \<open>s\<close> on.\<close>

locale benchmark =
  fixes body :: "'s \<Rightarrow> ('v \<times> 's) option"
    and ready :: "nat \<Rightarrow> 's \<Rightarrow> bool"
    and expected :: "'v \<Rightarrow> bool"
  assumes body_ok: "ready (Suc n) s \<Longrightarrow> \<exists>v s'. body s = Some (v, s') \<and> expected v \<and> ready n s'"
begin

lemma run_ok: "ready n s \<Longrightarrow> \<exists>vs s'. bench_run body n s = Some (vs, s') \<and> length vs = n \<and> (\<forall>v \<in> set vs. expected v)"
proof (induction n arbitrary: s)
  case (Suc n)
  obtain v s1 where s1: "body s = Some (v, s1)" "expected v" "ready n s1" using body_ok [OF Suc.prems] by blast
  with Suc.IH [OF s1(3)] show ?case by fastforce
qed simp

end

lemma run_same:
  assumes "\<exists>vs s'. bench_run body n s = Some (vs, s') \<and> length vs = n \<and> (\<forall>v \<in> set vs. v = x)"
  shows "\<exists>s'. bench_run body n s = Some (replicate n x, s')"
proof -
  obtain vs s' where vs: "bench_run body n s = Some (vs, s')" "length vs = n" "\<forall>v \<in> set vs. v = x" using assms by blast
  then have "vs = replicate n x" by (metis replicate_length_same)
  with vs(1) show ?thesis by blast
qed

lemma bench_run_const: "body s = Some (v, s) \<Longrightarrow> bench_run body n s = Some (replicate n v, s)"
  by (induction n) simp_all

section \<open>Payloads\<close>

definition SmallPayload :: ctype where
  "SmallPayload = flat 64 8"

definition MediumPayload :: ctype where
  "MediumPayload = flat 4096 1"

definition LargePayload :: ctype where
  "LargePayload = flat (1024 * 1024) 1"

text \<open>\<open>std::fill(values, x)\<close> of the eight doubles, and \<open>std::memset(data, b)\<close>.\<close>

definition fill_values :: "rat \<Rightarrow> byte list" where
  "fill_values x = concat (replicate 8 (le_bytes 8 (double_bits x)))"

definition memset :: "byte \<Rightarrow> nat \<Rightarrow> byte list" where
  "memset b n = replicate n b"

text \<open>An FHD image with all its pixels bytes set to \<open>b\<close>.\<close>

definition bench_image :: "u64 \<Rightarrow> u64 \<Rightarrow> byte \<Rightarrow> byte list" where
  "bench_image ts frame b =
     encode_image \<lparr>img_timestamp = ts, img_frame_number = frame, img_data = memset b (sizeof ImageFHD_RGB - 16)\<rparr>"

text \<open>The measurements of the two programs: sizes, or type and object, or type, capacity and object.\<close>

definition memcpy_runs :: "nat list" where
  "memcpy_runs = [64, 4096, 1024 * 1024, sizeof ImageFHD_RGB]"

definition competitors_memcpy_runs :: "nat list" where
  "competitors_memcpy_runs = [64, 4096, 1024 * 1024]"

definition shared_memory_runs :: "(ctype \<times> byte list) list" where
  "shared_memory_runs =
     [(SmallPayload, fill_values (round_double (314 / 100))), (MediumPayload, memset 0xCC 4096), (LargePayload, memset 0xDD (1024 * 1024))]"

definition dblbuf_runs :: "(ctype \<times> byte list) list" where
  "dblbuf_runs = [(SmallPayload, fill_values 1), (MediumPayload, memset 0xAA 4096), (LargePayload, memset 0xBB (1024 * 1024))]"

definition dbshm_runs :: "(ctype \<times> byte list) list" where
  "dbshm_runs = [(SmallPayload, fill_values 2), (MediumPayload, memset 0xCC 4096), (LargePayload, memset 0xDD (1024 * 1024))]"

definition dbshm_fhd_run :: "ctype \<times> byte list" where
  "dbshm_fhd_run = (ImageFHD_RGB, bench_image 1 1 0xFF)"

definition seqlock_runs :: "(ctype \<times> byte list) list" where
  "seqlock_runs = [(SmallPayload, fill_values 3), (MediumPayload, memset 0xEE 4096), (LargePayload, memset 0xFF (1024 * 1024))]"

definition seqlock_fhd_run :: "ctype \<times> byte list" where
  "seqlock_fhd_run = (ImageFHD_RGB, bench_image 3 3 0xCC)"

definition seqlock_cmp_run :: "ctype \<times> byte list" where
  "seqlock_cmp_run = (SmallPayload, fill_values 3)"

definition cyclic_runs :: "(ctype \<times> nat \<times> byte list) list" where
  "cyclic_runs = [(SmallPayload, 64, fill_values 1), (MediumPayload, 16, memset 0xAA 4096), (LargePayload, 4, memset 0xBB (1024 * 1024))]"

definition cyclic_fhd_run :: "ctype \<times> nat \<times> byte list" where
  "cyclic_fhd_run = (ImageFHD_RGB, 4, bench_image 1 1 0xFF)"

definition cyclic_cmp_run :: "ctype \<times> nat \<times> byte list" where
  "cyclic_cmp_run = (SmallPayload, 64, fill_values 3)"

lemmas runs_defs =
  shared_memory_runs_def dblbuf_runs_def dbshm_runs_def dbshm_fhd_run_def seqlock_runs_def seqlock_fhd_run_def seqlock_cmp_run_def
  cyclic_runs_def cyclic_fhd_run_def cyclic_cmp_run_def

lemma is_pow2_1_8: "is_pow2 1" "is_pow2 8"
  by code_simp+

lemma wf_payloads: "wf_ctype SmallPayload" "wf_ctype MediumPayload" "wf_ctype LargePayload" "wf_ctype ImageFHD_RGB"
  using is_pow2_1_8 image_sizes(1)
  by (simp_all add: SmallPayload_def MediumPayload_def LargePayload_def ImageFHD_RGB_def Image_type_def wf_ctype_def)

lemma payload_objects:
  "object_of SmallPayload (fill_values x)" "object_of MediumPayload (memset b 4096)"
  "object_of LargePayload (memset b (1024 * 1024))" "object_of ImageFHD_RGB (bench_image ts frame b)"
  by (simp_all add: object_of_def SmallPayload_def MediumPayload_def LargePayload_def memset_def fill_values_def
      length_concat sum_list_replicate bench_image_def encode_image_def image_sizes(1))

lemma runs_ok:
  "\<forall>(T, src) \<in> set shared_memory_runs. wf_ctype T \<and> object_of T src"
  "\<forall>(T, src) \<in> set dblbuf_runs. wf_ctype T \<and> object_of T src"
  "\<forall>(T, src) \<in> set (dbshm_fhd_run # dbshm_runs). wf_ctype T \<and> object_of T src"
  "\<forall>(T, src) \<in> set (seqlock_fhd_run # seqlock_cmp_run # seqlock_runs). wf_ctype T \<and> object_of T src"
  "\<forall>(T, N, src) \<in> set (cyclic_fhd_run # cyclic_cmp_run # cyclic_runs). wf_ctype T \<and> object_of T src"
  unfolding runs_defs
  by (simp_all only: list.set ball_simps prod.case payload_objects wf_payloads simp_thms)

lemma loader_runs_align:
  "\<forall>(T, src) \<in> set dblbuf_runs. alignof T dvd 8" "\<forall>(T, src) \<in> set (dbshm_fhd_run # dbshm_runs). alignof T dvd 8"
  by (simp_all add: runs_defs SmallPayload_def MediumPayload_def LargePayload_def ImageFHD_RGB_def Image_type_def)

lemma capacities_ok: "CyclicBuffer_capacity_ok 64" "CyclicBuffer_capacity_ok 16" "CyclicBuffer_capacity_ok 4"
proof -
  have "is_pow2 64" "is_pow2 16" "is_pow2 4" by code_simp+
  then show "CyclicBuffer_capacity_ok 64" "CyclicBuffer_capacity_ok 16" "CyclicBuffer_capacity_ok 4"
    by (simp_all add: CyclicBuffer_capacity_ok_def)
qed

lemma cyclic_runs_capacity: "\<forall>(T, N, src) \<in> set (cyclic_fhd_run # cyclic_cmp_run # cyclic_runs). CyclicBuffer_capacity_ok N"
  unfolding runs_defs by (simp_all only: list.set ball_simps prod.case capacities_ok simp_thms)

section \<open>Seqlock\<close>

definition seqlock_body :: "ctype \<Rightarrow> byte list \<Rightarrow> mem \<Rightarrow> (byte list \<times> mem) option" where
  "seqlock_body T src m =
     (let m = exec_acts (Seqlock_store T src m) m
      in map_option (\<lambda>(val, _). (val, m)) (Seqlock_load T (\<lambda>_. m) 0))"

definition seqlock_bench_run :: "mem \<Rightarrow> nat \<Rightarrow> ctype \<times> byte list \<Rightarrow> byte list list option" where
  "seqlock_bench_run mapped n = (\<lambda>(T, src). map_option fst (bench_run (seqlock_body T src) n mapped))"

lemma seqlock_body_ok:
  assumes "wf_ctype T" and "object_of T src" and "even (load_u32 m 0)"
  shows "\<exists>m'. seqlock_body T src m = Some (src, m') \<and> even (load_u32 m' 0)"
proof -
  let ?m = "seqlock_stored T src m"
  have len: "length src = sizeof T" using assms(2) by (simp add: object_of_def)
  have m: "exec_acts (Seqlock_store T src m) m = ?m"
    using seqlock_combined_class exec_store by metis
  have "even (load_u32 ?m 0)" using load_seqlock_stored(1) [OF assms(1) len] assms(3) by simp
  moreover from this have "Seqlock_load T (\<lambda>_. ?m) 0 = Some (src, 2 + sizeof T)"
    using load_seqlock_stored [OF assms(1) len, of m] seqlock_combined_class [of T src m "\<lambda>_. ?m" 0]
    by (simp add: SeqlockReader_load_step [of T _ 0])
  ultimately show ?thesis by (simp add: seqlock_body_def m)
qed

interpretation seqlock_bench: benchmark "seqlock_body T src"
  "\<lambda>_ m. wf_ctype T \<and> object_of T src \<and> even (load_u32 m 0)" "\<lambda>v. v = src"
  using seqlock_body_ok by unfold_locales blast

lemma seqlock_bench_run_eq:
  assumes "wf_ctype T \<and> object_of T src"
  shows "seqlock_bench_run zero_mem n (T, src) = Some (replicate n src)"
proof -
  have "\<exists>s'. bench_run (seqlock_body T src) n zero_mem = Some (replicate n src, s')"
    by (rule run_same [OF seqlock_bench.run_ok]) (use assms in simp)
  then show ?thesis by (auto simp: seqlock_bench_run_def)
qed

section \<open>Cyclic buffer\<close>

definition cyclic_body :: "ctype \<Rightarrow> nat \<Rightarrow> byte list \<Rightarrow> mem \<Rightarrow> (byte list \<times> mem) option" where
  "cyclic_body T N src m =
     (let m = exec_acts (CyclicBuffer_insert T N src m) m
      in map_option (\<lambda>(val, _). (val, m)) (CyclicBuffer_get_latest T N (\<lambda>_. m) 0))"

abbreviation bench_buf :: "ctype \<Rightarrow> nat \<Rightarrow> mem \<Rightarrow> cbuf" where
  "bench_buf T N m \<equiv> \<lparr>cb_T = T, cb_N = N, cb_m = m\<rparr>"

text \<open>The bound is that of the 64-bit write counter.\<close>

lemma cyclic_body_ok:
  assumes "cb_ok (bench_buf T N m)" and "object_of T src" and "Suc (cb_count (bench_buf T N m)) < 2 ^ 64"
  shows "\<exists>m'. cyclic_body T N src m = Some (src, m') \<and> cb_ok (bench_buf T N m') \<and>
           cb_count (bench_buf T N m') = Suc (cb_count (bench_buf T N m))"
proof -
  let ?b = "bench_buf T N m"
  let ?m = "cb_m (cb_insert src ?b)"
  have obj: "cb_object ?b src" using assms(2) by (simp add: cb_object_def)
  have b': "bench_buf T N ?m = cb_insert src ?b" by (simp add: cb_insert_def)
  have m: "exec_acts (CyclicBuffer_insert T N src m) m = ?m" by (simp add: cb_insert_def CyclicBuffer_methods)
  have ok: "cb_ok (cb_insert src ?b)" by (rule cb_ok_insert [OF assms(1) obj])
  have "cb_contents (cb_insert src ?b) = take N (src # cb_contents ?b)" using cb_contents_insert [OF assms(1) obj assms(3)] by simp
  moreover have "0 < N" using cb_okD(3) [OF assms(1)] by simp
  ultimately obtain es where "cb_contents (cb_insert src ?b) = src # es" by (cases N) auto
  then have "map_option fst (CyclicBuffer_get_latest T N (\<lambda>_. ?m) 0) = Some src"
    using get_latest_at_rest [OF ok, of 0] by (simp add: CyclicBuffer_methods)
  then obtain c where "CyclicBuffer_get_latest T N (\<lambda>_. ?m) 0 = Some (src, c)" by auto
  then have "cyclic_body T N src m = Some (src, ?m)" by (simp add: cyclic_body_def m)
  then show ?thesis
    using ok cb_count_insert [OF assms(1) obj assms(3)] unfolding b' by (intro exI [of _ ?m]) (simp only: b' simp_thms)
qed

definition cyclic_bench_run :: "mem \<Rightarrow> nat \<Rightarrow> ctype \<times> nat \<times> byte list \<Rightarrow> byte list list option" where
  "cyclic_bench_run mapped n = (\<lambda>(T, N, src). map_option fst (bench_run (cyclic_body T N src) n mapped))"

interpretation cyclic_bench: benchmark "cyclic_body T N src"
  "\<lambda>n m. object_of T src \<and> cb_ok (bench_buf T N m) \<and> cb_count (bench_buf T N m) + n < 2 ^ 64" "\<lambda>v. v = src"
proof
  fix n m
  assume "object_of T src \<and> cb_ok (bench_buf T N m) \<and> cb_count (bench_buf T N m) + Suc n < 2 ^ 64"
  with cyclic_body_ok [of T N m src]
  show "\<exists>v s'. cyclic_body T N src m = Some (v, s') \<and> v = src \<and> object_of T src \<and> cb_ok (bench_buf T N s') \<and>
      cb_count (bench_buf T N s') + n < 2 ^ 64" by fastforce
qed

lemma cyclic_bench_run_eq:
  assumes "wf_ctype T \<and> object_of T src" and "CyclicBuffer_capacity_ok N" and "n < 2 ^ 64"
  shows "cyclic_bench_run zero_mem n (T, N, src) = Some (replicate n src)"
proof -
  have "\<exists>s'. bench_run (cyclic_body T N src) n zero_mem = Some (replicate n src, s')"
    by (rule run_same [OF cyclic_bench.run_ok]) (use assms in \<open>simp add: cb_ok_def cb_count_def\<close>)
  then show ?thesis by (auto simp: cyclic_bench_run_def)
qed

section \<open>Plain memory\<close>

text \<open>\<open>memcpy\<close> between two local arrays: the destination, of which the first byte is handed over.\<close>

definition memcpy_body :: "byte list \<Rightarrow> mem \<Rightarrow> (byte \<times> mem) option" where
  "memcpy_body src dst = (let dst = exec_acts (memcpy_acts 0 src) dst in Some (dst 0, dst))"

definition memcpy_run :: "nat \<Rightarrow> nat \<Rightarrow> byte list option" where
  "memcpy_run n sz = map_option fst (bench_run (memcpy_body (memset 0xAA sz)) n zero_mem)"

definition competitors_memcpy_run :: "nat \<Rightarrow> nat \<Rightarrow> byte list option" where
  "competitors_memcpy_run n sz = map_option fst (bench_run (memcpy_body (memset 0xAA sz)) n zero_mem)"

interpretation memcpy_bench: benchmark "memcpy_body src" "\<lambda>_ _. src \<noteq> []" "\<lambda>v. v = hd src"
proof
  fix n s
  assume "src \<noteq> []"
  then have "store_bytes src 0 s 0 = hd src" by (simp add: store_bytes_def hd_conv_nth)
  with \<open>src \<noteq> []\<close> show "\<exists>v s'. memcpy_body src s = Some (v, s') \<and> v = hd src \<and> src \<noteq> []"
    by (simp add: memcpy_body_def)
qed

text \<open>\<open>SharedMemory<T>\<close>: the assignment to \<open>get()\<close>, and the object read back.\<close>

definition shared_memory_body :: "ctype \<Rightarrow> byte list \<Rightarrow> mem \<Rightarrow> (byte list \<times> mem) option" where
  "shared_memory_body T src m = (let m = SharedMemory_set src m in Some (SharedMemory_get T m, m))"

interpretation shared_memory_bench: benchmark "shared_memory_body T src" "\<lambda>_ _. object_of T src" "\<lambda>v. v = src"
  by unfold_locales (simp add: shared_memory_body_def SharedMemory_get_def SharedMemory_set_def object_of_def mem_simps)

definition shared_memory_run :: "mem \<Rightarrow> nat \<Rightarrow> ctype \<times> byte list \<Rightarrow> byte list list option" where
  "shared_memory_run mapped n = (\<lambda>(T, src). map_option fst (bench_run (shared_memory_body T src) n mapped))"

lemma memcpy_run_eq:
  assumes "0 < sz"
  shows "memcpy_run n sz = Some (replicate n 0xAA)" and "competitors_memcpy_run n sz = Some (replicate n 0xAA)"
proof -
  have "\<exists>s'. bench_run (memcpy_body (memset 0xAA sz)) n zero_mem = Some (replicate n (hd (memset 0xAA sz)), s')"
    by (rule run_same [OF memcpy_bench.run_ok]) (use assms in \<open>simp add: memset_def\<close>)
  then show "memcpy_run n sz = Some (replicate n 0xAA)" "competitors_memcpy_run n sz = Some (replicate n 0xAA)"
    using assms by (auto simp: memcpy_run_def competitors_memcpy_run_def memset_def)
qed

lemma shared_memory_run_eq:
  assumes "object_of T src"
  shows "shared_memory_run mapped n (T, src) = Some (replicate n src)"
proof -
  have "\<exists>s'. bench_run (shared_memory_body T src) n mapped = Some (replicate n src, s')"
    by (rule run_same [OF shared_memory_bench.run_ok]) (use assms in simp)
  then show ?thesis by (auto simp: shared_memory_run_def)
qed

section \<open>Double buffer\<close>

text \<open>
  One execution of the body: the store (one step under the lock, by \<open>Storage\<close> or by \<open>DoubleBufferShm\<close> itself, into the object that
  the loader maps), \<open>load()\<close>, then \<open>n\<close> statements of the background thread, after which \<open>wait()\<close> must be able to
  return, and the snapshot. How far the thread gets in each execution is the list \<open>ns\<close>.
\<close>

definition loader_body :: "ctype \<Rightarrow> byte list \<Rightarrow> nat list \<times> loader runner \<Rightarrow> (byte list \<times> nat list \<times> loader runner) option" where
  "loader_body T src = (\<lambda>(ns, r).
     case ns of
       [] \<Rightarrow> None
     | n # ns \<Rightarrow>
         (case DblBufLoader_load (DoubleBufferShm_store src r) of
            Inl msg \<Rightarrow> None
          | Inr r1 \<Rightarrow>
              let r2 = run_steps (DblBufLoader_task T) n r1
              in if \<not> DblBufLoader_wait_returns r2 then None
                 else case Snapshot_deref (owner r2) of
                        Inl msg \<Rightarrow> None
                      | Inr v \<Rightarrow> Some (v, ns, r2)))"

definition double_buffer_body :: "ctype \<Rightarrow> byte list \<Rightarrow> nat list \<times> loader runner \<Rightarrow> (byte list \<times> nat list \<times> loader runner) option" where
  "double_buffer_body T src = (\<lambda>(ns, r).
     case ns of
       [] \<Rightarrow> None
     | n # ns \<Rightarrow>
         (case DoubleBufferShm_load (DoubleBufferShm_store src r) of
            Inl msg \<Rightarrow> None
          | Inr r1 \<Rightarrow>
              let r2 = run_steps (DoubleBufferShm_task T) n r1
              in if \<not> DoubleBufferShm_wait_returns r2 then None
                 else case Snapshot_deref (owner r2) of
                        Inl msg \<Rightarrow> None
                      | Inr v \<Rightarrow> Some (v, ns, r2)))"

text \<open>The measurements, from the construction on; \<open>shm\<close>, \<open>pre\<close> and \<open>slot\<close> are the addresses of the mapping, of the private
  buffer and of the pointer to the active buffer.\<close>

definition dblbuf_run :: "nat \<Rightarrow> nat \<Rightarrow> nat \<Rightarrow> heap \<Rightarrow> nat list \<Rightarrow> nat \<Rightarrow> ctype \<times> byte list \<Rightarrow> byte list list option" where
  "dblbuf_run shm pre slot h ns n = (\<lambda>(T, src).
     case DblBufLoader_construct T shm pre slot h of
       Inl msg \<Rightarrow> None
     | Inr loader \<Rightarrow> map_option fst (bench_run (loader_body T src) n (ns, loader)))"

definition dbshm_run :: "nat \<Rightarrow> nat \<Rightarrow> nat \<Rightarrow> heap \<Rightarrow> nat list \<Rightarrow> nat \<Rightarrow> ctype \<times> byte list \<Rightarrow> byte list list option" where
  "dbshm_run shm pre slot h ns n = (\<lambda>(T, src).
     case DoubleBufferShm_construct T shm pre slot h of
       Inl msg \<Rightarrow> None
     | Inr loader \<Rightarrow> map_option fst (bench_run (double_buffer_body T src) n (ns, loader)))"

interpretation loader_bench: benchmark "loader_body T src"
  "\<lambda>k (ns, r). loader_ready T r \<and> k \<le> length ns \<and> (\<forall>n \<in> set ns. 6 \<le> n)" "\<lambda>v. v = src"
proof
  fix k and s :: "nat list \<times> loader runner"
  assume ready: "case s of (ns, r) \<Rightarrow> loader_ready T r \<and> Suc k \<le> length ns \<and> (\<forall>n \<in> set ns. 6 \<le> n)"
  then obtain n ns r where s: "s = (n # ns, r)" "loader_ready T r" "k \<le> length ns" "6 \<le> n" "\<forall>n \<in> set ns. 6 \<le> n"
    by (cases s) (auto simp: Suc_le_length_iff)
  from load_wait_ready [OF store_ready(1) [OF s(2)] s(4), of src]
  obtain r1 where "DblBufLoader_load (DoubleBufferShm_store src r) = Inr r1"
    "DblBufLoader_wait_returns (run_steps (DblBufLoader_task T) n r1)"
    "Snapshot_deref (owner (run_steps (DblBufLoader_task T) n r1)) = Inr src"
    "loader_ready T (run_steps (DblBufLoader_task T) n r1)"
    unfolding store_ready(2) by blast
  with s show "\<exists>v s'. loader_body T src s = Some (v, s') \<and> v = src \<and>
      (case s' of (ns, r) \<Rightarrow> loader_ready T r \<and> k \<le> length ns \<and> (\<forall>n \<in> set ns. 6 \<le> n))"
    by (simp add: loader_body_def)
qed

lemma double_buffer_body_eq: "double_buffer_body T src = loader_body T src"
  unfolding double_buffer_body_def loader_body_def DoubleBufferShm_same ..

interpretation double_buffer_bench: benchmark "double_buffer_body T src"
  "\<lambda>k (ns, r). loader_ready T r \<and> k \<le> length ns \<and> (\<forall>n \<in> set ns. 6 \<le> n)" "\<lambda>v. v = src"
  unfolding double_buffer_body_eq by (rule loader_bench.benchmark_axioms)

lemma loader_runs_eq:
  assumes "shm \<noteq> 0" "pre \<noteq> 0" "slot \<noteq> 0" "shm \<noteq> pre" "alignof T dvd shm" "alignof T dvd pre"
    and "n \<le> length ns" "\<forall>k \<in> set ns. 6 \<le> k"
  shows "dblbuf_run shm pre slot h ns n (T, src) = Some (replicate n src)"
    and "dbshm_run shm pre slot h ns n (T, src) = Some (replicate n src)"
proof -
  obtain r where r: "DblBufLoader_construct T shm pre slot h = Inr r" "DoubleBufferShm_construct T shm pre slot h = Inr r"
      "loader_ready T r"
    using construct_ready [OF assms(1-6)] .
  have "\<exists>s'. bench_run (loader_body T src) n (ns, r) = Some (replicate n src, s')"
    by (rule run_same [OF loader_bench.run_ok]) (use r(3) assms(7,8) in simp)
  then show "dblbuf_run shm pre slot h ns n (T, src) = Some (replicate n src)"
    "dbshm_run shm pre slot h ns n (T, src) = Some (replicate n src)"
    by (auto simp: dblbuf_run_def dbshm_run_def r(1,2) double_buffer_body_eq)
qed

section \<open>Time-series lookup\<close>

definition lookup_stamped :: "nat \<Rightarrow> stamped" where
  "lookup_stamped i =
     \<lparr>timestamp_ns = of_nat i * 1000, sequence = of_nat i,
      stamped_data = le_bytes 8 (double_bits (u64_to_double (of_nat i))) @ replicate 56 0\<rparr>"

definition lookup_prefill :: "(nat \<Rightarrow> byte) \<Rightarrow> mem \<Rightarrow> mem" where
  "lookup_prefill pad m =
     fold (\<lambda>i m. exec_acts (CyclicBuffer_insert (Stamped_type SmallPayload) 64 (encode_stamped SmallPayload pad (lookup_stamped i)) m) m)
       [0..<64] m"

abbreviation lookup_reader :: "mem \<Rightarrow> byte list ts_reader" where
  "lookup_reader m \<equiv> cyclic_reader (Stamped_type SmallPayload) 64 (\<lambda>_. m)"

definition closest_body :: "mem \<Rightarrow> (byte list option \<times> mem) option" where
  "closest_body m = map_option (\<lambda>(val, _). (val, m)) (find_closest (lookup_reader m) (StampedKeyExtractor SmallPayload) 32500 None 0)"

definition interp_body :: "mem \<Rightarrow> (byte list InterpPair option \<times> mem) option" where
  "interp_body m = map_option (\<lambda>(val, _). (val, m)) (find_interpolation_pair (lookup_reader m) (StampedKeyExtractor SmallPayload) 32500 0)"

definition fresh_body :: "mem \<Rightarrow> (byte list option \<times> mem) option" where
  "fresh_body m = map_option (\<lambda>(val, _). (val, m)) (get_latest_if_fresh (lookup_reader m) (StampedKeyExtractor SmallPayload) 60000 0)"

interpretation small: stamped_ring SmallPayload 64
  by unfold_locales (rule wf_payloads, rule capacities_ok)

definition lookup_series :: "stamped list" where
  "lookup_series = map lookup_stamped [0..<64]"

lemma lookup_series_nth: "length lookup_series = 64" "i < 64 \<Longrightarrow> lookup_series ! i = lookup_stamped i"
  "lookup_series \<noteq> []" "last lookup_series = lookup_stamped 63"
  by (simp_all add: lookup_series_def last_conv_nth)

lemma lookup_in_ring: "in_ring 64 lookup_series i \<longleftrightarrow> i < 64"
  by (auto simp: in_ring_def lookup_series_nth)

lemma lookup_prefill_eq: "lookup_prefill pad zero_mem = series_mem SmallPayload 64 pad lookup_series"
proof -
  have "fold (\<lambda>i m. exec_acts (CyclicBuffer_insert (Stamped_type SmallPayload) 64 (encode_stamped SmallPayload pad (lookup_stamped i)) m) m)
      [0..<n] zero_mem = series_mem SmallPayload 64 pad (map lookup_stamped [0..<n])" for n
  proof (induction n)
    case (Suc n)
    then show ?case by (simp add: series_buf_snoc) (simp add: cb_insert_def CyclicBuffer_methods)
  qed (simp add: series_buf_def)
  then show ?thesis by (simp only: lookup_prefill_def lookup_series_def)
qed

lemma lookup_stamp: "i < 64 \<Longrightarrow> uint (timestamp_ns (lookup_stamped i)) = 1000 * int i"
proof -
  assume "i < 64"
  then have "unat (of_nat (i * 1000) :: u64) = i * 1000" by (intro unat_of_nat_small) simp
  then show ?thesis by (simp add: lookup_stamped_def uint_nat)
qed

lemma lookup_recordable: "recordable SmallPayload lookup_series"
proof -
  have "timestamp_ns (lookup_stamped i) \<le> timestamp_ns (lookup_stamped j)" if "i < j" "j < 64" for i j
    using that lookup_stamp [of i] lookup_stamp [of j] by (simp add: word_le_def)
  then show ?thesis
    by (auto simp: recordable_def sorted_wrt_iff_nth_less lookup_series_nth(1,2) in_set_conv_nth object_of_def
        lookup_stamped_def [of "_ :: nat"] SmallPayload_def)
qed

abbreviation lookup_encoded :: "(nat \<Rightarrow> byte) \<Rightarrow> nat \<Rightarrow> byte list" where
  "lookup_encoded pad i \<equiv> encode_stamped SmallPayload pad (lookup_stamped i)"

lemma closest_lookup:
  "\<exists>i \<in> {32, 33}. closest_body (lookup_prefill pad zero_mem) = Some (Some (lookup_encoded pad i), lookup_prefill pad zero_mem)"
proof -
  obtain i c' where i: "i < 64"
      "\<forall>j. in_ring 64 lookup_series j \<longrightarrow> key_diff (timestamp_ns (lookup_series ! i)) 32500 \<le> key_diff (timestamp_ns (lookup_series ! j)) 32500"
    and run: "find_closest (lookup_reader (lookup_prefill pad zero_mem)) (StampedKeyExtractor SmallPayload) 32500 None 0
       = Some (Some (encode_stamped SmallPayload pad (lookup_series ! i)), c')"
    using small.series_closest [OF lookup_recordable lookup_series_nth(3), of 32500 pad None 0]
    unfolding lookup_prefill_eq lookup_in_ring by auto
  have "key_diff (timestamp_ns (lookup_series ! i)) 32500 \<le> key_diff (timestamp_ns (lookup_series ! 32)) 32500"
    using i(2) lookup_in_ring [of 32] by simp
  then have "key_diff (timestamp_ns (lookup_stamped i)) 32500 \<le> key_diff (timestamp_ns (lookup_stamped 32)) 32500"
    using i(1) by (simp add: lookup_series_nth)
  then have "\<bar>1000 * int i - 32500\<bar> \<le> \<bar>1000 * int 32 - 32500\<bar>"
    unfolding word_le_def uint_key_diff using lookup_stamp [OF i(1)] lookup_stamp [of 32] by simp
  then have "32 \<le> i" "i \<le> 33" by simp_all
  then have "i = 32 \<or> i = 33" by linarith
  moreover have "closest_body (lookup_prefill pad zero_mem) = Some (Some (lookup_encoded pad i), lookup_prefill pad zero_mem)"
    using run i(1) by (simp add: closest_body_def lookup_series_nth)
  ultimately show ?thesis by auto
qed

lemma half_way: "interp_alpha 32500 32000 33000 = 1 / 2"
proof -
  have "round_binary 53 (500 :: rat) = 500"
    by (rule round_binary_exact [of 8 _ "500 * 2 ^ 44"]) (simp_all add: power_int_def power_divide)
  moreover have "round_binary 53 (1000 :: rat) = 1000"
    by (rule round_binary_exact [of 9 _ "1000 * 2 ^ 43"]) (simp_all add: power_int_def power_divide)
  moreover have "round_binary 53 (1 / 2 :: rat) = 1 / 2"
    by (rule round_binary_exact [of "- 1" _ "2 ^ 52"]) (simp_all add: power_int_def power_divide)
  ultimately show ?thesis by (simp add: interp_alpha_def double_div_def u64_to_double_def round_double_def)
qed

lemma interp_lookup:
  "interp_body (lookup_prefill pad zero_mem)
     = Some (Some \<lparr>before = lookup_encoded pad 32, after = lookup_encoded pad 33, alpha = 1 / 2\<rparr>, lookup_prefill pad zero_mem)"
proof -
  let ?t = "\<lambda>i. timestamp_ns (lookup_stamped i)"
  have range: "\<not> (min (length lookup_series) 64 < 2 \<or> timestamp_ns (last lookup_series) < 32500 \<or>
      32500 < timestamp_ns (lookup_series ! (length lookup_series - min (length lookup_series) 64)))"
    using lookup_stamp [of 63] lookup_stamp [of 0] by (simp add: lookup_series_nth word_less_def)
  obtain p i c' where run: "find_interpolation_pair (lookup_reader (lookup_prefill pad zero_mem)) (StampedKeyExtractor SmallPayload) 32500 0 = Some (Some p, c')"
    and i: "i < 64" "after p = encode_stamped SmallPayload pad (lookup_series ! i)"
    and br: "before p = after p \<and> 32500 = timestamp_ns (lookup_series ! i) \<and> alpha p = 0 \<or>
         0 < i \<and> i - 1 < 64 \<and> before p = encode_stamped SmallPayload pad (lookup_series ! (i - 1)) \<and>
         timestamp_ns (lookup_series ! (i - 1)) \<le> 32500 \<and> 32500 < timestamp_ns (lookup_series ! i) \<and>
         alpha p = interp_alpha 32500 (timestamp_ns (lookup_series ! (i - 1))) (timestamp_ns (lookup_series ! i))"
    using small.series_interpolation [OF lookup_recordable lookup_series_nth(3), of pad 32500 0] range
    unfolding lookup_prefill_eq lookup_in_ring by auto
  have "32500 \<noteq> ?t i"
  proof
    assume "32500 = ?t i"
    then have "uint (32500 :: u64) = 1000 * int i" using lookup_stamp [OF i(1)] by simp
    then show False by simp presburger
  qed
  with br i(1) have i0: "0 < i" and bef: "before p = lookup_encoded pad (i - 1)" and al: "alpha p = interp_alpha 32500 (?t (i - 1)) (?t i)"
    and "?t (i - 1) \<le> 32500" "32500 < ?t i" by (auto simp: lookup_series_nth less_imp_diff_less)
  then have "1000 * int (i - 1) \<le> 32500" "32500 < 1000 * int i"
    using lookup_stamp [OF i(1)] lookup_stamp [of "i - 1"] i(1) by (simp_all add: word_le_def word_less_def)
  then have "32 < i" "i - 1 \<le> 32" by linarith+
  then have i33: "i = 33" by simp
  have "?t 32 = 32000" "?t 33 = 33000" by (simp_all add: lookup_stamped_def)
  moreover note half_way
  ultimately have "p = \<lparr>before = lookup_encoded pad 32, after = lookup_encoded pad 33, alpha = 1 / 2\<rparr>"
    using bef al i(2) i33 by (simp add: lookup_series_nth)
  with run show ?thesis by (simp add: interp_body_def)
qed

lemma fresh_lookup: "fresh_body (lookup_prefill pad zero_mem) = Some (Some (lookup_encoded pad 63), lookup_prefill pad zero_mem)"
proof -
  have "60000 \<le> timestamp_ns (lookup_stamped 63)" using lookup_stamp [of 63] by (simp add: word_le_def)
  then show ?thesis
    using small.series_fresh [OF lookup_recordable lookup_series_nth(3), of pad 60000 0]
    unfolding lookup_prefill_eq fresh_body_def lookup_series_nth(4) by auto
qed

section \<open>Cross-process round trip\<close>

text \<open>
  One execution: \<open>fork\<close>; in the child the store of a record whose first value is \<open>iter\<close>; the parent waits for the
  child, maps a loader of its own on the segment, loads, waits and reads. A step of the schedule says how \<open>fork\<close>
  ended and how far the thread gets: \<open>None\<close> is a child that stores; when \<open>fork\<close> fails nothing is stored, and the loader
  maps \<open>Some\<close> bytes, whatever the external package finds under the name. The child's \<open>store\<close> is that of \<open>Storage\<close>: lock, copy
  byte by byte, unlock. Whether the child's mapping is the file the parent finds later, or one that the package
  has unlinked and created again under the name in between, is up to that package. \<open>shm\<close>, \<open>pre\<close> and \<open>slot\<close> are the
  addresses of the loader's buffers.
\<close>

definition iter_data :: "nat \<Rightarrow> byte list" where
  "iter_data iter = le_bytes 8 (double_bits (int_to_double (int iter))) @ replicate 56 0"

definition cross_process_body ::
    "nat \<Rightarrow> nat \<Rightarrow> nat \<Rightarrow> (byte list option \<times> nat) list \<times> nat \<times> heap \<Rightarrow> (byte list \<times> (byte list option \<times> nat) list \<times> nat \<times> heap) option" where
  "cross_process_body shm pre slot = (\<lambda>(sched, iter, h).
     case sched of
       [] \<Rightarrow> None
     | (found, n) # sched \<Rightarrow>
         do {
           mapped \<leftarrow> (case found of
               None \<Rightarrow> map_option (SharedMemory_get SmallPayload)
                 (Storage_store_alone SmallPayload (iter_data iter) (store_bytes (objs h shm) 0 zero_mem))
             | Some bs \<Rightarrow> Some bs);
           case DblBufLoader_construct SmallPayload shm pre slot (h\<lparr>objs := (objs h)(shm := mapped)\<rparr>) of
              Inl msg \<Rightarrow> None
            | Inr r \<Rightarrow>
                (case DblBufLoader_load r of
                   Inl msg \<Rightarrow> None
                 | Inr r1 \<Rightarrow>
                     let r2 = run_steps (DblBufLoader_task SmallPayload) n r1
                     in if \<not> DblBufLoader_wait_returns r2 then None
                        else case Snapshot_deref (owner r2) of
                               Inl msg \<Rightarrow> None
                             | Inr v \<Rightarrow> Some (v, sched, iter + 1, ld_heap (owner r2)))
         })"

lemma cross_process_step:
  assumes "shm \<noteq> 0" "pre \<noteq> 0" "slot \<noteq> 0" "shm \<noteq> pre" "8 dvd shm" "8 dvd pre" and "6 \<le> n"
  shows "\<exists>h'. cross_process_body shm pre slot ((None, n) # sched, iter, h) = Some (iter_data iter, sched, iter + 1, h')"
proof -
  let ?h = "h\<lparr>objs := (objs h)(shm := iter_data iter)\<rparr>"
  have "alignof SmallPayload dvd shm" "alignof SmallPayload dvd pre" using assms(5,6) by (simp_all add: SmallPayload_def)
  from loader_construct_ok [OF assms(1-4) this, of ?h] obtain r where r: "DblBufLoader_construct SmallPayload shm pre slot ?h = Inr r"
      "shm_object (owner r) = iter_data iter" "loader_ready SmallPayload r"
    by (auto simp: loader_ready_def)
  from load_wait_ready [OF r(3) assms(7)] obtain r1 where "DblBufLoader_load r = Inr r1"
      "DblBufLoader_wait_returns (run_steps (DblBufLoader_task SmallPayload) n r1)"
      "Snapshot_deref (owner (run_steps (DblBufLoader_task SmallPayload) n r1)) = Inr (iter_data iter)"
    unfolding r(2) by blast
  moreover have "length (iter_data iter) = sizeof SmallPayload" by (simp add: iter_data_def SmallPayload_def)
  then have "Storage_store_alone SmallPayload (iter_data iter) m = Some (store_bytes (iter_data iter) 0 m)"
    "SharedMemory_get SmallPayload (store_bytes (iter_data iter) 0 m) = iter_data iter" for m
    by (simp_all add: Storage_store_alone_eq SharedMemory_get_def mem_simps)
  ultimately show ?thesis using r(1) by (simp add: cross_process_body_def Let_def)
qed

lemma cross_process_run:
  assumes "shm \<noteq> 0" "pre \<noteq> 0" "slot \<noteq> 0" "shm \<noteq> pre" "8 dvd shm" "8 dvd pre" and "n \<le> length sched"
    and "\<forall>(found, k) \<in> set sched. found = None \<and> 6 \<le> k"
  shows "\<exists>s'. bench_run (cross_process_body shm pre slot) n (sched, iter, h) = Some (map iter_data [iter..<iter + n], s')"
  using assms(7,8)
proof (induction n arbitrary: sched iter h)
  case (Suc n)
  then obtain k rest where sched: "sched = (None, k) # rest" "6 \<le> k" "n \<le> length rest" "\<forall>(found, k) \<in> set rest. found = None \<and> 6 \<le> k"
    by (cases sched) auto
  obtain h' where h': "cross_process_body shm pre slot (sched, iter, h) = Some (iter_data iter, rest, iter + 1, h')"
    using cross_process_step [OF assms(1-6) sched(2)] unfolding sched(1) by blast
  obtain s' where "bench_run (cross_process_body shm pre slot) n (rest, iter + 1, h') = Some (map iter_data [iter + 1..<iter + 1 + n], s')"
    using Suc.IH [OF sched(3,4)] by blast
  moreover have "[iter..<iter + Suc n] = iter # [iter + 1..<iter + 1 + n]" using upt_conv_Cons [of iter "iter + Suc n"] by simp
  ultimately show ?case using h' by (cases s') (simp del: upt_Suc)
qed simp

section \<open>Properties\<close>

text \<open>
  What the throughput benchmarks measure is what they claim: however often the framework runs the body (fewer than \<open>2^64\<close>
  times), every execution returns, with the object that it has just stored, for each type and object of the two
  programs: through the seqlock, the ring, plain shared memory, the loader on a storage and the double-buffered segment,
  the last two whenever the background thread gets through its round before \<open>wait()\<close>.
\<close>

theorem benchmarks_return_stored_object:
  assumes "n < 2 ^ 64" and "length ns = n" and "\<forall>k \<in> set ns. 6 \<le> k"
    and "shm \<noteq> 0" "pre \<noteq> 0" "slot \<noteq> 0" "shm \<noteq> pre" "8 dvd shm" "8 dvd pre"
  shows "(\<forall>(T, src) \<in> set (seqlock_fhd_run # seqlock_cmp_run # seqlock_runs). seqlock_bench_run zero_mem n (T, src) = Some (replicate n src)) \<and>
         (\<forall>(T, N, src) \<in> set (cyclic_fhd_run # cyclic_cmp_run # cyclic_runs). cyclic_bench_run zero_mem n (T, N, src) = Some (replicate n src)) \<and>
         (\<forall>(T, src) \<in> set shared_memory_runs. shared_memory_run zero_mem n (T, src) = Some (replicate n src)) \<and>
         (\<forall>sz \<in> set memcpy_runs. memcpy_run n sz = Some (replicate n 0xAA)) \<and>
         (\<forall>sz \<in> set competitors_memcpy_runs. competitors_memcpy_run n sz = Some (replicate n 0xAA)) \<and>
         (\<forall>(T, src) \<in> set dblbuf_runs. dblbuf_run shm pre slot h ns n (T, src) = Some (replicate n src)) \<and>
         (\<forall>(T, src) \<in> set (dbshm_fhd_run # dbshm_runs). dbshm_run shm pre slot h ns n (T, src) = Some (replicate n src))"
proof (intro conjI)
  show "\<forall>(T, src) \<in> set (seqlock_fhd_run # seqlock_cmp_run # seqlock_runs). seqlock_bench_run zero_mem n (T, src) = Some (replicate n src)"
    using runs_ok(4) seqlock_bench_run_eq by fast
  show "\<forall>(T, N, src) \<in> set (cyclic_fhd_run # cyclic_cmp_run # cyclic_runs). cyclic_bench_run zero_mem n (T, N, src) = Some (replicate n src)"
    using runs_ok(5) cyclic_runs_capacity cyclic_bench_run_eq [OF _ _ assms(1)] by fast
  show "\<forall>(T, src) \<in> set shared_memory_runs. shared_memory_run zero_mem n (T, src) = Some (replicate n src)"
    using runs_ok(1) shared_memory_run_eq by fast
  show "\<forall>sz \<in> set memcpy_runs. memcpy_run n sz = Some (replicate n 0xAA)"
    "\<forall>sz \<in> set competitors_memcpy_runs. competitors_memcpy_run n sz = Some (replicate n 0xAA)"
    by (simp_all add: memcpy_run_eq memcpy_runs_def competitors_memcpy_runs_def image_sizes(1))
  have align: "alignof T dvd shm" "alignof T dvd pre" if "alignof T dvd 8" for T :: ctype
    using dvd_trans [OF that] assms(8,9) by blast+
  have "n \<le> length ns" using assms(2) by simp
  note runs = loader_runs_eq [OF assms(4-7) align(1) align(2) this assms(3)]
  have eqs: "dblbuf_run shm pre slot h ns n (T, src) = Some (replicate n src)"
    "dbshm_run shm pre slot h ns n (T, src) = Some (replicate n src)" if "alignof T dvd 8" for T src
    by (rule runs; fact that)+
  show "\<forall>(T, src) \<in> set dblbuf_runs. dblbuf_run shm pre slot h ns n (T, src) = Some (replicate n src)"
    "\<forall>(T, src) \<in> set (dbshm_fhd_run # dbshm_runs). dbshm_run shm pre slot h ns n (T, src) = Some (replicate n src)"
    using loader_runs_align eqs by fast+
qed

text \<open>
  The cross-process benchmark: when every \<open>fork\<close> succeeds, the parent reads in each execution the record that the
  child of that execution stored.
\<close>

theorem cross_process_reads_child:
  assumes "shm \<noteq> 0" "pre \<noteq> 0" "slot \<noteq> 0" "shm \<noteq> pre" "8 dvd shm" "8 dvd pre" and "length sched = n"
    and "\<forall>(found, k) \<in> set sched. found = None \<and> 6 \<le> k"
  shows "\<exists>s'. bench_run (cross_process_body shm pre slot) n (sched, 0, h) = Some (map iter_data [0..<n], s')"
  using cross_process_run [OF assms(1-6) _ assms(8), of n 0 h] assms(7) by simp

text \<open>
  The lookup benchmark: on the 64 prefilled elements every search for the key 32500 finds one of the two
  neighbours at distance 500, the interpolation pair is elements 32 and 33 with the factor 1/2, and the newest
  element counts as fresh.
\<close>

theorem lookup_answers:
  "(\<exists>i. (i = 32 \<or> i = 33) \<and> bench_run closest_body n (lookup_prefill pad zero_mem)
      = Some (replicate n (Some (lookup_encoded pad i)), lookup_prefill pad zero_mem)) \<and>
   bench_run interp_body n (lookup_prefill pad zero_mem) = Some (replicate n (Some
      \<lparr>before = lookup_encoded pad 32, after = lookup_encoded pad 33, alpha = 1 / 2\<rparr>), lookup_prefill pad zero_mem) \<and>
   bench_run fresh_body n (lookup_prefill pad zero_mem)
      = Some (replicate n (Some (lookup_encoded pad 63)), lookup_prefill pad zero_mem)"
  using bench_run_const [of interp_body _ _ n, OF interp_lookup] bench_run_const [of fresh_body _ _ n, OF fresh_lookup]
    closest_lookup [of pad] bench_run_const [of closest_body "lookup_prefill pad zero_mem" _ n]
  by blast

section \<open>Witnesses\<close>

theorem benchmarks_return_stored_object_witness:
  "seqlock_bench_run zero_mem 2 seqlock_cmp_run = Some (replicate 2 (fill_values 3)) \<and>
   dbshm_run 8 16 24 heap_demo [6, 7] 2 dbshm_fhd_run = Some (replicate 2 (bench_image 1 1 0xFF))"
proof -
  have "(2::nat) < 2 ^ 64" "length [6, 7::nat] = 2" "\<forall>k \<in> set [6, 7::nat]. 6 \<le> k"
    "(8::nat) \<noteq> 0" "(16::nat) \<noteq> 0" "(24::nat) \<noteq> 0" "(8::nat) \<noteq> 16" "(8::nat) dvd 8" "(8::nat) dvd 16" by simp_all
  note all = benchmarks_return_stored_object [OF this, of heap_demo]
  have "seqlock_bench_run zero_mem 2 seqlock_cmp_run = Some (replicate 2 (snd seqlock_cmp_run))"
    "dbshm_run 8 16 24 heap_demo [6, 7] 2 dbshm_fhd_run = Some (replicate 2 (snd dbshm_fhd_run))"
    using all by (simp_all add: case_prod_beta)
  then show ?thesis by (simp only: seqlock_cmp_run_def dbshm_fhd_run_def snd_conv)
qed

theorem cross_process_reads_child_witness:
  "\<exists>s'. bench_run (cross_process_body 8 16 24) 2 ([(None, 6), (None, 9)], 0, heap_demo) = Some (map iter_data [0..<2], s')"
  by (rule cross_process_reads_child) simp_all

end
