(* ===== verification/Bench_Posix.thy ===== *)
theory Bench_Posix
  imports Benchmarks
begin

text \<open>
  The baselines of the benchmark programs that talk to the kernel directly: the class \<open>RawPosixShm\<close>, pipes, POSIX
  message queues and socket pairs. The kernel is a parameter: a record of the system calls on an
  abstract kernel state \<open>'k\<close>, with what the manual pages promise as hypotheses. A call that blocks for ever is
  \<open>None\<close>; the programs have one thread, so a write that does not fit is never drained.
\<close>

section \<open>RawPosixShm\<close>

datatype shm_error = ShmOpenFailed | FtruncateFailed | MmapFailed

record 'k shm_os =
  os_shm_open :: "string \<Rightarrow> 'k \<Rightarrow> int \<times> 'k"
  os_ftruncate :: "int \<Rightarrow> nat \<Rightarrow> 'k \<Rightarrow> int \<times> 'k"
  os_mmap :: "int \<Rightarrow> nat \<Rightarrow> 'k \<Rightarrow> nat option \<times> 'k"     \<comment> \<open>\<open>None\<close> is \<open>MAP_FAILED\<close>\<close>
  os_munmap :: "nat \<Rightarrow> nat \<Rightarrow> 'k \<Rightarrow> 'k"
  os_close :: "int \<Rightarrow> 'k \<Rightarrow> 'k"
  os_shm_unlink :: "string \<Rightarrow> 'k \<Rightarrow> 'k"

record RawPosixShm =
  raw_name :: string
  raw_size :: nat
  raw_fd :: int
  raw_ptr :: nat

text \<open>The constructor. When it throws, no destructor runs.\<close>

definition RawPosixShm_construct :: "'k shm_os \<Rightarrow> string \<Rightarrow> nat \<Rightarrow> 'k \<Rightarrow> (shm_error + RawPosixShm) \<times> 'k" where
  "RawPosixShm_construct os name sz k =
     (let (fd, k) = os_shm_open os name k
      in if fd < 0 then (Inl ShmOpenFailed, k)
         else let (rc, k) = os_ftruncate os fd sz k
              in if rc < 0 then (Inl FtruncateFailed, k)
                 else let (p, k) = os_mmap os fd sz k
                      in case p of
                           None \<Rightarrow> (Inl MmapFailed, k)
                         | Some ptr \<Rightarrow> (Inr \<lparr>raw_name = name, raw_size = sz, raw_fd = fd, raw_ptr = ptr\<rparr>, k))"

definition RawPosixShm_destruct :: "'k shm_os \<Rightarrow> RawPosixShm \<Rightarrow> 'k \<Rightarrow> 'k" where
  "RawPosixShm_destruct os s k =
     (let k = (if raw_ptr s \<noteq> 0 then os_munmap os (raw_ptr s) (raw_size s) k else k);
          k = (if raw_fd s \<ge> 0 then os_close os (raw_fd s) k else k)
      in os_shm_unlink os (raw_name s) k)"

definition RawPosixShm_get :: "RawPosixShm \<Rightarrow> nat" where
  "RawPosixShm_get s = raw_ptr s"

text \<open>What a kernel state says: the open descriptors, the mappings (address and length) and the names.\<close>

record 'k shm_obs =
  ob_fds :: "'k \<Rightarrow> int set"
  ob_maps :: "'k \<Rightarrow> (nat \<times> nat) set"
  ob_names :: "'k \<Rightarrow> string set"

definition shm_os_spec :: "'k shm_os \<Rightarrow> 'k shm_obs \<Rightarrow> bool" where
  "shm_os_spec os ob \<longleftrightarrow>
     (\<forall>n k fd k'. os_shm_open os n k = (fd, k') \<longrightarrow> ob_maps ob k' = ob_maps ob k \<and>
        (if fd < 0 then ob_fds ob k' = ob_fds ob k \<and> ob_names ob k' = ob_names ob k
         else fd \<notin> ob_fds ob k \<and> ob_fds ob k' = insert fd (ob_fds ob k) \<and> ob_names ob k' = insert n (ob_names ob k))) \<and>
     (\<forall>fd n k rc k'. os_ftruncate os fd n k = (rc, k') \<longrightarrow>
        ob_fds ob k' = ob_fds ob k \<and> ob_maps ob k' = ob_maps ob k \<and> ob_names ob k' = ob_names ob k) \<and>
     (\<forall>fd n k p k'. os_mmap os fd n k = (p, k') \<longrightarrow> ob_fds ob k' = ob_fds ob k \<and> ob_names ob k' = ob_names ob k \<and>
        (case p of None \<Rightarrow> ob_maps ob k' = ob_maps ob k
         | Some a \<Rightarrow> a \<noteq> 0 \<and> (a, n) \<notin> ob_maps ob k \<and> ob_maps ob k' = insert (a, n) (ob_maps ob k))) \<and>
     (\<forall>a n k. ob_maps ob (os_munmap os a n k) = ob_maps ob k - {(a, n)} \<and> ob_fds ob (os_munmap os a n k) = ob_fds ob k \<and>
        ob_names ob (os_munmap os a n k) = ob_names ob k) \<and>
     (\<forall>fd k. ob_fds ob (os_close os fd k) = ob_fds ob k - {fd} \<and> ob_maps ob (os_close os fd k) = ob_maps ob k \<and>
        ob_names ob (os_close os fd k) = ob_names ob k) \<and>
     (\<forall>n k. ob_names ob (os_shm_unlink os n k) = ob_names ob k - {n} \<and> ob_fds ob (os_shm_unlink os n k) = ob_fds ob k \<and>
        ob_maps ob (os_shm_unlink os n k) = ob_maps ob k)"

lemma shm_os_specD:
  assumes "shm_os_spec os ob"
  shows "os_shm_open os n k = (fd, k') \<Longrightarrow> ob_maps ob k' = ob_maps ob k \<and>
      (if fd < 0 then ob_fds ob k' = ob_fds ob k \<and> ob_names ob k' = ob_names ob k
       else fd \<notin> ob_fds ob k \<and> ob_fds ob k' = insert fd (ob_fds ob k) \<and> ob_names ob k' = insert n (ob_names ob k))"
    and "os_ftruncate os fd sz k = (rc, k') \<Longrightarrow>
      ob_fds ob k' = ob_fds ob k \<and> ob_maps ob k' = ob_maps ob k \<and> ob_names ob k' = ob_names ob k"
    and "os_mmap os fd sz k = (p, k') \<Longrightarrow> ob_fds ob k' = ob_fds ob k \<and> ob_names ob k' = ob_names ob k \<and>
      (case p of None \<Rightarrow> ob_maps ob k' = ob_maps ob k
       | Some a \<Rightarrow> a \<noteq> 0 \<and> (a, sz) \<notin> ob_maps ob k \<and> ob_maps ob k' = insert (a, sz) (ob_maps ob k))"
  using assms unfolding shm_os_spec_def by simp_all

lemma shm_os_spec_closing:
  assumes "shm_os_spec os ob"
  shows "ob_maps ob (os_munmap os a n k) = ob_maps ob k - {(a, n)}" "ob_fds ob (os_munmap os a n k) = ob_fds ob k"
    "ob_names ob (os_munmap os a n k) = ob_names ob k" "ob_fds ob (os_close os fd k) = ob_fds ob k - {fd}"
    "ob_maps ob (os_close os fd k) = ob_maps ob k" "ob_names ob (os_close os fd k) = ob_names ob k"
    "ob_names ob (os_shm_unlink os x k) = ob_names ob k - {x}" "ob_fds ob (os_shm_unlink os x k) = ob_fds ob k"
    "ob_maps ob (os_shm_unlink os x k) = ob_maps ob k"
  using assms unfolding shm_os_spec_def by simp_all

section \<open>How a measurement ends\<close>

datatype 'v bench_end = Threw | Skipped | Measured "'v list"

section \<open>The raw copy\<close>

text \<open>The copy into the mapping, of which the first byte is handed over; \<open>ptr\<close> is the memory behind the mapping.\<close>

definition raw_shm_body :: "byte list \<Rightarrow> mem \<Rightarrow> (byte \<times> mem) option" where
  "raw_shm_body src ptr = (let ptr = exec_acts (memcpy_acts 0 src) ptr in Some (ptr 0, ptr))"

text \<open>A measurement with the object \<open>src\<close>; \<open>mapped\<close> is what the new mapping holds. The destructor runs at the end of the block.\<close>

definition raw_shm_object_run :: "'k shm_os \<Rightarrow> mem \<Rightarrow> nat \<Rightarrow> string \<Rightarrow> byte list \<Rightarrow> 'k \<Rightarrow> (byte bench_end \<times> 'k) option" where
  "raw_shm_object_run os mapped n name src k =
     (let (r, k) = RawPosixShm_construct os name (length src) k
      in case r of
           Inl e \<Rightarrow> Some (Threw, k)
         | Inr shm \<Rightarrow>
             do {
               (vs, _) \<leftarrow> bench_run (raw_shm_body src) n mapped;
               Some (Measured vs, RawPosixShm_destruct os shm k)
             })"

definition raw_shm_run :: "'k shm_os \<Rightarrow> mem \<Rightarrow> nat \<Rightarrow> nat \<Rightarrow> 'k \<Rightarrow> (byte bench_end \<times> 'k) option" where
  "raw_shm_run os mapped n sz k = raw_shm_object_run os mapped n ''/bench_raw_posix'' (memset 0xBB sz) k"

definition raw_shm_fhd_run :: "'k shm_os \<Rightarrow> mem \<Rightarrow> nat \<Rightarrow> 'k \<Rightarrow> (byte bench_end \<times> 'k) option" where
  "raw_shm_fhd_run os mapped n k = raw_shm_object_run os mapped n ''/bench_fhd_raw'' (bench_image 2 2 0xAA) k"

definition raw_shm_sizes :: "nat list" where
  "raw_shm_sizes = [64, 4096, 1024 * 1024, sizeof ImageFHD_RGB]"

lemma raw_shm_body_eq: "raw_shm_body = memcpy_body"
  by (simp add: fun_eq_iff raw_shm_body_def memcpy_body_def)

lemma raw_shm_object_run_eq:
  assumes "RawPosixShm_construct os name (length src) k = (r, k')" and "src \<noteq> []"
  shows "raw_shm_object_run os mapped n name src k =
     Some (case r of Inl e \<Rightarrow> (Threw, k') | Inr shm \<Rightarrow> (Measured (replicate n (hd src)), RawPosixShm_destruct os shm k'))"
proof -
  obtain m' where "bench_run (raw_shm_body src) n mapped = Some (replicate n (hd src), m')"
    using run_same [OF memcpy_bench.run_ok, of src n mapped] assms(2) unfolding raw_shm_body_eq by blast
  then show ?thesis using assms(1) by (simp add: raw_shm_object_run_def split: sum.split)
qed

section \<open>Pipes\<close>

record 'k pipe_os =
  os_pipe :: "'k \<Rightarrow> (int \<times> int) option \<times> 'k"
  os_setpipe_sz :: "int \<Rightarrow> nat \<Rightarrow> 'k \<Rightarrow> int \<times> 'k"
  os_write :: "int \<Rightarrow> byte list \<Rightarrow> 'k \<Rightarrow> (int \<times> 'k) option"
  os_read :: "int \<Rightarrow> nat \<Rightarrow> 'k \<Rightarrow> (int \<times> byte list \<times> 'k) option"
  os_pipe_close :: "int \<Rightarrow> 'k \<Rightarrow> 'k"

text \<open>The results of \<open>write\<close> and \<open>read\<close>, and the bytes received.\<close>

definition pipe_body :: "'k pipe_os \<Rightarrow> int \<times> int \<Rightarrow> byte list \<Rightarrow> 'k \<Rightarrow> ((int \<times> int \<times> byte list) \<times> 'k) option" where
  "pipe_body os fds buf k =
     do {
       (w, k) \<leftarrow> os_write os (snd fds) buf k;
       (r, recv, k) \<leftarrow> os_read os (fst fds) (length buf) k;
       Some ((w, r, recv), k)
     }"

text \<open>The measurement, after \<open>pipe()\<close>. The result of \<open>fcntl\<close> is not looked at.\<close>

definition pipe_run :: "'k pipe_os \<Rightarrow> (int \<times> int \<times> byte list) bench_end \<Rightarrow> nat \<Rightarrow> nat \<Rightarrow> 'k \<Rightarrow> ((int \<times> int \<times> byte list) bench_end \<times> 'k) option" where
  "pipe_run os on_failure n sz k =
     (let buf = memset 0xEE sz;
          (p, k) = os_pipe os k
      in case p of
           None \<Rightarrow> Some (on_failure, k)
         | Some fds \<Rightarrow>
             let (_, k) = os_setpipe_sz os (fst fds) (max sz 65536) k
             in do {
               (vs, k) \<leftarrow> bench_run (pipe_body os fds buf) n k;
               Some (Measured vs, os_pipe_close os (snd fds) (os_pipe_close os (fst fds) k))
             })"

definition benchmark_pipe_run :: "'k pipe_os \<Rightarrow> nat \<Rightarrow> nat \<Rightarrow> 'k \<Rightarrow> ((int \<times> int \<times> byte list) bench_end \<times> 'k) option" where
  "benchmark_pipe_run os n sz k = pipe_run os Threw n sz k"

definition competitors_pipe_run :: "'k pipe_os \<Rightarrow> nat \<Rightarrow> nat \<Rightarrow> 'k \<Rightarrow> ((int \<times> int \<times> byte list) bench_end \<times> 'k) option" where
  "competitors_pipe_run os n sz k = pipe_run os Skipped n sz k"

definition pipe_sizes :: "nat list" where
  "pipe_sizes = [64, 4096, 1024 * 1024]"

definition competitors_pipe_sizes :: "nat list" where
  "competitors_pipe_sizes = [64, 4096, 1024 * 1024]"

text \<open>A pipe with contents \<open>bytes k\<close> and capacity \<open>cap k\<close>: an empty one takes a write that fits and blocks one that does not; a
  read takes what is there; \<open>F_SETPIPE_SZ\<close> sets at least the capacity asked for or fails and changes nothing.\<close>

definition pipe_spec :: "'k pipe_os \<Rightarrow> ('k \<Rightarrow> byte list) \<Rightarrow> ('k \<Rightarrow> nat) \<Rightarrow> int \<times> int \<Rightarrow> bool" where
  "pipe_spec os bytes cap fds \<longleftrightarrow>
     (\<forall>bs k. bytes k = [] \<longrightarrow> length bs \<le> cap k \<longrightarrow>
        (\<exists>k'. os_write os (snd fds) bs k = Some (int (length bs), k') \<and> bytes k' = bs \<and> cap k' = cap k)) \<and>
     (\<forall>bs k. bytes k = [] \<longrightarrow> cap k < length bs \<longrightarrow> os_write os (snd fds) bs k = None) \<and>
     (\<forall>n k. bytes k \<noteq> [] \<longrightarrow>
        (\<exists>k'. os_read os (fst fds) n k = Some (int (min n (length (bytes k))), take n (bytes k), k') \<and>
              bytes k' = drop n (bytes k) \<and> cap k' = cap k)) \<and>
     (\<forall>n k rc k'. os_setpipe_sz os (fst fds) n k = (rc, k') \<longrightarrow> bytes k' = bytes k \<and>
        (if rc < 0 then cap k' = cap k else n \<le> cap k'))"

lemma pipe_specD:
  assumes "pipe_spec os bytes cap fds"
  shows "bytes k = [] \<Longrightarrow> length bs \<le> cap k \<Longrightarrow>
        \<exists>k'. os_write os (snd fds) bs k = Some (int (length bs), k') \<and> bytes k' = bs \<and> cap k' = cap k"
    and "bytes k = [] \<Longrightarrow> cap k < length bs \<Longrightarrow> os_write os (snd fds) bs k = None"
    and "bytes k \<noteq> [] \<Longrightarrow> \<exists>k'. os_read os (fst fds) n k = Some (int (min n (length (bytes k))), take n (bytes k), k') \<and>
        bytes k' = drop n (bytes k) \<and> cap k' = cap k"
    and "os_setpipe_sz os (fst fds) n k = (rc, k') \<Longrightarrow> bytes k' = bytes k \<and> (if rc < 0 then cap k' = cap k else n \<le> cap k')"
  using assms unfolding pipe_spec_def by simp_all

interpretation pipe_bench: benchmark "pipe_body os fds buf"
  "\<lambda>_ k. pipe_spec os bytes cap fds \<and> bytes k = [] \<and> buf \<noteq> [] \<and> length buf \<le> cap k"
  "\<lambda>v. v = (int (length buf), int (length buf), buf)"
proof
  fix n :: nat and k
  assume *: "pipe_spec os bytes cap fds \<and> bytes k = [] \<and> buf \<noteq> [] \<and> length buf \<le> cap k"
  then obtain k1 where k1: "os_write os (snd fds) buf k = Some (int (length buf), k1)" "bytes k1 = buf" "cap k1 = cap k"
    using pipe_specD(1) [of os bytes cap fds k buf] by blast
  with * obtain k2 where k2: "os_read os (fst fds) (length buf) k1 = Some (int (length buf), buf, k2)" "bytes k2 = []" "cap k2 = cap k"
    using pipe_specD(3) [of os bytes cap fds k1 "length buf"] by auto
  with k1 * show "\<exists>v k'. pipe_body os fds buf k = Some (v, k') \<and> v = (int (length buf), int (length buf), buf) \<and>
      pipe_spec os bytes cap fds \<and> bytes k' = [] \<and> buf \<noteq> [] \<and> length buf \<le> cap k'"
    by (simp add: pipe_body_def)
qed

lemma pipe_run_cases:
  assumes spec: "pipe_spec os bytes cap fds" and p: "os_pipe os k = (Some fds, k0)" and "bytes k0 = []"
    and sz: "os_setpipe_sz os (fst fds) (max sz 65536) k0 = (rc, k1)" and "0 < sz" "0 < n"
  shows "0 \<le> rc \<or> sz \<le> cap k0 \<Longrightarrow>
      \<exists>k'. pipe_run os on_failure n sz k = Some (Measured (replicate n (int sz, int sz, memset 0xEE sz)), k')"
    and "rc < 0 \<Longrightarrow> cap k0 < sz \<Longrightarrow> pipe_run os on_failure n sz k = None"
proof -
  let ?buf = "memset 0xEE sz"
  have k1: "bytes k1 = []" "if rc < 0 then cap k1 = cap k0 else max sz 65536 \<le> cap k1"
    using pipe_specD(4) [OF spec sz] assms(3) by metis+
  have len: "length ?buf = sz" "?buf \<noteq> []" using assms(5) by (simp_all add: memset_def)
  show "\<exists>k'. pipe_run os on_failure n sz k = Some (Measured (replicate n (int sz, int sz, ?buf)), k')" if "0 \<le> rc \<or> sz \<le> cap k0"
  proof -
    have "sz \<le> cap k1" using that k1(2) by (auto split: if_splits)
    then have "\<exists>s'. bench_run (pipe_body os fds ?buf) n k1 = Some (replicate n (int (length ?buf), int (length ?buf), ?buf), s')"
      by (intro run_same pipe_bench.run_ok [of os bytes cap fds]) (use spec k1 len in simp)
    then show ?thesis by (auto simp: pipe_run_def p sz len(1))
  qed
  show "pipe_run os on_failure n sz k = None" if "rc < 0" "cap k0 < sz"
  proof -
    have "cap k1 < length ?buf" using that k1(2) len by simp
    then have "pipe_body os fds ?buf k1 = None" using pipe_specD(2) [OF spec k1(1)] by (simp add: pipe_body_def)
    then have "bench_run (pipe_body os fds ?buf) n k1 = None" using assms(6) by (cases n) simp_all
    then show ?thesis by (simp add: pipe_run_def p sz)
  qed
qed

section \<open>Socket pairs\<close>

record 'k socket_os =
  os_socketpair :: "'k \<Rightarrow> bool \<times> 'k"
  os_sockopts :: "nat \<Rightarrow> 'k \<Rightarrow> 'k"
  os_send :: "byte list \<Rightarrow> 'k \<Rightarrow> (int \<times> 'k) option"
  os_recv :: "nat \<Rightarrow> 'k \<Rightarrow> (int \<times> byte list \<times> 'k) option"
  os_socket_close :: "'k \<Rightarrow> 'k"

text \<open>The receive loop: total received so far, destination.\<close>

function uds_recv_loop :: "'k socket_os \<Rightarrow> nat \<Rightarrow> nat \<Rightarrow> mem \<Rightarrow> 'k \<Rightarrow> (nat \<times> mem \<times> 'k) option" where
  "uds_recv_loop os sz received dst k =
     (if received < sz then
        do {
          (r, bs, k) \<leftarrow> os_recv os (sz - received) k;
          if r \<le> 0 then Some (received, dst, k)
          else uds_recv_loop os sz (received + nat r) (store_bytes bs received dst) k
        }
      else Some (received, dst, k))"
  by pat_completeness auto

termination
  by (relation "measure (\<lambda>(os, sz, received, dst, k). sz - received)") auto

declare uds_recv_loop.simps [simp del]

text \<open>The result of \<open>send\<close> and the destination array, of which the first byte is handed over.\<close>

definition uds_body :: "'k socket_os \<Rightarrow> byte list \<Rightarrow> mem \<times> 'k \<Rightarrow> ((int \<times> byte) \<times> mem \<times> 'k) option" where
  "uds_body os src = (\<lambda>(dst, k).
     do {
       (w, k) \<leftarrow> os_send os src k;
       (received, dst, k) \<leftarrow> uds_recv_loop os (length src) 0 dst k;
       Some ((w, dst 0), dst, k)
     })"

definition uds_run :: "'k socket_os \<Rightarrow> nat \<Rightarrow> nat \<Rightarrow> 'k \<Rightarrow> ((int \<times> byte) bench_end \<times> 'k) option" where
  "uds_run os n sz k =
     (let (opened, k) = os_socketpair os k
      in if \<not> opened then Some (Skipped, k)
         else let k = os_sockopts os (max (sz * 2) 65536) k; src = memset 0xBB sz
              in do {
                (vs, dst, k) \<leftarrow> bench_run (uds_body os src) n (zero_mem, k);
                Some (Measured vs, os_socket_close os k)
              })"

text \<open>A stream socket with bytes under way \<open>bytes k\<close> and buffer \<open>cap k\<close>: what fits is sent whole, and a receive returns a
  non-empty beginning of what is under way, possibly less than asked for.\<close>

definition socket_spec :: "'k socket_os \<Rightarrow> ('k \<Rightarrow> byte list) \<Rightarrow> ('k \<Rightarrow> nat) \<Rightarrow> bool" where
  "socket_spec os bytes cap \<longleftrightarrow>
     (\<forall>bs k. bytes k = [] \<longrightarrow> length bs \<le> cap k \<longrightarrow>
        (\<exists>k'. os_send os bs k = Some (int (length bs), k') \<and> bytes k' = bs \<and> cap k' = cap k)) \<and>
     (\<forall>n k. bytes k \<noteq> [] \<longrightarrow> 0 < n \<longrightarrow>
        (\<exists>j k'. 0 < j \<and> j \<le> n \<and> j \<le> length (bytes k) \<and> os_recv os n k = Some (int j, take j (bytes k), k') \<and>
                bytes k' = drop j (bytes k) \<and> cap k' = cap k))"

lemma load_bytes_none [simp]: "load_bytes m a 0 = []"
  by (simp add: load_bytes_def)

lemma store_bytes_append:
  "load_bytes dst 0 n = xs \<Longrightarrow> load_bytes (store_bytes bs n dst) 0 (n + length bs) = xs @ bs"
  by (rule nth_equalityI) (auto simp: store_bytes_def nth_append load_bytes_def)

lemma uds_recv_all:
  assumes spec: "socket_spec os bytes cap"
  shows "received \<le> length src \<Longrightarrow> load_bytes dst 0 received = take received src \<Longrightarrow> bytes k = drop received src \<Longrightarrow>
     \<exists>dst' k'. uds_recv_loop os (length src) received dst k = Some (length src, dst', k') \<and>
       load_bytes dst' 0 (length src) = src \<and> bytes k' = [] \<and> cap k' = cap k"
proof (induction "length src - received" arbitrary: received dst k rule: less_induct)
  case less
  show ?case
  proof (cases "received < length src")
    case False
    with less.prems show ?thesis by (subst uds_recv_loop.simps) auto
  next
    case True
    then have "bytes k \<noteq> []" "0 < length src - received" using less.prems(3) by simp_all
    with spec obtain j k1 where j: "0 < j" "j \<le> length src - received" "os_recv os (length src - received) k = Some (int j, take j (bytes k), k1)"
        "bytes k1 = drop j (bytes k)" "cap k1 = cap k"
      unfolding socket_spec_def by blast
    let ?dst = "store_bytes (take j (bytes k)) received dst"
    have len: "length (take j (bytes k)) = j" using less.prems(3) j(2) by simp
    have step: "uds_recv_loop os (length src) received dst k = uds_recv_loop os (length src) (received + j) ?dst k1"
      using True j(1,3) by (subst uds_recv_loop.simps) simp
    have "load_bytes ?dst 0 (received + j) = take received src @ take j (drop received src)"
      using store_bytes_append [OF less.prems(2), of "take j (bytes k)"] len less.prems(3) by simp
    then have "load_bytes ?dst 0 (received + j) = take (received + j) src" by (simp add: take_add)
    moreover have "bytes k1 = drop (received + j) src" using j(4) less.prems(3) by (simp add: add.commute)
    moreover have "length src - (received + j) < length src - received" "received + j \<le> length src" using j(1,2) True by simp_all
    ultimately show ?thesis using less.hyps [of "received + j" ?dst k1] step j(5) by simp
  qed
qed

interpretation uds_bench: benchmark "uds_body os src"
  "\<lambda>_ (dst, k). socket_spec os bytes cap \<and> bytes k = [] \<and> src \<noteq> [] \<and> length src \<le> cap k" "\<lambda>v. v = (int (length src), hd src)"
proof
  fix n :: nat and s :: "mem \<times> 'a"
  assume "case s of (dst, k) \<Rightarrow> socket_spec os bytes cap \<and> bytes k = [] \<and> src \<noteq> [] \<and> length src \<le> cap k"
  then obtain dst k where s: "s = (dst, k)" "socket_spec os bytes cap" "bytes k = []" "src \<noteq> []" "length src \<le> cap k" by (cases s) auto
  then obtain k1 where k1: "os_send os src k = Some (int (length src), k1)" "bytes k1 = src" "cap k1 = cap k"
    unfolding socket_spec_def by blast
  with uds_recv_all [OF s(2), of 0 src dst k1] obtain dst' k' where
      r: "uds_recv_loop os (length src) 0 dst k1 = Some (length src, dst', k')" "load_bytes dst' 0 (length src) = src"
        "bytes k' = []" "cap k' = cap k" by auto
  have "dst' 0 = load_bytes dst' 0 (length src) ! 0" using s(4) by (simp add: load_bytes_def)
  then have "dst' 0 = hd src" using r(2) s(4) by (simp add: hd_conv_nth)
  with s k1 r show "\<exists>v s'. uds_body os src s = Some (v, s') \<and> v = (int (length src), hd src) \<and>
      (case s' of (dst, k) \<Rightarrow> socket_spec os bytes cap \<and> bytes k = [] \<and> src \<noteq> [] \<and> length src \<le> cap k)"
    by (simp add: uds_body_def)
qed

section \<open>Message queues\<close>

record 'k mq_os =
  os_mq_unlink :: "'k \<Rightarrow> 'k"
  os_mq_open :: "nat \<Rightarrow> nat \<Rightarrow> 'k \<Rightarrow> bool \<times> 'k"     \<comment> \<open>\<open>mq_maxmsg\<close> and \<open>mq_msgsize\<close>\<close>
  os_mq_send :: "byte list \<Rightarrow> 'k \<Rightarrow> (int \<times> 'k) option"
  os_mq_receive :: "nat \<Rightarrow> 'k \<Rightarrow> (int \<times> byte list \<times> 'k) option"
  os_mq_close :: "'k \<Rightarrow> 'k"

text \<open>Neither result is looked at; when \<open>mq_receive\<close> fails the destination keeps what it held.\<close>

definition mq_body :: "'k mq_os \<Rightarrow> byte list \<Rightarrow> mem \<times> 'k \<Rightarrow> (byte \<times> mem \<times> 'k) option" where
  "mq_body os src = (\<lambda>(dst, k).
     do {
       (_, k) \<leftarrow> os_mq_send os src k;
       (r, bs, k) \<leftarrow> os_mq_receive os (length src) k;
       let dst = (if r < 0 then dst else store_bytes bs 0 dst);
       Some (dst 0, dst, k)
     })"

definition mq_run :: "'k mq_os \<Rightarrow> nat \<Rightarrow> nat \<Rightarrow> 'k \<Rightarrow> (byte bench_end \<times> 'k) option" where
  "mq_run os n sz k =
     (let k = os_mq_unlink os k;
          (opened, k) = os_mq_open os 1 sz k
      in if \<not> opened then Some (Skipped, k)
         else do {
           (vs, dst, k) \<leftarrow> bench_run (mq_body os (memset 0xAA sz)) n (zero_mem, k);
           Some (Measured vs, os_mq_unlink os (os_mq_close os k))
         })"

text \<open>A queue of one message of up to \<open>cap k\<close> bytes.\<close>

definition mq_spec :: "'k mq_os \<Rightarrow> ('k \<Rightarrow> byte list option) \<Rightarrow> ('k \<Rightarrow> nat) \<Rightarrow> bool" where
  "mq_spec os msg cap \<longleftrightarrow>
     (\<forall>bs k. msg k = None \<longrightarrow> length bs \<le> cap k \<longrightarrow>
        (\<exists>k'. os_mq_send os bs k = Some (0, k') \<and> msg k' = Some bs \<and> cap k' = cap k)) \<and>
     (\<forall>n k bs. msg k = Some bs \<longrightarrow> cap k \<le> n \<longrightarrow>
        (\<exists>k'. os_mq_receive os n k = Some (int (length bs), bs, k') \<and> msg k' = None \<and> cap k' = cap k))"

interpretation mq_bench: benchmark "mq_body os src"
  "\<lambda>_ (dst, k). mq_spec os msg cap \<and> msg k = None \<and> src \<noteq> [] \<and> cap k = length src" "\<lambda>v. v = hd src"
proof
  fix n :: nat and s :: "mem \<times> 'a"
  assume "case s of (dst, k) \<Rightarrow> mq_spec os msg cap \<and> msg k = None \<and> src \<noteq> [] \<and> cap k = length src"
  then obtain dst k where s: "s = (dst, k)" "mq_spec os msg cap" "msg k = None" "src \<noteq> []" "cap k = length src" by (cases s) auto
  then have "length src \<le> cap k" by simp
  with s obtain k1 where k1: "os_mq_send os src k = Some (0, k1)" "msg k1 = Some src" "cap k1 = cap k"
    unfolding mq_spec_def by blast
  then have "cap k1 \<le> length src" using s(5) by simp
  with s k1 obtain k2 where k2: "os_mq_receive os (length src) k1 = Some (int (length src), src, k2)" "msg k2 = None" "cap k2 = cap k"
    unfolding mq_spec_def by metis
  have "store_bytes src 0 dst 0 = hd src" using s(4) by (simp add: store_bytes_def hd_conv_nth)
  with s k1 k2 show "\<exists>v s'. mq_body os src s = Some (v, s') \<and> v = hd src \<and>
      (case s' of (dst, k) \<Rightarrow> mq_spec os msg cap \<and> msg k = None \<and> src \<noteq> [] \<and> cap k = length src)"
    by (simp add: mq_body_def)
qed

definition uds_sizes :: "nat list" where
  "uds_sizes = [64, 4096]"

definition mq_sizes :: "nat list" where
  "mq_sizes = [64, 4096]"

section \<open>The measurements of the programs\<close>

lemma memset_nonempty: "0 < n \<Longrightarrow> memset b n \<noteq> []" "0 < n \<Longrightarrow> hd (memset b n) = b" "length (memset b n) = n"
  by (simp_all add: memset_def)

lemma raw_shm_run_measures:
  assumes "sz \<in> set raw_shm_sizes" and "RawPosixShm_construct os ''/bench_raw_posix'' sz k = (Inr shm, k')"
  shows "raw_shm_run os mapped n sz k = Some (Measured (replicate n 0xBB), RawPosixShm_destruct os shm k')"
proof -
  have "0 < sz" using assms(1) by (auto simp: raw_shm_sizes_def image_sizes(1))
  then show ?thesis
    using raw_shm_object_run_eq [where src = "memset 0xBB sz", unfolded memset_nonempty(3), OF assms(2)]
    by (simp add: raw_shm_run_def memset_nonempty)
qed

text \<open>Of the image the first byte is the low byte of its time stamp.\<close>

lemma raw_shm_fhd_measures:
  assumes "RawPosixShm_construct os ''/bench_fhd_raw'' (sizeof ImageFHD_RGB) k = (Inr shm, k')"
  shows "raw_shm_fhd_run os mapped n k = Some (Measured (replicate n 2), RawPosixShm_destruct os shm k')"
proof -
  have "length (bench_image 2 2 0xAA) = sizeof ImageFHD_RGB" using payload_objects(4) by (simp add: object_of_def)
  moreover have "hd (bench_image 2 2 0xAA) = 2" "bench_image 2 2 0xAA \<noteq> []"
    by (simp_all add: bench_image_def encode_image_def le_bytes_def upt_rec byte_of_def)
  ultimately show ?thesis
    using raw_shm_object_run_eq [where src = "bench_image 2 2 0xAA" and r = "Inr shm"] assms
    by (simp add: raw_shm_fhd_run_def)
qed

lemma uds_run_measures:
  assumes "socket_spec os bytes cap" and "os_socketpair os k = (True, k0)" and "sz \<in> set uds_sizes"
    and "bytes (os_sockopts os (max (sz * 2) 65536) k0) = []" and "sz \<le> cap (os_sockopts os (max (sz * 2) 65536) k0)"
  shows "\<exists>k'. uds_run os n sz k = Some (Measured (replicate n (int sz, 0xBB)), k')"
proof -
  let ?k = "os_sockopts os (max (sz * 2) 65536) k0"
  have "0 < sz" using assms(3) by (auto simp: uds_sizes_def)
  then have "\<exists>s'. bench_run (uds_body os (memset 0xBB sz)) n (zero_mem, ?k) =
      Some (replicate n (int (length (memset 0xBB sz)), hd (memset 0xBB sz)), s')"
    by (intro run_same uds_bench.run_ok [of os bytes cap]) (use assms in \<open>simp add: memset_nonempty\<close>)
  with \<open>0 < sz\<close> obtain dst' k' where
      "bench_run (uds_body os (memset 0xBB sz)) n (zero_mem, ?k) = Some (replicate n (int sz, 0xBB), dst', k')"
    by (auto simp: memset_nonempty)
  then show ?thesis using assms(2) by (simp add: uds_run_def)
qed

lemma mq_run_measures:
  assumes "mq_spec os msg cap" and "os_mq_open os 1 sz (os_mq_unlink os k) = (True, k0)" and "sz \<in> set mq_sizes"
    and "msg k0 = None" and "cap k0 = sz"
  shows "\<exists>k'. mq_run os n sz k = Some (Measured (replicate n 0xAA), os_mq_unlink os (os_mq_close os k'))"
proof -
  have "0 < sz" using assms(3) by (auto simp: mq_sizes_def)
  then have "\<exists>s'. bench_run (mq_body os (memset 0xAA sz)) n (zero_mem, k0) = Some (replicate n (hd (memset 0xAA sz)), s')"
    by (intro run_same mq_bench.run_ok [of os msg cap]) (use assms in \<open>simp add: memset_nonempty\<close>)
  with \<open>0 < sz\<close> obtain dst' k' where "bench_run (mq_body os (memset 0xAA sz)) n (zero_mem, k0) = Some (replicate n 0xAA, dst', k')"
    by (auto simp: memset_nonempty)
  then show ?thesis using assms(2) by (auto simp: mq_run_def)
qed

lemma pipe_runs_agree:
  "os_pipe os k = (Some fds, k0) \<Longrightarrow> competitors_pipe_run os n sz k = benchmark_pipe_run os n sz k"
  "os_pipe os k = (None, k0) \<Longrightarrow> benchmark_pipe_run os n sz k = Some (Threw, k0)"
  "os_pipe os k = (None, k0) \<Longrightarrow> competitors_pipe_run os n sz k = Some (Skipped, k0)"
  by (simp_all add: competitors_pipe_run_def benchmark_pipe_run_def pipe_run_def)

section \<open>Properties\<close>

text \<open>
  \<open>RawPosixShm\<close> and the resources of the process. A constructed object has its segment open and mapped, and its
  destructor gives everything back: descriptors and mappings are those from before, the name is gone. A constructor that throws because
  \<open>shm_open\<close> failed has changed nothing; one that throws because \<open>ftruncate\<close> or \<open>mmap\<close> failed leaves a new
  descriptor open and the name in the directory, since no destructor runs.
\<close>

theorem raw_shm_resources:
  assumes spec: "shm_os_spec os ob" and "RawPosixShm_construct os name sz k = (r, k')"
  shows "case r of
      Inr s \<Rightarrow> ob_fds ob (RawPosixShm_destruct os s k') = ob_fds ob k \<and> ob_maps ob (RawPosixShm_destruct os s k') = ob_maps ob k \<and>
        ob_names ob (RawPosixShm_destruct os s k') = ob_names ob k - {name} \<and>
        (RawPosixShm_get s, sz) \<in> ob_maps ob k' \<and> raw_fd s \<in> ob_fds ob k'
    | Inl ShmOpenFailed \<Rightarrow> ob_fds ob k' = ob_fds ob k \<and> ob_maps ob k' = ob_maps ob k \<and> ob_names ob k' = ob_names ob k
    | Inl _ \<Rightarrow> (\<exists>fd. fd \<notin> ob_fds ob k \<and> ob_fds ob k' = insert fd (ob_fds ob k)) \<and> name \<in> ob_names ob k' \<and> ob_maps ob k' = ob_maps ob k"
proof -
  obtain fd k1 where o: "os_shm_open os name k = (fd, k1)" by (cases "os_shm_open os name k")
  obtain rc k2 where t: "os_ftruncate os fd sz k1 = (rc, k2)" by (cases "os_ftruncate os fd sz k1")
  obtain p k3 where m: "os_mmap os fd sz k2 = (p, k3)" by (cases "os_mmap os fd sz k2")
  have r: "(r, k') = (if fd < 0 then (Inl ShmOpenFailed, k1) else if rc < 0 then (Inl FtruncateFailed, k2)
      else case p of None \<Rightarrow> (Inl MmapFailed, k3)
        | Some ptr \<Rightarrow> (Inr \<lparr>raw_name = name, raw_size = sz, raw_fd = fd, raw_ptr = ptr\<rparr>, k3))"
    using assms(2) [symmetric] unfolding RawPosixShm_construct_def o Let_def split_conv t m by simp
  note O = shm_os_specD(1) [OF spec o] and T = shm_os_specD(2) [OF spec t] and M = shm_os_specD(3) [OF spec m]
  show ?thesis
  proof (cases p)
    case None
    with r O T M show ?thesis by (auto split: if_splits)
  next
    case (Some a)
    with r O T M show ?thesis
      by (auto simp: RawPosixShm_destruct_def RawPosixShm_get_def shm_os_spec_closing [OF spec] split: if_splits)
  qed
qed

text \<open>
  The pipe benchmark. When \<open>fcntl\<close> could set the capacity, or the message fits anyway, every execution transfers the
  whole message. When \<open>fcntl\<close> fails, which the program does not notice, and the message is larger than the pipe, the first
  \<open>write\<close> blocks and the program never ends.
\<close>

theorem pipe_benchmark_ends:
  assumes "pipe_spec os bytes cap fds" and "os_pipe os k = (Some fds, k0)" and "bytes k0 = []"
    and "os_setpipe_sz os (fst fds) (max sz 65536) k0 = (rc, k1)" and "sz \<in> set pipe_sizes" "0 < n"
  shows "(\<exists>k'. benchmark_pipe_run os n sz k = Some (Measured (replicate n (int sz, int sz, memset 0xEE sz)), k'))
           = (0 \<le> rc \<or> sz \<le> cap k0) \<and>
         (benchmark_pipe_run os n sz k = None) = (rc < 0 \<and> cap k0 < sz)"
proof -
  have "0 < sz" using assms(5) by (auto simp: pipe_sizes_def)
  from pipe_run_cases [OF assms(1-4) this assms(6), of Threw] show ?thesis
    unfolding benchmark_pipe_run_def by (metis linorder_not_le not_Some_eq)
qed

text \<open>
  The socket benchmark reassembles the message, whatever pieces the stream arrives in: the receive loop ends
  with all bytes in the destination, in order, and nothing left under way, so every execution hands over
  the first byte of the message.
\<close>

theorem uds_reassembles:
  assumes "socket_spec os bytes cap" and "bytes k = []" and "src \<noteq> []" and "length src \<le> cap k"
  shows "(\<exists>k1 dst' k'. os_send os src k = Some (int (length src), k1) \<and>
            uds_recv_loop os (length src) 0 dst k1 = Some (length src, dst', k') \<and> load_bytes dst' 0 (length src) = src \<and> bytes k' = []) \<and>
         (\<exists>s'. bench_run (uds_body os src) n (dst, k) = Some (replicate n (int (length src), hd src), s'))"
proof
  from assms obtain k1 where k1: "os_send os src k = Some (int (length src), k1)" "bytes k1 = src" "cap k1 = cap k"
    unfolding socket_spec_def by blast
  with uds_recv_all [OF assms(1), of 0 src dst k1]
  show "\<exists>k1 dst' k'. os_send os src k = Some (int (length src), k1) \<and>
      uds_recv_loop os (length src) 0 dst k1 = Some (length src, dst', k') \<and> load_bytes dst' 0 (length src) = src \<and> bytes k' = []"
    by auto
  show "\<exists>s'. bench_run (uds_body os src) n (dst, k) = Some (replicate n (int (length src), hd src), s')"
    by (rule run_same [OF uds_bench.run_ok [of os bytes cap]]) (use assms in simp)
qed

section \<open>Witnesses\<close>

text \<open>A kernel with one descriptor and one mapping to give away, in which files have at most 100 bytes.\<close>

type_synonym shm_demo = "int set \<times> (nat \<times> nat) set \<times> string set"

definition shm_os_demo :: "shm_demo shm_os" where
  "shm_os_demo =
     \<lparr>os_shm_open = (\<lambda>n (F, M, S). if 3 \<in> F then (- 1, (F, M, S)) else (3, (insert 3 F, M, insert n S))),
      os_ftruncate = (\<lambda>fd n k. (if 100 < n then - 1 else 0, k)),
      os_mmap = (\<lambda>fd n (F, M, S). if (4096, n) \<in> M then (None, (F, M, S)) else (Some 4096, (F, insert (4096, n) M, S))),
      os_munmap = (\<lambda>a n (F, M, S). (F, M - {(a, n)}, S)),
      os_close = (\<lambda>fd (F, M, S). (F - {fd}, M, S)),
      os_shm_unlink = (\<lambda>n (F, M, S). (F, M, S - {n}))\<rparr>"

definition shm_obs_demo :: "shm_demo shm_obs" where
  "shm_obs_demo = \<lparr>ob_fds = (\<lambda>(F, M, S). F), ob_maps = (\<lambda>(F, M, S). M), ob_names = (\<lambda>(F, M, S). S)\<rparr>"

lemma shm_os_demo_spec: "shm_os_spec shm_os_demo shm_obs_demo"
  by (auto simp: shm_os_spec_def shm_os_demo_def shm_obs_demo_def split: if_splits)

theorem raw_shm_resources_witness:
  "(\<exists>s k'. RawPosixShm_construct shm_os_demo ''/x'' 64 ({}, {}, {}) = (Inr s, k') \<and>
      ob_fds shm_obs_demo (RawPosixShm_destruct shm_os_demo s k') = {} \<and> ob_names shm_obs_demo (RawPosixShm_destruct shm_os_demo s k') = {}) \<and>
   (\<exists>k'. RawPosixShm_construct shm_os_demo ''/x'' 200 ({}, {}, {}) = (Inl FtruncateFailed, k') \<and>
      ob_fds shm_obs_demo k' \<noteq> {} \<and> ''/x'' \<in> ob_names shm_obs_demo k')"
proof -
  obtain s k' where ok: "RawPosixShm_construct shm_os_demo ''/x'' 64 ({}, {}, {}) = (Inr s, k')"
    by (simp add: RawPosixShm_construct_def shm_os_demo_def)
  obtain k'' where bad: "RawPosixShm_construct shm_os_demo ''/x'' 200 ({}, {}, {}) = (Inl FtruncateFailed, k'')"
    by (simp add: RawPosixShm_construct_def shm_os_demo_def)
  have "ob_fds shm_obs_demo ({}, {}, {}) = {}" "ob_names shm_obs_demo ({}, {}, {}) = {}" by (simp_all add: shm_obs_demo_def)
  with raw_shm_resources [OF shm_os_demo_spec ok] raw_shm_resources [OF shm_os_demo_spec bad] ok bad show ?thesis by auto
qed

text \<open>A pipe of 65536 bytes whose capacity cannot be raised.\<close>

definition pipe_os_demo :: "(byte list \<times> nat) pipe_os" where
  "pipe_os_demo =
     \<lparr>os_pipe = (\<lambda>_. (Some (3, 4), ([], 65536))),
      os_setpipe_sz = (\<lambda>fd n k. (if n \<le> snd k then 0 else - 1, k)),
      os_write = (\<lambda>fd bs (d, c). if d = [] \<and> length bs \<le> c then Some (int (length bs), (bs, c)) else None),
      os_read = (\<lambda>fd n (d, c). if d = [] then None else Some (int (min n (length d)), take n d, (drop n d, c))),
      os_pipe_close = (\<lambda>fd k. k)\<rparr>"

lemma pipe_os_demo_spec: "pipe_spec pipe_os_demo fst snd (3, 4)"
  by (auto simp: pipe_spec_def pipe_os_demo_def split: if_splits)

theorem pipe_benchmark_ends_witness:
  "(\<exists>k'. benchmark_pipe_run pipe_os_demo 5 64 ([], 0) = Some (Measured (replicate 5 (64, 64, memset 0xEE 64)), k')) \<and>
   benchmark_pipe_run pipe_os_demo 5 1048576 ([], 0) = None"
proof -
  have p: "os_pipe pipe_os_demo ([], 0) = (Some (3, 4), ([], 65536))" by (simp add: pipe_os_demo_def)
  have s: "os_setpipe_sz pipe_os_demo (fst (3, 4)) (max 64 65536) ([], 65536) = (0, ([], 65536))"
    "os_setpipe_sz pipe_os_demo (fst (3, 4)) (max 1048576 65536) ([], 65536) = (- 1, ([], 65536))"
    by (simp_all add: pipe_os_demo_def)
  show ?thesis
    using pipe_benchmark_ends [OF pipe_os_demo_spec p _ s(1), of 5] pipe_benchmark_ends [OF pipe_os_demo_spec p _ s(2), of 5]
    by (simp add: pipe_sizes_def)
qed

text \<open>A socket that delivers one byte at a time.\<close>

definition socket_os_demo :: "(byte list \<times> nat) socket_os" where
  "socket_os_demo =
     \<lparr>os_socketpair = (\<lambda>k. (True, k)), os_sockopts = (\<lambda>n (d, c). (d, n)),
      os_send = (\<lambda>bs (d, c). if length bs \<le> c then Some (int (length bs), (bs, c)) else None),
      os_recv = (\<lambda>n (d, c). if d = [] then None else Some (1, take 1 d, (drop 1 d, c))),
      os_socket_close = (\<lambda>k. k)\<rparr>"

lemma socket_os_demo_spec: "socket_spec socket_os_demo fst snd"
proof -
  have "\<exists>j k'. 0 < j \<and> j \<le> n \<and> j \<le> length (fst k) \<and> os_recv socket_os_demo n k = Some (int j, take j (fst k), k') \<and>
      fst k' = drop j (fst k) \<and> snd k' = snd k" if "fst k \<noteq> []" "0 < n" for n k
    using that by (intro exI [of _ 1]) (cases k, auto simp: socket_os_demo_def Suc_le_eq)
  then show ?thesis by (auto simp: socket_spec_def) (simp add: socket_os_demo_def)
qed

theorem uds_reassembles_witness:
  "\<exists>k1 dst' k'. os_send socket_os_demo [7, 8, 9] ([], 100) = Some (3, k1) \<and>
     uds_recv_loop socket_os_demo 3 0 zero_mem k1 = Some (3, dst', k') \<and> load_bytes dst' 0 3 = [7, 8, 9]"
  using uds_reassembles [OF socket_os_demo_spec, of "([], 100)" "[7, 8, 9]" zero_mem 2] by (auto simp: numeral_3_eq_3)

end
