(* ===== verification/Bench_Main.thy ===== *)
theory Bench_Main
  imports Bench_Posix
begin

text \<open>
  The two benchmark programs as a whole (\<open>main\<close> of \<^verbatim>\<open>bench/benchmark.cpp\<close> and \<^verbatim>\<open>bench/benchmark_competitors.cpp\<close>): the blocks in the order
  of the source, each a list of measurements with the settings it gives to \<^verbatim>\<open>nanobench\<close>. The framework is a parameter: from the settings
  and the name of a measurement it decides how often the body runs. A program goes on, has ended with an uncaught
  exception, or hangs or aborts (\<open>None\<close>); what it has shown so far is its report.
\<close>

section \<open>Measurements\<close>

text \<open>What a body hands over: a byte, an object, the time stamp of an image, the results of \<open>write\<close> and \<open>read\<close> with the bytes received, the result of \<open>send\<close>
  with the first byte received, the answer of a lookup.\<close>

datatype bench_value =
    Byte byte | Object "byte list" | Stamp u64 | Transfer int int "byte list" | Sent int byte
  | Found "byte list option" | FoundPair "byte list InterpPair option"

record bench_settings =
  title :: string
  warmup :: nat
  min_epoch_iterations :: nat
  epoch_iterations :: "nat option"

text \<open>The run of a measurement takes the number of executions and the kernel state.\<close>

record 'k measurement =
  ms_bench :: bench_settings
  ms_batch :: nat
  ms_unit :: string
  ms_name :: string
  ms_run :: "nat \<Rightarrow> 'k \<Rightarrow> (bench_value bench_end \<times> 'k) option"

text \<open>Where the objects of a measurement live (mapping, private buffer, pointer), the heap around them, how far the background thread gets
  in each execution, what segments hold when they are mapped, the bytes of padding, the outcomes of \<open>fork\<close>.\<close>

record 'k bench_env =
  be_iters :: "bench_settings \<Rightarrow> string \<Rightarrow> nat"
  be_addr :: "string \<Rightarrow> nat \<times> nat \<times> nat"
  be_heap :: "string \<Rightarrow> heap"
  be_thread :: "string \<Rightarrow> nat list"
  be_mapped :: "string \<Rightarrow> mem"
  be_pad :: "nat \<Rightarrow> byte"
  be_forks :: "(byte list option \<times> nat) list"
  be_shm_os :: "'k shm_os"
  be_pipe_os :: "'k pipe_os"
  be_socket_os :: "'k socket_os"
  be_mq_os :: "'k mq_os"

text \<open>A run of the library, which leaves the kernel state alone, and one that calls the kernel.\<close>

definition library :: "('v \<Rightarrow> bench_value) \<Rightarrow> 'v list option \<Rightarrow> 'k \<Rightarrow> (bench_value bench_end \<times> 'k) option" where
  "library f r k = map_option (\<lambda>vs. (Measured (map f vs), k)) r"

definition kernel :: "('v \<Rightarrow> bench_value) \<Rightarrow> ('k \<Rightarrow> ('v bench_end \<times> 'k) option) \<Rightarrow> 'k \<Rightarrow> (bench_value bench_end \<times> 'k) option" where
  "kernel f r k = map_option (\<lambda>(e, k). (map_bench_end f e, k)) (r k)"

type_synonym bench_row = "string \<times> string \<times> nat \<times> bench_value list"

datatype 'k bench_program = Going "bench_row list" 'k | Uncaught "bench_row list" 'k

definition bench_row :: "'k measurement \<Rightarrow> bench_value list \<Rightarrow> bench_row" where
  "bench_row m vs = (title (ms_bench m), ms_name m, ms_batch m, vs)"

fun run_measurements :: "'k bench_env \<Rightarrow> 'k measurement list \<Rightarrow> bench_row list \<Rightarrow> 'k \<Rightarrow> 'k bench_program option" where
  "run_measurements env [] rows k = Some (Going rows k)"
| "run_measurements env (m # ms) rows k =
     do {
       (e, k) \<leftarrow> ms_run m (be_iters env (ms_bench m) (ms_name m)) k;
       case e of
         Threw \<Rightarrow> Some (Uncaught rows k)
       | Skipped \<Rightarrow> run_measurements env ms rows k
       | Measured vs \<Rightarrow> run_measurements env ms (rows @ [bench_row m vs]) k
     }"

section \<open>benchmark.cpp\<close>

text \<open>\<open>timestamp\<close> of the image that was read.\<close>

definition image_stamp :: "byte list \<Rightarrow> bench_value" where
  "image_stamp bs = Stamp (img_timestamp (decode_image bs))"

definition memcpy_block :: "'k measurement list" where
  "memcpy_block =
     (let b = \<lparr>title = ''memcpy baseline (local memory, no IPC)'', warmup = 100, min_epoch_iterations = 500, epoch_iterations = None\<rparr>;
          run = (\<lambda>name sz. \<lparr>ms_bench = b, ms_batch = sz, ms_unit = ''byte'', ms_name = name,
                            ms_run = (\<lambda>n. library Byte (memcpy_run n sz))\<rparr>)
      in map2 run [''memcpy 64 B'', ''memcpy 4 KB'', ''memcpy 1 MB'', ''memcpy 6 MB (FHD RGB)''] memcpy_runs)"

definition raw_shm_block :: "'k bench_env \<Rightarrow> 'k measurement list" where
  "raw_shm_block env =
     (let b = \<lparr>title = ''raw POSIX shm (mmap + memcpy, no sync)'', warmup = 100, min_epoch_iterations = 500, epoch_iterations = None\<rparr>;
          run = (\<lambda>name sz. \<lparr>ms_bench = b, ms_batch = sz, ms_unit = ''byte'', ms_name = name,
                            ms_run = (\<lambda>n. kernel Byte (raw_shm_run (be_shm_os env) (be_mapped env ''/bench_raw_posix'') n sz))\<rparr>)
      in map2 run [''raw posix shm 64 B'', ''raw posix shm 4 KB'', ''raw posix shm 1 MB'', ''raw posix shm 6 MB (FHD RGB)''] raw_shm_sizes)"

definition shared_memory_block :: "'k bench_env \<Rightarrow> 'k measurement list" where
  "shared_memory_block env =
     (let b = \<lparr>title = ''SharedMemory<T> (safe-shm, no sync)'', warmup = 100, min_epoch_iterations = 500, epoch_iterations = None\<rparr>;
          run = (\<lambda>(name, shm_name) (T, src). \<lparr>ms_bench = b, ms_batch = sizeof T, ms_unit = ''byte'', ms_name = name,
                   ms_run = (\<lambda>n. library Object (shared_memory_run (be_mapped env shm_name) n (T, src)))\<rparr>)
      in map2 run [(''SharedMemory 64 B'', ''bench_shmem_small''), (''SharedMemory 4 KB'', ''bench_shmem_med''),
                   (''SharedMemory 1 MB'', ''bench_shmem_large'')] shared_memory_runs)"

definition dblbuf_block :: "'k bench_env \<Rightarrow> 'k measurement list" where
  "dblbuf_block env =
     (let b = \<lparr>title = ''Storage + DblBufLoader (futex lock + double-buffer)'', warmup = 50, min_epoch_iterations = 200, epoch_iterations = None\<rparr>;
          run = (\<lambda>(name, shm_name) (T, src). \<lparr>ms_bench = b, ms_batch = sizeof T, ms_unit = ''byte'', ms_name = name,
                   ms_run = (\<lambda>n. let (shm, pre, slot) = be_addr env shm_name
                                 in library Object (dblbuf_run shm pre slot (be_heap env shm_name) (be_thread env shm_name) n (T, src)))\<rparr>)
      in map2 run [(''Storage+DblBufLoader 64 B'', ''bench_dblbuf_s''), (''Storage+DblBufLoader 4 KB'', ''bench_dblbuf_m''),
                   (''Storage+DblBufLoader 1 MB'', ''bench_dblbuf_l'')] dblbuf_runs)"

definition dbshm_block :: "'k bench_env \<Rightarrow> 'k measurement list" where
  "dbshm_block env =
     (let b = \<lparr>title = ''DoubleBufferShm<T> (store + load cycle)'', warmup = 50, min_epoch_iterations = 200, epoch_iterations = None\<rparr>;
          run = (\<lambda>(name, shm_name) (T, src). \<lparr>ms_bench = b, ms_batch = sizeof T, ms_unit = ''byte'', ms_name = name,
                   ms_run = (\<lambda>n. let (shm, pre, slot) = be_addr env shm_name
                                 in library Object (dbshm_run shm pre slot (be_heap env shm_name) (be_thread env shm_name) n (T, src)))\<rparr>)
      in map2 run [(''DoubleBufferShm 64 B'', ''bench_dbshm_s''), (''DoubleBufferShm 4 KB'', ''bench_dbshm_m''),
                   (''DoubleBufferShm 1 MB'', ''bench_dbshm_l'')] dbshm_runs)"

definition seqlock_block :: "'k bench_env \<Rightarrow> 'k measurement list" where
  "seqlock_block env =
     (let b = \<lparr>title = ''Seqlock (store + load, lock-free)'', warmup = 100, min_epoch_iterations = 500, epoch_iterations = None\<rparr>;
          run = (\<lambda>(name, shm_name) (T, src). \<lparr>ms_bench = b, ms_batch = sizeof T, ms_unit = ''byte'', ms_name = name,
                   ms_run = (\<lambda>n. library Object (seqlock_bench_run (be_mapped env shm_name) n (T, src)))\<rparr>)
      in map2 run [(''Seqlock 64 B'', ''bench_seqlock_s''), (''Seqlock 4 KB'', ''bench_seqlock_m''),
                   (''Seqlock 1 MB'', ''bench_seqlock_l'')] seqlock_runs)"

definition pipe_block :: "'k bench_env \<Rightarrow> 'k measurement list" where
  "pipe_block env =
     (let b = \<lparr>title = ''pipe (kernel IPC baseline)'', warmup = 50, min_epoch_iterations = 200, epoch_iterations = None\<rparr>;
          run = (\<lambda>name sz. \<lparr>ms_bench = b, ms_batch = sz, ms_unit = ''byte'', ms_name = name,
                            ms_run = (\<lambda>n. kernel (\<lambda>(w, r, recv). Transfer w r recv) (benchmark_pipe_run (be_pipe_os env) n sz))\<rparr>)
      in map2 run [''pipe 64 B'', ''pipe 4 KB'', ''pipe 1 MB''] pipe_sizes)"

definition fhd_block :: "'k bench_env \<Rightarrow> 'k measurement list" where
  "fhd_block env =
     (let b = \<lparr>title = ''FHD RGB image (~6 MB) throughput'', warmup = 10, min_epoch_iterations = 50, epoch_iterations = None\<rparr>;
          m = (\<lambda>name run. \<lparr>ms_bench = b, ms_batch = sizeof ImageFHD_RGB, ms_unit = ''byte'', ms_name = name, ms_run = run\<rparr>)
      in [m ''DoubleBufferShm FHD RGB'' (\<lambda>n. let (shm, pre, slot) = be_addr env ''bench_fhd_img''
             in library image_stamp (dbshm_run shm pre slot (be_heap env ''bench_fhd_img'') (be_thread env ''bench_fhd_img'') n dbshm_fhd_run)),
          m ''Seqlock FHD RGB'' (\<lambda>n. library image_stamp (seqlock_bench_run (be_mapped env ''bench_fhd_seqlock'') n seqlock_fhd_run)),
          m ''raw POSIX shm FHD RGB'' (\<lambda>n. kernel Byte (raw_shm_fhd_run (be_shm_os env) (be_mapped env ''/bench_fhd_raw'') n))])"

text \<open>The segment is created, and a zeroed object stored in it, before the first \<open>fork\<close>.\<close>

definition cross_process_block :: "'k bench_env \<Rightarrow> 'k measurement list" where
  "cross_process_block env =
     (let b = \<lparr>title = ''cross-process latency (fork + store + load)'', warmup = 5, min_epoch_iterations = 20, epoch_iterations = Some 20\<rparr>;
          (shm, pre, slot) = be_addr env ''bench_xproc'';
          h = be_heap env ''bench_xproc'';
          created = map_option (\<lambda>m. h\<lparr>objs := (objs h)(shm := SharedMemory_get SmallPayload m)\<rparr>)
            (Storage_store_alone SmallPayload (value_init SmallPayload) (be_mapped env ''bench_xproc''))
      in [\<lparr>ms_bench = b, ms_batch = sizeof SmallPayload, ms_unit = ''byte'', ms_name = ''cross-process 64 B'',
           ms_run = (\<lambda>n. library Object (map_option fst (do { h \<leftarrow> created; bench_run (cross_process_body shm pre slot) n (be_forks env, 0, h) })))\<rparr>])"

definition benchmark_measurements :: "'k bench_env \<Rightarrow> 'k measurement list" where
  "benchmark_measurements env =
     memcpy_block @ raw_shm_block env @ shared_memory_block env @ dblbuf_block env @ dbshm_block env @ seqlock_block env @
     pipe_block env @ fhd_block env @ cross_process_block env"

definition benchmark_main :: "'k bench_env \<Rightarrow> 'k \<Rightarrow> 'k bench_program option" where
  "benchmark_main env k = run_measurements env (benchmark_measurements env) [] k"

section \<open>benchmark_competitors.cpp\<close>

definition cyclic_block :: "'k bench_env \<Rightarrow> 'k measurement list" where
  "cyclic_block env =
     (let b = \<lparr>title = ''CyclicBuffer (insert + get_latest, lock-free)'', warmup = 100, min_epoch_iterations = 500, epoch_iterations = None\<rparr>;
          run = (\<lambda>(name, shm_name) (T, N, src). \<lparr>ms_bench = b, ms_batch = sizeof T, ms_unit = ''byte'', ms_name = name,
                   ms_run = (\<lambda>n. library Object (cyclic_bench_run (be_mapped env shm_name) n (T, N, src)))\<rparr>)
      in map2 run [(''CyclicBuffer 64 B'', ''bench_cb_small''), (''CyclicBuffer 4 KB'', ''bench_cb_med''),
                   (''CyclicBuffer 1 MB'', ''bench_cb_large'')] cyclic_runs)"

definition cyclic_fhd_block :: "'k bench_env \<Rightarrow> 'k measurement list" where
  "cyclic_fhd_block env =
     (let b = \<lparr>title = ''CyclicBuffer FHD RGB (~6 MB)'', warmup = 10, min_epoch_iterations = 50, epoch_iterations = None\<rparr>
      in [\<lparr>ms_bench = b, ms_batch = sizeof ImageFHD_RGB, ms_unit = ''byte'', ms_name = ''CyclicBuffer FHD RGB'',
           ms_run = (\<lambda>n. library image_stamp (cyclic_bench_run (be_mapped env ''bench_cb_fhd'') n cyclic_fhd_run))\<rparr>])"

definition comparison_block :: "'k bench_env \<Rightarrow> 'k measurement list" where
  "comparison_block env =
     (let b = \<lparr>title = ''Seqlock vs CyclicBuffer (64 B store+load)'', warmup = 100, min_epoch_iterations = 500, epoch_iterations = None\<rparr>;
          m = (\<lambda>name run. \<lparr>ms_bench = b, ms_batch = sizeof SmallPayload, ms_unit = ''byte'', ms_name = name, ms_run = run\<rparr>)
      in [m ''Seqlock 64 B'' (\<lambda>n. library Object (seqlock_bench_run (be_mapped env ''bench_cmp_seqlock'') n seqlock_cmp_run)),
          m ''CyclicBuffer 64 B'' (\<lambda>n. library Object (cyclic_bench_run (be_mapped env ''bench_cmp_cb'') n cyclic_cmp_run))])"

definition lookup_block :: "'k bench_env \<Rightarrow> 'k measurement list" where
  "lookup_block env =
     (let b = \<lparr>title = ''TimeSeries lookup (64-element buffer)'', warmup = 100, min_epoch_iterations = 500, epoch_iterations = None\<rparr>;
          buf = lookup_prefill (be_pad env) (be_mapped env ''bench_ts_lookup'');
          m = (\<lambda>name run. \<lparr>ms_bench = b, ms_batch = 1, ms_unit = ''op'', ms_name = name, ms_run = run\<rparr>)
      in [m ''find_closest (binary search)'' (\<lambda>n. library Found (map_option fst (bench_run closest_body n buf))),
          m ''find_interpolation_pair'' (\<lambda>n. library FoundPair (map_option fst (bench_run interp_body n buf))),
          m ''get_latest_if_fresh'' (\<lambda>n. library Found (map_option fst (bench_run fresh_body n buf)))])"

definition mq_block :: "'k bench_env \<Rightarrow> 'k measurement list" where
  "mq_block env =
     (let b = \<lparr>title = ''POSIX message queue (mq_send + mq_receive)'', warmup = 50, min_epoch_iterations = 200, epoch_iterations = None\<rparr>;
          run_mq = (\<lambda>name sz. \<lparr>ms_bench = b, ms_batch = sz, ms_unit = ''byte'', ms_name = name,
                      ms_run = (\<lambda>n. kernel Byte (mq_run (be_mq_os env) n sz))\<rparr>)
      in map2 run_mq [''mq 64 B'', ''mq 4 KB''] mq_sizes)"

definition uds_block :: "'k bench_env \<Rightarrow> 'k measurement list" where
  "uds_block env =
     (let b = \<lparr>title = ''Unix domain socket (socketpair send + recv)'', warmup = 50, min_epoch_iterations = 200, epoch_iterations = None\<rparr>;
          run_uds = (\<lambda>name sz. \<lparr>ms_bench = b, ms_batch = sz, ms_unit = ''byte'', ms_name = name,
                       ms_run = (\<lambda>n. kernel (\<lambda>(w, x). Sent w x) (uds_run (be_socket_os env) n sz))\<rparr>)
      in map2 run_uds [''UDS 64 B'', ''UDS 4 KB''] uds_sizes)"

definition competitors_pipe_block :: "'k bench_env \<Rightarrow> 'k measurement list" where
  "competitors_pipe_block env =
     (let b = \<lparr>title = ''pipe (kernel IPC reference)'', warmup = 50, min_epoch_iterations = 200, epoch_iterations = None\<rparr>;
          run_pipe = (\<lambda>name sz. \<lparr>ms_bench = b, ms_batch = sz, ms_unit = ''byte'', ms_name = name,
                        ms_run = (\<lambda>n. kernel (\<lambda>(w, r, recv). Transfer w r recv) (competitors_pipe_run (be_pipe_os env) n sz))\<rparr>)
      in map2 run_pipe [''pipe 64 B'', ''pipe 4 KB'', ''pipe 1 MB''] competitors_pipe_sizes)"

definition competitors_memcpy_block :: "'k measurement list" where
  "competitors_memcpy_block =
     (let b = \<lparr>title = ''memcpy baseline (local memory)'', warmup = 100, min_epoch_iterations = 500, epoch_iterations = None\<rparr>;
          run = (\<lambda>name sz. \<lparr>ms_bench = b, ms_batch = sz, ms_unit = ''byte'', ms_name = name,
                            ms_run = (\<lambda>n. library Byte (competitors_memcpy_run n sz))\<rparr>)
      in map2 run [''memcpy 64 B'', ''memcpy 4 KB'', ''memcpy 1 MB''] competitors_memcpy_runs)"

definition competitors_measurements :: "'k bench_env \<Rightarrow> 'k measurement list" where
  "competitors_measurements env =
     cyclic_block env @ cyclic_fhd_block env @ comparison_block env @ lookup_block env @ mq_block env @ uds_block env @
     competitors_pipe_block env @ competitors_memcpy_block"

definition competitors_main :: "'k bench_env \<Rightarrow> 'k \<Rightarrow> 'k bench_program option" where
  "competitors_main env k = run_measurements env (competitors_measurements env) [] k"

section \<open>Executing measurements\<close>

abbreviation executions :: "'k bench_env \<Rightarrow> 'k measurement \<Rightarrow> nat" where
  "executions env m \<equiv> be_iters env (ms_bench m) (ms_name m)"

text \<open>The measurement returns in every kernel state, with the values \<open>f n\<close> for \<open>n\<close> executions.\<close>

definition shows_values :: "'k bench_env \<Rightarrow> 'k measurement \<Rightarrow> (nat \<Rightarrow> bench_value list) \<Rightarrow> bool" where
  "shows_values env m f \<longleftrightarrow> (\<forall>k. \<exists>k'. ms_run m (executions env m) k = Some (Measured (f (executions env m)), k'))"

definition report :: "'k bench_env \<Rightarrow> 'k measurement list \<Rightarrow> (nat \<Rightarrow> bench_value list) list \<Rightarrow> bench_row list" where
  "report env ms fs = map2 (\<lambda>m f. bench_row m (f (executions env m))) ms fs"

abbreviation same :: "bench_value \<Rightarrow> nat \<Rightarrow> bench_value list" where
  "same v n \<equiv> replicate n v"

lemma run_measurements_shows:
  "list_all2 (shows_values env) ms fs \<Longrightarrow> \<exists>k'. run_measurements env ms rows k = Some (Going (rows @ report env ms fs) k')"
proof (induction ms fs arbitrary: rows k rule: list_all2_induct)
  case (Cons m ms f fs)
  from Cons.hyps(1) obtain k1 where "ms_run m (executions env m) k = Some (Measured (f (executions env m)), k1)"
    unfolding shows_values_def by blast
  with Cons.IH [of "rows @ [bench_row m (f (executions env m))]" k1] show ?case by (simp add: report_def)
qed (simp add: report_def)

lemma run_measurements_append:
  "run_measurements env (xs @ ys) rows k =
     do {
       p \<leftarrow> run_measurements env xs rows k;
       case p of Going rows k \<Rightarrow> run_measurements env ys rows k | Uncaught rows k \<Rightarrow> Some (Uncaught rows k)
     }"
  by (induction xs arbitrary: rows k) (auto split: bench_end.split Option.bind_split)

lemma run_measurements_skip:
  assumes "\<And>m k. m \<in> set ms \<Longrightarrow> \<exists>k'. ms_run m (executions env m) k = Some (Skipped, k')"
  shows "\<exists>k'. run_measurements env ms rows k = Some (Going rows k')"
  using assms
proof (induction ms arbitrary: k)
  case (Cons m ms)
  then obtain k1 where "ms_run m (executions env m) k = Some (Skipped, k1)" by force
  with Cons.IH [of k1] Cons.prems show ?case by simp
qed simp

lemma report_append: "length ms = length fs \<Longrightarrow> report env (ms @ ms') (fs @ fs') = report env ms fs @ report env ms' fs'"
  by (simp add: report_def)

lemma library_shows:
  "r = Some vs \<Longrightarrow> library f r k = Some (Measured (map f vs), k)"
  by (simp add: library_def)

lemma kernel_shows:
  assumes "\<And>k. \<exists>k'. r (be_iters env b name) k = Some (Measured (replicate (be_iters env b name) v), k')"
  shows "shows_values env \<lparr>ms_bench = b, ms_batch = sz, ms_unit = u, ms_name = name, ms_run = (\<lambda>n. kernel f (r n))\<rparr> (same (f v))"
proof -
  have "\<exists>k'. kernel f (r (be_iters env b name)) k = Some (Measured (replicate (be_iters env b name) (f v)), k')" for k
    using assms [of k] by (auto simp: kernel_def)
  then show ?thesis by (simp add: shows_values_def)
qed

section \<open>Kernels and surroundings that give the programs what they ask for\<close>

definition shm_granted :: "'k shm_os \<Rightarrow> bool" where
  "shm_granted os \<longleftrightarrow> (\<forall>name sz k. \<exists>shm k'. RawPosixShm_construct os name sz k = (Inr shm, k'))"

definition pipe_granted :: "'k pipe_os \<Rightarrow> bool" where
  "pipe_granted os \<longleftrightarrow> (\<exists>fds bytes cap. pipe_spec os bytes cap fds \<and>
     (\<forall>k. \<exists>k0. os_pipe os k = (Some fds, k0) \<and> bytes k0 = []) \<and> (\<forall>n k. 0 \<le> fst (os_setpipe_sz os (fst fds) n k)))"

definition socket_granted :: "'k socket_os \<Rightarrow> bool" where
  "socket_granted os \<longleftrightarrow> (\<exists>bytes cap. socket_spec os bytes cap \<and>
     (\<forall>k. \<exists>k0. os_socketpair os k = (True, k0) \<and> (\<forall>n. bytes (os_sockopts os n k0) = [] \<and> n \<le> cap (os_sockopts os n k0))))"

definition mq_granted :: "'k mq_os \<Rightarrow> bool" where
  "mq_granted os \<longleftrightarrow> (\<exists>msg cap. mq_spec os msg cap \<and>
     (\<forall>sz k. \<exists>k0. os_mq_open os 1 sz k = (True, k0) \<and> msg k0 = None \<and> cap k0 = sz))"

definition mq_refused :: "'k mq_os \<Rightarrow> bool" where
  "mq_refused os \<longleftrightarrow> (\<forall>n sz k. \<not> fst (os_mq_open os n sz k))"

definition surroundings_ok :: "'k bench_env \<Rightarrow> bool" where
  "surroundings_ok env \<longleftrightarrow>
     (\<forall>b name. 0 < be_iters env b name \<and> be_iters env b name < 2 ^ 64 \<and> be_iters env b name \<le> length (be_forks env)) \<and>
     (\<forall>b name seg. be_iters env b name \<le> length (be_thread env seg) \<and> (\<forall>k \<in> set (be_thread env seg). 6 \<le> k)) \<and>
     (\<forall>seg. case be_addr env seg of (shm, pre, slot) \<Rightarrow>
        shm \<noteq> 0 \<and> pre \<noteq> 0 \<and> slot \<noteq> 0 \<and> shm \<noteq> pre \<and> 8 dvd shm \<and> 8 dvd pre) \<and>
     (\<forall>(found, k) \<in> set (be_forks env). found = None \<and> 6 \<le> k) \<and>
     (\<forall>seg. be_mapped env seg = zero_mem)"

lemma surroundings_okD:
  assumes "surroundings_ok env"
  shows "0 < be_iters env b name" "be_iters env b name < 2 ^ 64" "be_iters env b name \<le> length (be_forks env)"
    "be_iters env b name \<le> length (be_thread env seg)" "\<forall>k \<in> set (be_thread env seg). 6 \<le> k"
    "\<forall>(found, k) \<in> set (be_forks env). found = None \<and> 6 \<le> k" "be_mapped env seg = zero_mem"
  using assms by (simp_all add: surroundings_ok_def)

lemma surroundings_addr:
  assumes "surroundings_ok env" and "be_addr env seg = (shm, pre, slot)"
  shows "shm \<noteq> 0" "pre \<noteq> 0" "slot \<noteq> 0" "shm \<noteq> pre" "8 dvd shm" "8 dvd pre"
proof -
  have "case be_addr env seg of (shm, pre, slot) \<Rightarrow> shm \<noteq> 0 \<and> pre \<noteq> 0 \<and> slot \<noteq> 0 \<and> shm \<noteq> pre \<and> 8 dvd shm \<and> 8 dvd pre"
    using assms(1) by (simp add: surroundings_ok_def)
  then show "shm \<noteq> 0" "pre \<noteq> 0" "slot \<noteq> 0" "shm \<noteq> pre" "8 dvd shm" "8 dvd pre" using assms(2) by simp_all
qed

section \<open>The blocks\<close>

lemma shows_map2:
  assumes "length xs = length ys" and "\<And>x y. y \<in> set ys \<Longrightarrow> shows_values env (run x y) (f y)"
  shows "list_all2 (shows_values env) (map2 run xs ys) (map f ys)"
  using assms by (induction xs ys rule: list_induct2) simp_all

abbreviation objects :: "(ctype \<times> byte list) list \<Rightarrow> (nat \<Rightarrow> bench_value list) list" where
  "objects \<equiv> map (\<lambda>r. same (Object (snd r)))"

abbreviation bytes_of :: "byte \<Rightarrow> nat list \<Rightarrow> (nat \<Rightarrow> bench_value list) list" where
  "bytes_of b \<equiv> map (\<lambda>_. same (Byte b))"

lemma image_stamp_fhd:
  "image_stamp (snd dbshm_fhd_run) = Stamp 1" "image_stamp (snd seqlock_fhd_run) = Stamp 3"
  "image_stamp (snd (snd cyclic_fhd_run)) = Stamp 1"
  by (simp_all add: image_stamp_def decode_image_def bench_image_def encode_image_def dbshm_fhd_run_def seqlock_fhd_run_def cyclic_fhd_run_def)

lemma memcpy_blocks_show:
  "list_all2 (shows_values env) memcpy_block (bytes_of 0xAA memcpy_runs)"
  "list_all2 (shows_values env) competitors_memcpy_block (bytes_of 0xAA competitors_memcpy_runs)"
proof -
  have pos: "0 < sz" if "sz \<in> set memcpy_runs \<or> sz \<in> set competitors_memcpy_runs" for sz
    using that by (auto simp: memcpy_runs_def competitors_memcpy_runs_def image_sizes(1))
  show "list_all2 (shows_values env) memcpy_block (bytes_of 0xAA memcpy_runs)"
    unfolding memcpy_block_def Let_def
    by (rule shows_map2) (simp add: memcpy_runs_def, simp add: shows_values_def library_shows [OF memcpy_run_eq(1)] pos)
  show "list_all2 (shows_values env) competitors_memcpy_block (bytes_of 0xAA competitors_memcpy_runs)"
    unfolding competitors_memcpy_block_def Let_def
    by (rule shows_map2) (simp add: competitors_memcpy_runs_def, simp add: shows_values_def library_shows [OF memcpy_run_eq(2)] pos)
qed

lemma shared_memory_block_shows: "list_all2 (shows_values env) (shared_memory_block env) (objects shared_memory_runs)"
  unfolding shared_memory_block_def Let_def
proof (rule shows_map2, goal_cases)
  case (2 x y)
  then show ?case
    using runs_ok(1) by (cases x; cases y rule: prod.exhaust) (auto simp: shows_values_def library_shows [OF shared_memory_run_eq])
qed (simp add: shared_memory_runs_def)

lemma seqlock_runs_return:
  assumes "surroundings_ok env" and "r \<in> set (seqlock_fhd_run # seqlock_cmp_run # seqlock_runs)"
  shows "seqlock_bench_run (be_mapped env seg) n r = Some (replicate n (snd r))"
proof -
  obtain T src where r: "r = (T, src)" by (cases r)
  have "wf_ctype T \<and> object_of T src" using runs_ok(4) assms(2) unfolding r by fast
  then show ?thesis using seqlock_bench_run_eq surroundings_okD(7) [OF assms(1)] by (simp add: r)
qed

lemma seqlock_block_shows:
  assumes "surroundings_ok env"
  shows "list_all2 (shows_values env) (seqlock_block env) (objects seqlock_runs)"
  unfolding seqlock_block_def Let_def
proof (rule shows_map2, goal_cases)
  case (2 x y)
  then show ?case
    using seqlock_runs_return [OF assms, of y] by (cases x; cases y rule: prod.exhaust) (auto simp: shows_values_def library_def)
qed (simp add: seqlock_runs_def)

lemma cyclic_runs_return:
  assumes "surroundings_ok env" and "r \<in> set (cyclic_fhd_run # cyclic_cmp_run # cyclic_runs)" and "n < 2 ^ 64"
  shows "cyclic_bench_run (be_mapped env seg) n r = Some (replicate n (snd (snd r)))"
proof -
  obtain T N src where r: "r = (T, N, src)" by (cases r)
  have "wf_ctype T \<and> object_of T src" "CyclicBuffer_capacity_ok N"
    using runs_ok(5) cyclic_runs_capacity assms(2) unfolding r by fast+
  then show ?thesis using cyclic_bench_run_eq assms(3) surroundings_okD(7) [OF assms(1)] by (simp add: r)
qed

lemma cyclic_blocks_show:
  assumes "surroundings_ok env"
  shows "list_all2 (shows_values env) (cyclic_block env) (map (\<lambda>r. same (Object (snd (snd r)))) cyclic_runs)"
    "list_all2 (shows_values env) (cyclic_fhd_block env) [same (Stamp 1)]"
    "list_all2 (shows_values env) (comparison_block env) [same (Object (snd seqlock_cmp_run)), same (Object (snd (snd cyclic_cmp_run)))]"
proof -
  note returns = cyclic_runs_return [OF assms _ surroundings_okD(2) [OF assms]]
  show "list_all2 (shows_values env) (cyclic_block env) (map (\<lambda>r. same (Object (snd (snd r)))) cyclic_runs)"
    unfolding cyclic_block_def Let_def
  proof (rule shows_map2, goal_cases)
    case (2 x y)
    then show ?case using returns [of y] by (cases x; cases y rule: prod_cases3) (auto simp: shows_values_def library_def)
  qed (simp add: cyclic_runs_def)
  show "list_all2 (shows_values env) (cyclic_fhd_block env) [same (Stamp 1)]"
    using returns [of cyclic_fhd_run] by (simp add: cyclic_fhd_block_def shows_values_def library_def image_stamp_fhd)
  show "list_all2 (shows_values env) (comparison_block env) [same (Object (snd seqlock_cmp_run)), same (Object (snd (snd cyclic_cmp_run)))]"
    using returns [of cyclic_cmp_run] seqlock_runs_return [OF assms, of seqlock_cmp_run]
    by (simp add: comparison_block_def shows_values_def library_def Let_def)
qed

lemma loader_runs_return:
  assumes "surroundings_ok env" and "r \<in> set dblbuf_runs \<union> set (dbshm_fhd_run # dbshm_runs)" and "be_addr env seg = (shm, pre, slot)"
    and "n = be_iters env b name"
  shows "dblbuf_run shm pre slot h (be_thread env seg) n r = Some (replicate n (snd r))"
    "dbshm_run shm pre slot h (be_thread env seg) n r = Some (replicate n (snd r))"
proof -
  obtain T src where r: "r = (T, src)" by (cases r)
  have "alignof T dvd 8" using loader_runs_align assms(2) unfolding r by fast
  then have al: "alignof T dvd shm" "alignof T dvd pre" using surroundings_addr(5,6) [OF assms(1,3)] dvd_trans by blast+
  show "dblbuf_run shm pre slot h (be_thread env seg) n r = Some (replicate n (snd r))"
    "dbshm_run shm pre slot h (be_thread env seg) n r = Some (replicate n (snd r))"
    unfolding r assms(4)
    using loader_runs_eq [OF surroundings_addr(1-4) [OF assms(1,3)] al surroundings_okD(4,5) [OF assms(1)]] by simp_all
qed

lemma loader_blocks_show:
  assumes "surroundings_ok env"
  shows "list_all2 (shows_values env) (dblbuf_block env) (objects dblbuf_runs)"
    "list_all2 (shows_values env) (dbshm_block env) (objects dbshm_runs)"
proof -
  note returns = loader_runs_return [OF assms _ _ refl]
  show "list_all2 (shows_values env) (dblbuf_block env) (objects dblbuf_runs)"
    unfolding dblbuf_block_def Let_def
  proof (rule shows_map2, goal_cases)
    case (2 x y)
    then show ?case
      using returns(1) [of y] by (cases x; cases y rule: prod.exhaust; cases "be_addr env (snd x)") (auto simp: shows_values_def library_def)
  qed (simp add: dblbuf_runs_def)
  show "list_all2 (shows_values env) (dbshm_block env) (objects dbshm_runs)"
    unfolding dbshm_block_def Let_def
  proof (rule shows_map2, goal_cases)
    case (2 x y)
    then show ?case
      using returns(2) [of y] by (cases x; cases y rule: prod.exhaust; cases "be_addr env (snd x)") (auto simp: shows_values_def library_def)
  qed (simp add: dbshm_runs_def)
qed

abbreviation transfers :: "nat list \<Rightarrow> (nat \<Rightarrow> bench_value list) list" where
  "transfers \<equiv> map (\<lambda>sz. same (Transfer (int sz) (int sz) (memset 0xEE sz)))"

lemma pipe_runs_return:
  assumes "pipe_granted os" and "0 < sz" "0 < n"
  shows "\<exists>k'. pipe_run os e n sz k = Some (Measured (replicate n (int sz, int sz, memset 0xEE sz)), k')"
proof -
  obtain fds bytes cap k0 where *: "pipe_spec os bytes cap fds" "os_pipe os k = (Some fds, k0)" "bytes k0 = []"
      "\<forall>n k. 0 \<le> fst (os_setpipe_sz os (fst fds) n k)"
    using assms(1) unfolding pipe_granted_def by meson
  obtain rc k1 where sz: "os_setpipe_sz os (fst fds) (max sz 65536) k0 = (rc, k1)" by fastforce
  then have "0 \<le> rc" using *(4) by (metis fst_conv)
  with pipe_run_cases(1) [OF *(1-3) sz assms(2,3)] show ?thesis by blast
qed

lemma pipe_blocks_show:
  assumes "surroundings_ok env" and "pipe_granted (be_pipe_os env)"
  shows "list_all2 (shows_values env) (pipe_block env) (transfers pipe_sizes)"
    "list_all2 (shows_values env) (competitors_pipe_block env) (transfers competitors_pipe_sizes)"
proof -
  have ok: "shows_values env \<lparr>ms_bench = b, ms_batch = sz, ms_unit = u, ms_name = name,
      ms_run = (\<lambda>n. kernel (\<lambda>(w, r, recv). Transfer w r recv) (pipe_run (be_pipe_os env) e n sz))\<rparr>
      (same (Transfer (int sz) (int sz) (memset 0xEE sz)))" if "0 < sz" for b sz u name e
    using kernel_shows [where r = "\<lambda>n. pipe_run (be_pipe_os env) e n sz" and v = "(int sz, int sz, memset 0xEE sz)"
        and f = "\<lambda>(w, r, recv). Transfer w r recv", OF pipe_runs_return [OF assms(2) that surroundings_okD(1) [OF assms(1)]]]
    by simp
  show "list_all2 (shows_values env) (pipe_block env) (transfers pipe_sizes)"
    unfolding pipe_block_def Let_def benchmark_pipe_run_def
    by (rule shows_map2) (simp add: pipe_sizes_def, rule ok, auto simp: pipe_sizes_def)
  show "list_all2 (shows_values env) (competitors_pipe_block env) (transfers competitors_pipe_sizes)"
    unfolding competitors_pipe_block_def Let_def competitors_pipe_run_def
    by (rule shows_map2) (simp add: competitors_pipe_sizes_def, rule ok, auto simp: competitors_pipe_sizes_def)
qed

lemma raw_shm_block_shows:
  assumes "shm_granted (be_shm_os env)"
  shows "list_all2 (shows_values env) (raw_shm_block env) (bytes_of 0xBB raw_shm_sizes)"
  unfolding raw_shm_block_def Let_def
proof (rule shows_map2, goal_cases)
  case (2 name sz)
  have "\<exists>k'. raw_shm_run (be_shm_os env) m n sz k = Some (Measured (replicate n 0xBB), k')" for m n k
    using assms raw_shm_run_measures [OF 2] unfolding shm_granted_def by metis
  then show ?case by (rule kernel_shows)
qed (simp add: raw_shm_sizes_def)

lemma fhd_block_shows:
  assumes "surroundings_ok env" and "shm_granted (be_shm_os env)"
  shows "list_all2 (shows_values env) (fhd_block env) [same (Stamp 1), same (Stamp 3), same (Byte 2)]"
proof -
  obtain shm pre slot where addr: "be_addr env ''bench_fhd_img'' = (shm, pre, slot)" by (cases "be_addr env ''bench_fhd_img''")
  have "\<exists>k'. raw_shm_fhd_run (be_shm_os env) m n k = Some (Measured (replicate n 2), k')" for m n k
    using assms(2) raw_shm_fhd_measures unfolding shm_granted_def by metis
  then have "shows_values env \<lparr>ms_bench = b, ms_batch = sz, ms_unit = u, ms_name = name, ms_run =
      (\<lambda>n. kernel Byte (raw_shm_fhd_run (be_shm_os env) m n))\<rparr> (same (Byte 2))" for b sz u name m
    by (rule kernel_shows)
  moreover have "shows_values env \<lparr>ms_bench = b, ms_batch = sz, ms_unit = u, ms_name = name, ms_run = (\<lambda>n. library image_stamp
      (dbshm_run shm pre slot h (be_thread env ''bench_fhd_img'') n dbshm_fhd_run))\<rparr> (same (Stamp 1))" for b sz u name h
    using loader_runs_return(2) [OF assms(1) _ addr refl, of dbshm_fhd_run] by (simp add: shows_values_def library_def image_stamp_fhd)
  moreover have "shows_values env \<lparr>ms_bench = b, ms_batch = sz, ms_unit = u, ms_name = name, ms_run = (\<lambda>n. library image_stamp
      (seqlock_bench_run (be_mapped env seg) n seqlock_fhd_run))\<rparr> (same (Stamp 3))" for b sz u name seg
    using seqlock_runs_return [OF assms(1), of seqlock_fhd_run] by (simp add: shows_values_def library_def image_stamp_fhd)
  ultimately show ?thesis unfolding fhd_block_def Let_def addr by simp
qed

lemma cross_process_block_shows:
  assumes "surroundings_ok env"
  shows "list_all2 (shows_values env) (cross_process_block env) [\<lambda>n. map (\<lambda>i. Object (iter_data i)) [0..<n]]"
proof -
  obtain shm pre slot where addr: "be_addr env ''bench_xproc'' = (shm, pre, slot)" by (cases "be_addr env ''bench_xproc''")
  have "\<exists>s'. bench_run (cross_process_body shm pre slot) (be_iters env b name) (be_forks env, 0, h)
      = Some (map iter_data [0..<be_iters env b name], s')" for b name h
    using cross_process_run [OF surroundings_addr [OF assms addr] surroundings_okD(3,6) [OF assms], of b name 0 h] by simp
  then have "map_option fst (bench_run (cross_process_body shm pre slot) (be_iters env b name) (be_forks env, 0, h))
      = Some (map iter_data [0..<be_iters env b name])" for b name h
    by (metis fst_conv option.simps(9))
  then have "shows_values env \<lparr>ms_bench = b, ms_batch = sz, ms_unit = u, ms_name = name, ms_run = (\<lambda>n. library Object
      (map_option fst (do { h \<leftarrow> Some h; bench_run (cross_process_body shm pre slot) n (be_forks env, 0, h) })))\<rparr>
      (\<lambda>n. map (\<lambda>i. Object (iter_data i)) [0..<n])" for b sz u name h
    by (simp add: shows_values_def library_def comp_def del: map_option_eq_Some)
  moreover have "length (value_init SmallPayload) = sizeof SmallPayload" by (simp add: SmallPayload_def)
  ultimately show ?thesis
    unfolding cross_process_block_def Let_def addr by (simp add: Storage_store_alone_eq)
qed

abbreviation lookups :: "(nat \<Rightarrow> byte) \<Rightarrow> nat \<Rightarrow> (nat \<Rightarrow> bench_value list) list" where
  "lookups pad i \<equiv>
     [same (Found (Some (lookup_encoded pad i))),
      same (FoundPair (Some \<lparr>before = lookup_encoded pad 32, after = lookup_encoded pad 33, alpha = 1 / 2\<rparr>)),
      same (Found (Some (lookup_encoded pad 63)))]"

lemma lookup_block_shows:
  assumes "surroundings_ok env"
  shows "\<exists>i \<in> {32, 33}. list_all2 (shows_values env) (lookup_block env) (lookups (be_pad env) i)"
proof -
  obtain i where "i \<in> {32, 33}" and closest: "closest_body (lookup_prefill (be_pad env) zero_mem)
      = Some (Some (lookup_encoded (be_pad env) i), lookup_prefill (be_pad env) zero_mem)"
    using closest_lookup by blast
  note runs = bench_run_const [of closest_body, OF closest] bench_run_const [of interp_body, OF interp_lookup]
    bench_run_const [of fresh_body, OF fresh_lookup]
  have "list_all2 (shows_values env) (lookup_block env) (lookups (be_pad env) i)"
    by (simp add: lookup_block_def shows_values_def library_def Let_def surroundings_okD(7) [OF assms] runs)
  with \<open>i \<in> {32, 33}\<close> show ?thesis by blast
qed

lemma uds_block_shows:
  assumes "socket_granted (be_socket_os env)"
  shows "list_all2 (shows_values env) (uds_block env) (map (\<lambda>sz. same (Sent (int sz) 0xBB)) uds_sizes)"
  unfolding uds_block_def Let_def
proof (rule shows_map2, goal_cases)
  case (2 name sz)
  obtain bytes cap where spec: "socket_spec (be_socket_os env) bytes cap"
    and open': "\<forall>k. \<exists>k0. os_socketpair (be_socket_os env) k = (True, k0) \<and>
      (\<forall>n. bytes (os_sockopts (be_socket_os env) n k0) = [] \<and> n \<le> cap (os_sockopts (be_socket_os env) n k0))"
    using assms unfolding socket_granted_def by blast
  have "\<exists>k'. uds_run (be_socket_os env) n sz k = Some (Measured (replicate n (int sz, 0xBB)), k')" for n k
  proof -
    obtain k0 where k0: "os_socketpair (be_socket_os env) k = (True, k0)"
      and opts: "\<And>n. bytes (os_sockopts (be_socket_os env) n k0) = [] \<and> n \<le> cap (os_sockopts (be_socket_os env) n k0)"
      using open' by blast
    have "sz \<le> max (sz * 2) 65536" by simp
    then show ?thesis using uds_run_measures [OF spec k0 2] opts le_trans by blast
  qed
  from kernel_shows [where f = "\<lambda>(w, x). Sent w x" and r = "\<lambda>n. uds_run (be_socket_os env) n sz" and v = "(int sz, 0xBB)", OF this] show ?case by simp
qed (simp add: uds_sizes_def)

lemma mq_block_shows:
  assumes "mq_granted (be_mq_os env)"
  shows "list_all2 (shows_values env) (mq_block env) (bytes_of 0xAA mq_sizes)"
  unfolding mq_block_def Let_def
proof (rule shows_map2, goal_cases)
  case (2 name sz)
  have "\<exists>k'. mq_run (be_mq_os env) n sz k = Some (Measured (replicate n 0xAA), k')" for n k
    using assms mq_run_measures [OF _ _ 2] unfolding mq_granted_def by metis
  then show ?case by (rule kernel_shows)
qed (simp add: mq_sizes_def)

lemma mq_block_skips:
  assumes "mq_refused (be_mq_os env)" and "m \<in> set (mq_block env)"
  shows "\<exists>k'. ms_run m n k = Some (Skipped, k')"
proof -
  obtain sz where m: "ms_run m n = kernel Byte (mq_run (be_mq_os env) n sz)"
    using assms(2) by (auto simp: mq_block_def mq_sizes_def Let_def)
  obtain opened k0 where op: "os_mq_open (be_mq_os env) 1 sz (os_mq_unlink (be_mq_os env) k) = (opened, k0)" by fastforce
  then have "\<not> opened" using assms(1) unfolding mq_refused_def by (metis fst_conv)
  with op show ?thesis by (simp add: m kernel_def mq_run_def)
qed

section \<open>Properties\<close>

definition benchmark_expected :: "(nat \<Rightarrow> bench_value list) list" where
  "benchmark_expected =
     bytes_of 0xAA memcpy_runs @ bytes_of 0xBB raw_shm_sizes @ objects shared_memory_runs @ objects dblbuf_runs @ objects dbshm_runs @
     objects seqlock_runs @ transfers pipe_sizes @
     [same (Stamp 1), same (Stamp 3), same (Byte 2)] @
     [\<lambda>n. map (\<lambda>i. Object (iter_data i)) [0..<n]]"

lemma benchmark_shows:
  assumes "surroundings_ok env" and "shm_granted (be_shm_os env)" and "pipe_granted (be_pipe_os env)"
  shows "list_all2 (shows_values env) (benchmark_measurements env) benchmark_expected"
  unfolding benchmark_measurements_def benchmark_expected_def
  by (intro list_all2_appendI memcpy_blocks_show raw_shm_block_shows shared_memory_block_shows loader_blocks_show
      seqlock_block_shows pipe_blocks_show fhd_block_shows cross_process_block_shows assms)

lemma memcpy_block_runs: "run_measurements env (memcpy_block @ ms) [] k = run_measurements env ms (report env memcpy_block (bytes_of 0xAA memcpy_runs)) k"
  by (simp add: memcpy_block_def memcpy_runs_def report_def bench_row_def Let_def library_shows [OF memcpy_run_eq(1)] image_sizes(1))

lemma raw_shm_block_throws:
  assumes "RawPosixShm_construct (be_shm_os env) ''/bench_raw_posix'' 64 k = (Inl e, k1)"
  shows "run_measurements env (raw_shm_block env @ ms) rows k = Some (Uncaught rows k1)"
proof -
  have "raw_shm_run (be_shm_os env) m n 64 k = Some (Threw, k1)" for m n
    using raw_shm_object_run_eq [where src = "memset 0xBB 64" and r = "Inl e"] assms by (simp add: raw_shm_run_def memset_nonempty)
  then show ?thesis by (simp add: raw_shm_block_def raw_shm_sizes_def Let_def kernel_def)
qed

text \<open>
  C40. The program \<^verbatim>\<open>benchmark\<close>, from beginning to end. With surroundings and a kernel that give it what it asks for it runs to its end
  and reports all 27 measurements, in the order of the source, each with as many values as the framework asks for, and each value
  is the object (the byte, the time stamp of the image, the transfer) that execution has just stored; the values of the last one are the records of the
  successive children. When instead any call of the first \<open>RawPosixShm\<close>'s constructor fails, the program ends by an
  uncaught exception with the report of the \<open>memcpy\<close> baseline only.
\<close>

theorem benchmark_program:
  assumes "surroundings_ok env"
  shows "(shm_granted (be_shm_os env) \<and> pipe_granted (be_pipe_os env) \<longrightarrow>
            (\<exists>k'. benchmark_main env k = Some (Going (report env (benchmark_measurements env) benchmark_expected) k')) \<and>
            length (report env (benchmark_measurements env) benchmark_expected) = 27) \<and>
         (RawPosixShm_construct (be_shm_os env) ''/bench_raw_posix'' 64 k = (Inl e, k1) \<longrightarrow>
            benchmark_main env k = Some (Uncaught (report env memcpy_block (bytes_of 0xAA memcpy_runs)) k1))"
proof (rule conjI; intro impI)
  assume "shm_granted (be_shm_os env) \<and> pipe_granted (be_pipe_os env)"
  then have all: "list_all2 (shows_values env) (benchmark_measurements env) benchmark_expected" using benchmark_shows [OF assms] by blast
  have "length benchmark_expected = 27"
    by (simp add: benchmark_expected_def memcpy_runs_def raw_shm_sizes_def runs_defs pipe_sizes_def)
  with all run_measurements_shows [OF all, of "[]" k] list_all2_lengthD [OF all]
  show "(\<exists>k'. benchmark_main env k = Some (Going (report env (benchmark_measurements env) benchmark_expected) k')) \<and>
      length (report env (benchmark_measurements env) benchmark_expected) = 27"
    by (simp add: benchmark_main_def report_def)
next
  assume "RawPosixShm_construct (be_shm_os env) ''/bench_raw_posix'' 64 k = (Inl e, k1)"
  then show "benchmark_main env k = Some (Uncaught (report env memcpy_block (bytes_of 0xAA memcpy_runs)) k1)"
    unfolding benchmark_main_def benchmark_measurements_def by (simp only: memcpy_block_runs raw_shm_block_throws)
qed

definition competitors_expected :: "(nat \<Rightarrow> byte) \<Rightarrow> nat \<Rightarrow> (nat \<Rightarrow> bench_value list) list" where
  "competitors_expected pad i =
     map (\<lambda>r. same (Object (snd (snd r)))) cyclic_runs @ [same (Stamp 1)] @
     [same (Object (snd seqlock_cmp_run)), same (Object (snd (snd cyclic_cmp_run)))] @ lookups pad i"

definition kernel_expected :: "(nat \<Rightarrow> bench_value list) list" where
  "kernel_expected = map (\<lambda>sz. same (Sent (int sz) 0xBB)) uds_sizes @ transfers competitors_pipe_sizes @ bytes_of 0xAA competitors_memcpy_runs"

text \<open>
  The program \<^verbatim>\<open>benchmark_competitors\<close>, from beginning to end: with sockets and pipes available it ends and reports
  every measurement of the ring, the comparison, the lookups (whose closest element is 32 or 33), sockets, pipes and \<open>memcpy\<close>; the
  two measurements of message queues are there when the kernel opens queues, and left out without a word when it does not.
\<close>

theorem competitors_program:
  assumes "surroundings_ok env" and "pipe_granted (be_pipe_os env)" and "socket_granted (be_socket_os env)"
    and "mq_granted (be_mq_os env) \<or> mq_refused (be_mq_os env)"
    and "mqs = (if mq_granted (be_mq_os env) then report env (mq_block env) (bytes_of 0xAA mq_sizes) else [])"
  shows "\<exists>i k'. (i = 32 \<or> i = 33) \<and> competitors_main env k = Some (Going
     (report env (cyclic_block env @ cyclic_fhd_block env @ comparison_block env @ lookup_block env) (competitors_expected (be_pad env) i) @
      mqs @ report env (uds_block env @ competitors_pipe_block env @ competitors_memcpy_block) kernel_expected) k')"
proof -
  obtain i where i: "i \<in> {32, 33}" "list_all2 (shows_values env) (lookup_block env) (lookups (be_pad env) i)"
    using lookup_block_shows [OF assms(1)] by blast
  let ?lib = "cyclic_block env @ cyclic_fhd_block env @ comparison_block env @ lookup_block env"
  let ?ker = "uds_block env @ competitors_pipe_block env @ competitors_memcpy_block"
  have lib: "list_all2 (shows_values env) ?lib (competitors_expected (be_pad env) i)"
    unfolding competitors_expected_def by (intro list_all2_appendI cyclic_blocks_show assms i(2))
  have ker: "list_all2 (shows_values env) ?ker kernel_expected"
    unfolding kernel_expected_def by (intro list_all2_appendI uds_block_shows pipe_blocks_show memcpy_blocks_show assms)
  have mq: "\<exists>k'. run_measurements env (mq_block env) rows k = Some (Going (rows @ mqs) k')" for rows k
    using assms(4,5) run_measurements_shows [OF mq_block_shows] run_measurements_skip [OF mq_block_skips] by auto
  have split: "competitors_measurements env = ?lib @ mq_block env @ ?ker" by (simp add: competitors_measurements_def)
  obtain k1 where k1: "run_measurements env ?lib [] k = Some (Going (report env ?lib (competitors_expected (be_pad env) i)) k1)"
    using run_measurements_shows [OF lib, of "[]" k] by auto
  obtain k2 where "run_measurements env (mq_block env) (report env ?lib (competitors_expected (be_pad env) i)) k1
      = Some (Going (report env ?lib (competitors_expected (be_pad env) i) @ mqs) k2)" using mq by blast
  moreover obtain k3 where "run_measurements env ?ker (report env ?lib (competitors_expected (be_pad env) i) @ mqs) k2
      = Some (Going ((report env ?lib (competitors_expected (be_pad env) i) @ mqs) @ report env ?ker kernel_expected) k3)"
    using run_measurements_shows [OF ker] by blast
  ultimately show ?thesis
    using i(1) unfolding competitors_main_def split run_measurements_append [of env ?lib] run_measurements_append [of env "mq_block env"] k1
    by auto
qed

section \<open>Witnesses\<close>

text \<open>A kernel with one channel, its state the bytes under way and its capacity, that grants everything; the framework runs every body once.\<close>

definition granting_shm :: "(byte list \<times> nat) shm_os" where
  "granting_shm = \<lparr>os_shm_open = (\<lambda>_ k. (3, k)), os_ftruncate = (\<lambda>_ _ k. (0, k)), os_mmap = (\<lambda>_ _ k. (Some 4096, k)),
     os_munmap = (\<lambda>_ _ k. k), os_close = (\<lambda>_ k. k), os_shm_unlink = (\<lambda>_ k. k)\<rparr>"

definition granting_pipe :: "(byte list \<times> nat) pipe_os" where
  "granting_pipe = pipe_os_demo\<lparr>os_setpipe_sz := (\<lambda>_ n (d, c). (int n, (d, n)))\<rparr>"

definition granting_socket :: "(byte list \<times> nat) socket_os" where
  "granting_socket = socket_os_demo\<lparr>os_sockopts := (\<lambda>n _. ([], n))\<rparr>"

definition refusing_mq :: "(byte list \<times> nat) mq_os" where
  "refusing_mq = \<lparr>os_mq_unlink = (\<lambda>k. k), os_mq_open = (\<lambda>_ _ k. (False, k)), os_mq_send = (\<lambda>_ _. None), os_mq_receive = (\<lambda>_ _. None),
     os_mq_close = (\<lambda>k. k)\<rparr>"

definition bench_env_demo :: "(byte list \<times> nat) bench_env" where
  "bench_env_demo =
     \<lparr>be_iters = (\<lambda>_ _. 1), be_addr = (\<lambda>_. (8, 16, 24)), be_heap = (\<lambda>_. heap_demo), be_thread = (\<lambda>_. [6]), be_mapped = (\<lambda>_. zero_mem),
      be_pad = (\<lambda>_. 0), be_forks = [(None, 6)], be_shm_os = granting_shm, be_pipe_os = granting_pipe, be_socket_os = granting_socket,
      be_mq_os = refusing_mq\<rparr>"

lemma bench_env_demo_ok:
  "surroundings_ok bench_env_demo" "shm_granted granting_shm" "pipe_granted granting_pipe" "socket_granted granting_socket"
  "mq_refused refusing_mq"
proof -
  show "surroundings_ok bench_env_demo" by (simp add: surroundings_ok_def bench_env_demo_def)
  show "shm_granted granting_shm" by (simp add: shm_granted_def granting_shm_def RawPosixShm_construct_def)
  have "pipe_spec granting_pipe fst snd (3, 4)"
    using pipe_os_demo_spec by (auto simp: pipe_spec_def granting_pipe_def)
  then show "pipe_granted granting_pipe"
    unfolding pipe_granted_def by (intro exI [of _ "(3, 4)"] exI [of _ fst] exI [of _ snd]) (auto simp: granting_pipe_def pipe_os_demo_def)
  have "socket_spec granting_socket fst snd" using socket_os_demo_spec by (simp add: socket_spec_def granting_socket_def)
  then show "socket_granted granting_socket"
    unfolding socket_granted_def by (intro exI [of _ fst] exI [of _ snd]) (simp add: granting_socket_def socket_os_demo_def)
  show "mq_refused refusing_mq" by (simp add: mq_refused_def refusing_mq_def)
qed

text \<open>The same kernel, but out of descriptors.\<close>

definition no_descriptor_env :: "(byte list \<times> nat) bench_env" where
  "no_descriptor_env = bench_env_demo\<lparr>be_shm_os := granting_shm\<lparr>os_shm_open := (\<lambda>_ k. (- 1, k))\<rparr>\<rparr>"

theorem benchmark_program_witness:
  "(\<exists>k'. benchmark_main bench_env_demo ([], 0) = Some (Going (report bench_env_demo (benchmark_measurements bench_env_demo) benchmark_expected) k')) \<and>
   benchmark_main no_descriptor_env ([], 0) = Some (Uncaught (report no_descriptor_env memcpy_block (bytes_of 0xAA memcpy_runs)) ([], 0))"
proof -
  have env: "be_shm_os bench_env_demo = granting_shm" "be_pipe_os bench_env_demo = granting_pipe" by (simp_all add: bench_env_demo_def)
  have "surroundings_ok no_descriptor_env"
    using bench_env_demo_ok(1) by (simp add: surroundings_ok_def no_descriptor_env_def)
  moreover have "RawPosixShm_construct (be_shm_os no_descriptor_env) ''/bench_raw_posix'' 64 ([], 0) = (Inl ShmOpenFailed, ([], 0))"
    by (simp add: RawPosixShm_construct_def no_descriptor_env_def)
  ultimately show ?thesis
    using benchmark_program [OF bench_env_demo_ok(1), of "([], 0)"] benchmark_program [of no_descriptor_env "([], 0)" ShmOpenFailed "([], 0)"]
      bench_env_demo_ok(2,3) unfolding env by blast
qed

theorem competitors_program_witness:
  "\<exists>rows k'. competitors_main bench_env_demo ([], 0) = Some (Going rows k') \<and> length rows = 17"
proof -
  have env: "be_pipe_os bench_env_demo = granting_pipe" "be_socket_os bench_env_demo = granting_socket" "be_mq_os bench_env_demo = refusing_mq"
    by (simp_all add: bench_env_demo_def)
  have no: "\<not> mq_granted refusing_mq" by (auto simp: mq_granted_def refusing_mq_def)
  from competitors_program [OF bench_env_demo_ok(1), unfolded env, OF bench_env_demo_ok(3,4) _ refl, of "([], 0)"] bench_env_demo_ok(5) no
  obtain i k' where "competitors_main bench_env_demo ([], 0) = Some (Going
     (report bench_env_demo (cyclic_block bench_env_demo @ cyclic_fhd_block bench_env_demo @ comparison_block bench_env_demo @ lookup_block bench_env_demo)
        (competitors_expected (be_pad bench_env_demo) i) @
      report bench_env_demo (uds_block bench_env_demo @ competitors_pipe_block bench_env_demo @ competitors_memcpy_block) kernel_expected) k')"
    by auto
  moreover have "length (report e (cyclic_block e @ cyclic_fhd_block e @ comparison_block e @ lookup_block e) (competitors_expected pad i)) = 9"
    "length (report e (uds_block e @ competitors_pipe_block e @ competitors_memcpy_block) kernel_expected) = 8" for e :: "(byte list \<times> nat) bench_env" and pad
    by (simp_all add: report_def competitors_expected_def kernel_expected_def cyclic_block_def cyclic_fhd_block_def comparison_block_def
        lookup_block_def uds_block_def competitors_pipe_block_def competitors_memcpy_block_def cyclic_runs_def uds_sizes_def
        competitors_pipe_sizes_def competitors_memcpy_runs_def Let_def)
  ultimately show ?thesis by simp
qed

end
