(* ===== verification/Image_Bindings.thy ===== *)
theory Image_Bindings
  imports Bindings Double_Buffer
begin

text \<open>
  The image classes of the Python module \<^verbatim>\<open>image_shm_dblbuff\<close> (\<^verbatim>\<open>src/bindings/nanobind_image_shm.cpp\<close>) on top of
  \<open>Double_Buffer\<close>: \<open>DoubleBufferShm\<close> for 4K images and the accessors of \<open>Snapshot\<close>. An accessor
  dereferences the snapshot, so its failed assertion is an error value here too. At the end, what
  \<open>load()\<close> of the producer/consumer class returns.
\<close>

section \<open>Snapshots\<close>

definition py_snapshot_timestamp :: "loader \<Rightarrow> assertion + u64" where
  "py_snapshot_timestamp d = map_sum id (\<lambda>bs. img_timestamp (decode_image bs)) (Snapshot_deref d)"

definition py_snapshot_frame_number :: "loader \<Rightarrow> assertion + u64" where
  "py_snapshot_frame_number d = map_sum id (\<lambda>bs. img_frame_number (decode_image bs)) (Snapshot_deref d)"

definition py_snapshot_get_data :: "loader \<Rightarrow> assertion + byte list" where
  "py_snapshot_get_data d = map_sum id (\<lambda>bs. py_get_data (decode_image bs)) (Snapshot_deref d)"

section \<open>The double-buffered segment\<close>

definition py_dbshm_new :: "ptr \<Rightarrow> ptr \<Rightarrow> ptr \<Rightarrow> heap \<Rightarrow> assertion + loader runner" where
  "py_dbshm_new shm pre slot h = DoubleBufferShm_construct Image4K_RGB shm pre slot h"

definition py_dbshm_store :: "Image \<Rightarrow> loader runner \<Rightarrow> loader runner" where
  "py_dbshm_store img r = DoubleBufferShm_store (encode_image img) r"

definition py_dbshm_load :: "loader runner \<Rightarrow> assertion + loader runner" where
  "py_dbshm_load r = DoubleBufferShm_load r"

definition py_dbshm_wait_returns :: "loader runner \<Rightarrow> bool" where
  "py_dbshm_wait_returns r = DoubleBufferShm_wait_returns r"

text \<open>
  A script that passes images through the segment: for each, fill it with \<open>set_data\<close>, \<open>store\<close>, \<open>load\<close>, \<open>wait\<close>, and read
  the snapshot. With each image comes the number of statements the background thread executes before \<open>wait\<close>.
\<close>

record frame =
  fr_image :: Image
  fr_array :: "byte list"
  fr_steps :: nat

fun pass_frames :: "frame list \<Rightarrow> loader runner \<Rightarrow> ((u64 \<times> u64 \<times> byte list) list \<times> loader runner) option" where
  "pass_frames [] r = Some ([], r)"
| "pass_frames (f # fs) r =
     (case py_dbshm_load (py_dbshm_store (py_set_data (fr_array f) (fr_image f)) r) of
        Inl msg \<Rightarrow> None
      | Inr r1 \<Rightarrow>
          let r2 = run_steps (DoubleBufferShm_task Image4K_RGB) (fr_steps f) r1
          in if \<not> py_dbshm_wait_returns r2 then None
             else case (py_snapshot_timestamp (owner r2), py_snapshot_frame_number (owner r2), py_snapshot_get_data (owner r2)) of
                    (Inr ts, Inr n, Inr bs) \<Rightarrow> map_option (\<lambda>(vs, r). ((ts, n, bs) # vs, r)) (pass_frames fs r2)
                  | _ \<Rightarrow> None)"

definition frame_ok :: "frame \<Rightarrow> bool" where
  "frame_ok f \<longleftrightarrow> length (fr_array f) = py_image_bytes \<and> length (img_data (fr_image f)) = py_image_bytes \<and> 6 \<le> fr_steps f"

definition frame_values :: "frame \<Rightarrow> u64 \<times> u64 \<times> byte list" where
  "frame_values f = (img_timestamp (fr_image f), img_frame_number (fr_image f), fr_array f)"

lemma decode_encode_image: "decode_image (encode_image img) = img"
  by (simp add: decode_image_def encode_image_def)

lemma set_data_whole:
  "length arr = py_image_bytes \<Longrightarrow> length (img_data img) = py_image_bytes \<Longrightarrow> py_set_data arr img = img\<lparr>img_data := arr\<rparr>"
  by (simp add: py_set_data_def)

lemma pass_one_frame:
  assumes "loader_ready Image4K_RGB r" and "frame_ok f"
  obtains r1 r2 where "py_dbshm_load (py_dbshm_store (py_set_data (fr_array f) (fr_image f)) r) = Inr r1"
    and "r2 = run_steps (DoubleBufferShm_task Image4K_RGB) (fr_steps f) r1" and "py_dbshm_wait_returns r2"
    and "py_snapshot_timestamp (owner r2) = Inr (img_timestamp (fr_image f))"
    and "py_snapshot_frame_number (owner r2) = Inr (img_frame_number (fr_image f))"
    and "py_snapshot_get_data (owner r2) = Inr (fr_array f)" and "loader_ready Image4K_RGB r2"
proof -
  let ?img = "(fr_image f)\<lparr>img_data := fr_array f\<rparr>"
  have arr: "length (fr_array f) = py_image_bytes" and steps: "6 \<le> fr_steps f" and set: "py_set_data (fr_array f) (fr_image f) = ?img"
    using assms(2) by (simp_all add: frame_ok_def set_data_whole)
  from load_wait_ready [OF store_ready(1) [OF assms(1)] steps, of "encode_image ?img"]
  obtain r1 where "DblBufLoader_load (DoubleBufferShm_store (encode_image ?img) r) = Inr r1"
    "DblBufLoader_wait_returns (run_steps (DblBufLoader_task Image4K_RGB) (fr_steps f) r1)"
    "Snapshot_deref (owner (run_steps (DblBufLoader_task Image4K_RGB) (fr_steps f) r1)) = Inr (encode_image ?img)"
    "loader_ready Image4K_RGB (run_steps (DblBufLoader_task Image4K_RGB) (fr_steps f) r1)"
    unfolding store_ready(2) by blast
  then show thesis
    by (intro that [of r1 "run_steps (DblBufLoader_task Image4K_RGB) (fr_steps f) r1"])
      (simp_all add: set arr py_dbshm_load_def py_dbshm_store_def py_dbshm_wait_returns_def DoubleBufferShm_same
        py_snapshot_timestamp_def py_snapshot_frame_number_def py_snapshot_get_data_def decode_encode_image py_get_data_def)
qed

lemma pass_frames_ready:
  assumes "loader_ready Image4K_RGB r" and "\<forall>f \<in> set fs. frame_ok f"
  shows "\<exists>r'. pass_frames fs r = Some (map frame_values fs, r') \<and> loader_ready Image4K_RGB r'"
  using assms
proof (induction fs arbitrary: r)
  case (Cons f fs)
  then have "frame_ok f" by simp
  from pass_one_frame [OF Cons.prems(1) this] obtain r1 r2 where
    r: "py_dbshm_load (py_dbshm_store (py_set_data (fr_array f) (fr_image f)) r) = Inr r1"
       "r2 = run_steps (DoubleBufferShm_task Image4K_RGB) (fr_steps f) r1" "py_dbshm_wait_returns r2"
       "py_snapshot_timestamp (owner r2) = Inr (img_timestamp (fr_image f))"
       "py_snapshot_frame_number (owner r2) = Inr (img_frame_number (fr_image f))"
       "py_snapshot_get_data (owner r2) = Inr (fr_array f)" "loader_ready Image4K_RGB r2" by blast
  from Cons.IH [OF r(7)] Cons.prems(2) obtain r' where
    "pass_frames fs r2 = Some (map frame_values fs, r')" "loader_ready Image4K_RGB r'" by auto
  with r show ?case by (simp add: frame_values_def flip: r(2))
qed simp

text \<open>
  C38. Images passed through the Python module's double-buffered segment come out as they went in: from the
  construction on, for any number of images with arrays of the declared shape, whenever the background thread gets
  through its round before \<open>wait\<close>, no assertion fails, every \<open>wait\<close> returns, and the snapshot then shows the
  time stamp, the frame number and the array of the image just stored.
\<close>

theorem python_image_roundtrip:
  assumes "shm \<noteq> 0" "pre \<noteq> 0" "slot \<noteq> 0" "shm \<noteq> pre" and "\<forall>f \<in> set fs. frame_ok f"
  shows "\<exists>r r'. py_dbshm_new shm pre slot h = Inr r \<and> pass_frames fs r = Some (map frame_values fs, r')"
proof -
  have "alignof Image4K_RGB dvd shm" "alignof Image4K_RGB dvd pre" by (simp_all add: Image4K_RGB_def Image_type_def)
  from construct_ready [OF assms(1-4) this] obtain r where
    "DoubleBufferShm_construct Image4K_RGB shm pre slot h = Inr r" "loader_ready Image4K_RGB r" by metis
  with pass_frames_ready [OF _ assms(5)] show ?thesis by (auto simp: py_dbshm_new_def)
qed

section \<open>What \<open>load()\<close> of the producer/consumer class returns\<close>

text \<open>Every \<open>load()\<close> of a process returns its one object \<open>image_\<close>. A caller that keeps the image of the first \<open>load()\<close>
  finds the second image in it after the next \<open>load()\<close>.\<close>

lemma py_load_overwrites_returned:
  "\<exists>s s'. py_reachable nat_sem (flat 1 1) zero_mem s \<and> py_loaded s = [[7]] \<and> py_at s 1 = PyIdle \<and> py_image s (1 :: nat) = [7] \<and>
     py_reachable nat_sem (flat 1 1) zero_mem s' \<and> py_loaded s' = [[7], [9]] \<and> py_image s' (1 :: nat) = [9]"
proof -
  let ?new = "ShmProducerConsumer_new nat_sem (flat 1 1) zero_mem :: (nat, nat) py_prodcons"
  obtain s where s: "py_run nat_sem (flat 1 1) py_demo ?new = Some s" "py_loaded s = [[7]]" "py_image s 1 = [7]" "py_at s 1 = PyIdle"
    by (simp add: py_demo_def nat_sem_def ShmProducerConsumer_new_def py_store_step_def py_load_step_def py_move_def)
  obtain s' where s': "py_run nat_sem (flat 1 1) (py_demo @ [CallConsume 1, PcStep 1, PcStep 1, PcStep 1]) ?new = Some s'"
      "py_loaded s' = [[7], [9]]" "py_image s' 1 = [9]"
    by (simp add: py_demo_def nat_sem_def ShmProducerConsumer_new_def py_store_step_def py_load_step_def py_move_def)
  with s show ?thesis using py_run_reachable [OF py_reachable.init] by blast
qed

section \<open>Witnesses\<close>

theorem python_image_roundtrip_witness:
  "\<exists>r r'. py_dbshm_new 1 2 3 heap_demo = Inr r \<and>
     pass_frames [\<lparr>fr_image = \<lparr>img_timestamp = 5, img_frame_number = 1, img_data = replicate py_image_bytes 0\<rparr>,
                   fr_array = replicate py_image_bytes 255, fr_steps = 8\<rparr>] r
       = Some ([(5, 1, replicate py_image_bytes 255)], r')"
  using python_image_roundtrip [of 1 2 3 "[\<lparr>fr_image = \<lparr>img_timestamp = 5, img_frame_number = 1, img_data = replicate py_image_bytes 0\<rparr>,
                   fr_array = replicate py_image_bytes 255, fr_steps = 8\<rparr>]" heap_demo]
  by (simp add: frame_ok_def frame_values_def)

end
