(* ===== verification/Process_Death.thy ===== *)
theory Process_Death
  imports Seqlock Cyclic_History Producer_Consumer Storage
begin

text \<open>
  What a process that dies in the middle of an operation leaves behind. Segments, lock words and semaphores
  outlive the processes that use them, and the constructors of the writers only map a segment: they look neither at
  the sequence counters nor at the lock word. A death is the execution of a proper beginning of an
  operation's accesses; a restarted writer then works on the segment as it is, and the steps of a dead
  process are missing from the rest of a run of a lock or a semaphore pair.
\<close>

section \<open>Seqlock\<close>

text \<open>The segment after a writer died when \<open>t\<close> accesses of \<open>store(d)\<close> were made.\<close>

definition seqlock_after_death :: "ctype \<Rightarrow> byte list \<Rightarrow> nat \<Rightarrow> mem \<Rightarrow> mem" where
  "seqlock_after_death T d t m = exec_acts (take t (SeqlockWriter_store T d m)) m"

abbreviation seqlock_object :: "ctype \<Rightarrow> mem \<Rightarrow> byte list" where
  "seqlock_object T m \<equiv> load_bytes m (SeqlockRegion_data_offset T) (sizeof T)"

lemma load_bytes_store_prefix:
  "length bs \<le> n \<Longrightarrow> load_bytes (store_bytes bs a m) a n = bs @ drop (length bs) (load_bytes m a n)"
  by (rule nth_equalityI) (auto simp: store_bytes_def nth_append)

lemma seqlock_after_death_parts:
  assumes "wf_ctype T" and "length d = sizeof T"
  shows "load_u32 (seqlock_after_death T d t m) 0 = load_u32 m 0 + (if t = 0 then 0 else if t < sizeof T + 2 then 1 else 2)"
    and "0 < t \<Longrightarrow> t < sizeof T + 2 \<Longrightarrow>
      seqlock_object T (seqlock_after_death T d t m) = take (t - 1) d @ drop (t - 1) (seqlock_object T m)"
    and "sizeof T + 2 \<le> t \<Longrightarrow> seqlock_object T (seqlock_after_death T d t m) = d"
proof -
  have short: "disjoint_range (SeqlockRegion_data_offset T) k 0 4" if "k \<le> sizeof T" for k
    using seqlock_layout(4) [OF assms(1)] that by (auto simp: disjoint_range_def)
  show "load_u32 (seqlock_after_death T d t m) 0 = load_u32 m 0 + (if t = 0 then 0 else if t < sizeof T + 2 then 1 else 2)"
    using assms short by (auto simp: seqlock_after_death_def exec_store_prefix mem_simps)
  show "seqlock_object T (seqlock_after_death T d t m) = take (t - 1) d @ drop (t - 1) (seqlock_object T m)"
    if "0 < t" "t < sizeof T + 2"
    using that assms by (simp add: seqlock_after_death_def exec_store_prefix load_bytes_store_prefix mem_simps layout_simps)
  show "seqlock_object T (seqlock_after_death T d t m) = d" if "sizeof T + 2 \<le> t"
    using that assms by (simp add: seqlock_after_death_def exec_store_prefix mem_simps)
qed

lemma exec_stores_parts:
  assumes "wf_ctype T" and "\<forall>x \<in> set ds. length x = sizeof T"
  shows "load_u32 (exec_ops (SeqlockWriter_store T) ds m) 0 = load_u32 m 0 + 2 * of_nat (length ds)"
    and "seqlock_object T (exec_ops (SeqlockWriter_store T) ds m) = last (seqlock_object T m # ds)"
  using assms(2)
proof (induction ds arbitrary: m)
  case (Cons d ds)
  { case 1 with Cons.IH(1) show ?case by (simp add: exec_store load_seqlock_stored [OF assms(1)] algebra_simps) }
  { case 2 with Cons.IH(2) show ?case by (simp add: exec_store load_seqlock_stored [OF assms(1)]) }
qed simp_all

lemma SeqlockReader_load_odd:
  assumes "\<And>k. c \<le> k \<Longrightarrow> odd (load_u32 (view k) 0)"
  shows "SeqlockReader_load T view c = None"
proof (rule ccontr)
  assume "SeqlockReader_load T view c \<noteq> None"
  then obtain v c' where "SeqlockReader_load T view c = Some (v, c')" by auto
  from SeqlockReader_load_SomeD [OF this] assms show False by blast
qed

lemma SeqlockReader_load_blocking_odd:
  assumes "\<And>k. c \<le> k \<Longrightarrow> odd (load_u32 (view k) 0)" and "futex_spec futex"
  shows "SeqlockReader_load_blocking T futex view lst None c = None"
proof (rule ccontr)
  assume "SeqlockReader_load_blocking T futex view lst None c \<noteq> None"
  then obtain res lst' c' where r: "SeqlockReader_load_blocking T futex view lst None c = Some ((res, lst'), c')" by auto
  show False
  proof (cases res)
    case None
    with SeqlockReader_load_blocking_SomeD [OF r] assms(2) show ?thesis by (auto simp: futex_spec_def)
  next
    case (Some v)
    with SeqlockReader_load_blocking_SomeD [OF r] assms(1) show ?thesis by auto
  qed
qed

lemma SeqlockReader_load_at_rest:
  "even (load_u32 m 0) \<Longrightarrow> SeqlockReader_load T (\<lambda>_. m) c = Some (seqlock_object T m, c + 2 + sizeof T)"
  by (subst SeqlockReader_load_step) simp

section \<open>Cyclic buffer\<close>

definition cyclic_after_death :: "ctype \<Rightarrow> nat \<Rightarrow> byte list \<Rightarrow> nat \<Rightarrow> mem \<Rightarrow> mem" where
  "cyclic_after_death T N d t m = exec_acts (take t (CyclicBufferWriter_insert T N d m)) m"

text \<open>The same count and the same slots, except for slot \<open>i\<close>.\<close>

definition same_except :: "ctype \<Rightarrow> nat \<Rightarrow> mem \<Rightarrow> mem \<Rightarrow> bool" where
  "same_except T i m m' \<longleftrightarrow> load_u64 m 0 = load_u64 m' 0 \<and>
     (\<forall>j. j \<noteq> i \<longrightarrow> load_u32 m (slot_seq T j) = load_u32 m' (slot_seq T j) \<and>
        load_bytes m (slot_data T j) (sizeof T) = load_bytes m' (slot_data T j) (sizeof T))"

lemma insert_same_except:
  assumes "wf_ctype T" and "CyclicBuffer_capacity_ok N" and "length d = sizeof T" and "same_except T i m m'"
  shows "same_except T i (exec_acts (CyclicBufferWriter_insert T N d m) m) (exec_acts (CyclicBufferWriter_insert T N d m') m')"
proof -
  let ?j = "next_slot N m"
  have j: "next_slot N m' = ?j" using assms(4) by (simp add: same_except_def next_slot_def)
  have "load_u32 (cyclic_inserted T ?j d m) (slot_seq T k) = load_u32 (cyclic_inserted T ?j d m') (slot_seq T k) \<and>
      load_bytes (cyclic_inserted T ?j d m) (slot_data T k) (sizeof T) = load_bytes (cyclic_inserted T ?j d m') (slot_data T k) (sizeof T)"
    if "k \<noteq> i" for k
    using that assms(4) by (cases "k = ?j") (simp_all add: load_inserted [OF assms(1,3)] same_except_def)
  then show ?thesis
    using assms(4) by (simp add: exec_insert [OF assms(2)] j same_except_def load_inserted [OF assms(1,3)])
qed

lemma insert_parity:
  assumes "wf_ctype T" and "CyclicBuffer_capacity_ok N" and "length d = sizeof T"
  shows "even (load_u32 (exec_acts (CyclicBufferWriter_insert T N d m) m) (slot_seq T i)) = even (load_u32 m (slot_seq T i))"
  by (cases "i = next_slot N m") (simp_all add: exec_insert [OF assms(2)] load_inserted [OF assms(1,3)])

lemma inserts_same_except:
  assumes "cb_ok b" and "\<forall>d \<in> set ds. cb_object b d" and "same_except (cb_T b) i m (cb_m b)" and "odd (load_u32 m (slot_seq (cb_T b) i))"
  shows "same_except (cb_T b) i (exec_ops (CyclicBufferWriter_insert (cb_T b) (cb_N b)) ds m) (cb_m (fold cb_insert ds b)) \<and>
         odd (load_u32 (exec_ops (CyclicBufferWriter_insert (cb_T b) (cb_N b)) ds m) (slot_seq (cb_T b) i))"
  using assms
proof (induction ds arbitrary: b m)
  case (Cons d ds)
  have len: "length d = sizeof (cb_T b)" using Cons.prems(2) by (simp add: cb_object_def object_of_def)
  note ok = cb_okD(1,2) [OF Cons.prems(1)]
  have "same_except (cb_T b) i (exec_acts (CyclicBufferWriter_insert (cb_T b) (cb_N b) d m) m) (cb_m (cb_insert d b))"
    using insert_same_except [OF ok len Cons.prems(3)] by (simp add: cb_insert_def)
  moreover have "odd (load_u32 (exec_acts (CyclicBufferWriter_insert (cb_T b) (cb_N b) d m) m) (slot_seq (cb_T b) i))"
    using insert_parity [OF ok len] Cons.prems(4) by simp
  moreover have "cb_ok (cb_insert d b)" using cb_ok_insert Cons.prems(1,2) by simp
  moreover have "\<forall>x \<in> set ds. cb_object (cb_insert d b) x" using Cons.prems(2) by (simp add: cb_object_def)
  ultimately show ?case using Cons.IH [of "cb_insert d b"] by simp
qed simp

lemma fold_cb_insert_T: "cb_T (fold cb_insert ds b) = cb_T b"
  by (induction ds arbitrary: b) simp_all

lemma cyclic_after_death_parts:
  assumes "cb_ok b" and "cb_object b d" and "0 < t" "t < sizeof (cb_T b) + 2" and "i = cb_count b mod cb_N b"
    and "m = cyclic_after_death (cb_T b) (cb_N b) d t (cb_m b)"
  shows "same_except (cb_T b) i m (cb_m b)" and "odd (load_u32 m (slot_seq (cb_T b) i))"
proof -
  note ok = cb_okD(1,2) [OF assms(1)]
  have len: "length (take (t - 1) d) \<le> sizeof (cb_T b)" "length d = sizeof (cb_T b)"
    using assms(2,4) by (simp_all add: cb_object_def object_of_def)
  have i: "i = next_slot (cb_N b) (cb_m b)" using assms(5) by (simp add: next_slot_def cb_count_def)
  have m: "m = store_bytes (take (t - 1) d) (slot_data (cb_T b) i)
      (store_u32 (load_u32 (cb_m b) (slot_seq (cb_T b) i) + 1) (slot_seq (cb_T b) i) (cb_m b))"
    using exec_insert_prefix [OF ok(2) i, of t "cb_T b" d] assms(3,4,6) len(2) by (simp add: cyclic_after_death_def)
  note w = load_slot_writing [OF ok(1) len(1) m]
  show "same_except (cb_T b) i m (cb_m b)" using w by (simp add: same_except_def)
  have "i < cb_N b" using cb_okD(3) [OF assms(1)] assms(5) by simp
  then have "even (load_u32 (cb_m b) (slot_seq (cb_T b) i))" using assms(1) by (simp add: cb_ok_def)
  then show "odd (load_u32 m (slot_seq (cb_T b) i))" using w(1) by simp
qed

text \<open>The readers on a segment with one odd slot.\<close>

lemma read_slot_odd:
  assumes "odd (load_u32 m (slot_seq T i))"
  shows "CyclicBufferReader_read_slot T (\<lambda>_. m) i c = None"
proof (rule ccontr)
  assume "CyclicBufferReader_read_slot T (\<lambda>_. m) i c \<noteq> None"
  then obtain v c' where "CyclicBufferReader_read_slot T (\<lambda>_. m) i c = Some (v, c')" by auto
  from read_slot_SomeD [OF this] assms show False by (simp add: slot_pass_def)
qed

lemma try_read_slot_odd:
  assumes "odd (load_u32 m (slot_seq T i))" and "mx < - 1"
  shows "\<exists>c'. CyclicBufferReader_try_read_slot T (\<lambda>_. m) i mx c = Some (None, c')"
proof -
  obtain v c' where r: "CyclicBufferReader_try_read_slot_from T (\<lambda>_. m) i mx 0 c = Some (v, c')"
    using try_read_slot_from_returns [OF assms(2), of 0 T "\<lambda>_. m" i c] by auto
  have "v = None"
  proof (cases v)
    case (Some x)
    with try_read_slot_from_SomeD [of T "\<lambda>_. m" i mx 0 c x c'] r assms(1) show ?thesis by (simp add: slot_pass_def)
  qed
  with r show ?thesis by (simp add: CyclicBufferReader_try_read_slot_def)
qed

lemma damaged_ring:
  assumes "cb_ok b" and same: "same_except (cb_T b) i m (cb_m b)" and odd: "odd (load_u32 m (slot_seq (cb_T b) i))" and "mx < - 1"
  shows "map_option fst (CyclicBufferReader_try_get (cb_T b) (cb_N b) (\<lambda>_. m) ri mx c)
      = Some (if unat ri < length (cb_contents b) \<and> (cb_count b - 1 - unat ri) mod cb_N b \<noteq> i then Some (cb_contents b ! unat ri) else None)"
    and "map_option fst (CyclicBufferReader_get_latest (cb_T b) (cb_N b) (\<lambda>_. m) c)
      = (if cb_contents b = [] then Some (value_init (cb_T b)) else if (cb_count b - 1) mod cb_N b = i then None else Some (hd (cb_contents b)))"
proof -
  let ?T = "cb_T b" and ?N = "cb_N b" and ?w = "load_u64 m 0"
  note cap = cb_okD(2) [OF assms(1)] and pos = cb_okD(3) [OF assms(1)]
  have w: "unat ?w = cb_count b" using same by (simp add: same_except_def cb_count_def)
  have slot: "even (load_u32 m (slot_seq ?T j))" "load_bytes m (slot_data ?T j) (sizeof ?T) = load_bytes (cb_m b) (slot_data ?T j) (sizeof ?T)"
    if "j \<noteq> i" "j < ?N" for j
    using that same assms(1) by (simp_all add: same_except_def cb_ok_def)
  show "map_option fst (CyclicBufferReader_try_get ?T ?N (\<lambda>_. m) ri mx c)
      = Some (if unat ri < length (cb_contents b) \<and> (cb_count b - 1 - unat ri) mod ?N \<noteq> i then Some (cb_contents b ! unat ri) else None)"
  proof (cases "unat ri < length (cb_contents b)")
    case True
    let ?j = "(cb_count b - 1 - unat ri) mod ?N"
    have get: "CyclicBufferReader_try_get ?T ?N (\<lambda>_. m) ri mx c = CyclicBufferReader_try_read_slot ?T (\<lambda>_. m) ?j mx (c + 1)"
      using True min_writes [OF cap, of ?w] reverse_slot [OF cap, of ri ?w] w
      by (auto simp: CyclicBufferReader_try_get_def Let_def word_le_nat_alt)
    show ?thesis
    proof (cases "?j = i")
      case True
      with try_read_slot_odd [OF odd assms(4), of "c + 1"] get show ?thesis by auto
    next
      case False
      with True slot [of ?j] pos get show ?thesis by (simp add: try_read_slot_at_rest)
    qed
  next
    case False
    then show ?thesis
      using min_writes [OF cap, of ?w] w by (auto simp: CyclicBufferReader_try_get_def Let_def word_le_nat_alt)
  qed
  show "map_option fst (CyclicBufferReader_get_latest ?T ?N (\<lambda>_. m) c)
      = (if cb_contents b = [] then Some (value_init ?T) else if (cb_count b - 1) mod ?N = i then None else Some (hd (cb_contents b)))"
  proof (cases "cb_contents b = []")
    case True
    then have "cb_count b = 0" using pos length_cb_contents [of b] by (metis length_0_conv min_def not_less_zero)
    then have "?w = 0" using w by (simp add: unat_eq_0)
    with True show ?thesis by (simp add: CyclicBufferReader_get_latest_def)
  next
    case False
    then have n: "0 < cb_count b" using length_cb_contents [of b] by (metis gr0I length_0_conv min_0L)
    then have "?w \<noteq> 0" using w by auto
    then have "unat (?w - 1) = cb_count b - 1" using w n by (metis unat_minus_one)
    then have "CyclicBufferReader_get_latest ?T ?N (\<lambda>_. m) c = CyclicBufferReader_read_slot ?T (\<lambda>_. m) ((cb_count b - 1) mod ?N) (c + 1)"
      using \<open>?w \<noteq> 0\<close> by (simp add: CyclicBufferReader_get_latest_def unat_and_capacity [OF cap])
    with False odd slot [of "(cb_count b - 1) mod ?N"] pos n show ?thesis
      by (auto simp: read_slot_odd read_slot_at_rest hd_conv_nth)
  qed
qed

lemma mod_add_right_cancel_nat: "(a + c) mod n = (b + c) mod n \<longleftrightarrow> a mod n = b mod (n :: nat)"
proof -
  have "int ((a + c) mod n) = int ((b + c) mod n) \<longleftrightarrow> int (a mod n) = int (b mod n)"
    by (simp only: zmod_int mod_eq_dvd_iff of_nat_add) (simp add: algebra_simps)
  then show ?thesis by (simp only: of_nat_eq_iff)
qed

lemma lost_index:
  assumes "k < C + L"
  shows "(C + L - 1 - k) mod N = C mod N \<longleftrightarrow> Suc k mod N = L mod N"
proof -
  have "C + L - 1 - k + Suc k = L + C" using assms by simp
  then show ?thesis
    using mod_add_right_cancel_nat [of "C + L - 1 - k" "Suc k" N C] mod_add_right_cancel_nat [of L C N "Suc k"]
    by (metis add.commute mod_add_right_cancel_nat)
qed

section \<open>Lock and hand-over\<close>

text \<open>A process inside \<open>produce\<close> or \<open>consume\<close> has the token with it.\<close>

definition pc_dead :: "('q \<Rightarrow> nat) \<Rightarrow> 'p \<Rightarrow> ('p, 'q) prodcons \<Rightarrow> bool" where
  "pc_dead cnt p s \<longleftrightarrow> cnt (pc_read s) = 0 \<and> cnt (pc_write s) = 0 \<and> (\<forall>q. q \<noteq> p \<longrightarrow> \<not> inside (pc_at s q))"

lemma pc_dead_exec:
  assumes "sem_spec ops cnt" and "pc_dead cnt p s" and "ProducerConsumer_exec ops T e s = Some s'" and "e \<noteq> PcStep p"
  shows "pc_dead cnt p s' \<and> pc_produced s' = pc_produced s \<and> pc_consumed s' = pc_consumed s"
proof (cases e)
  case (PcStep q)
  have "sem_wait ops (pc_write s) = None" "sem_wait ops (pc_read s) = None"
    using assms(1,2) by (auto simp: sem_spec_def pc_dead_def)
  moreover have "\<not> inside (pc_at s q)" using assms(2,4) PcStep by (simp add: pc_dead_def)
  ultimately show ?thesis
    using assms(3) PcStep by (cases "pc_at s q") (auto simp: produce_step_def consume_step_def)
qed (use assms in \<open>auto simp: pc_dead_def split: if_splits\<close>)

lemma pc_dead_run:
  "sem_spec ops cnt \<Longrightarrow> pc_dead cnt p s \<Longrightarrow> pc_run ops T es s = Some s' \<Longrightarrow> PcStep p \<notin> set es \<Longrightarrow>
     pc_dead cnt p s' \<and> pc_produced s' = pc_produced s \<and> pc_consumed s' = pc_consumed s"
proof (induction es arbitrary: s)
  case (Cons e es)
  then obtain s1 where s1: "ProducerConsumer_exec ops T e s = Some s1" "pc_run ops T es s1 = Some s'"
    by (auto split: option.splits)
  moreover have "e \<noteq> PcStep p" "PcStep p \<notin> set es" using Cons.prems(4) by auto
  ultimately show ?case using pc_dead_exec [OF Cons.prems(1,2) s1(1)] Cons.IH [OF Cons.prems(1) _ s1(2)] by simp
qed simp

section \<open>Properties\<close>

text \<open>
  C8. A seqlock whose writer died, at any point of \<open>store(d)\<close>, and whose restarted writer has completed any number of stores since.
  Outside the window between the two counter updates nothing is lost: the next load returns the last object
  stored and the writer's guarantees hold again. Inside it the counter is left odd, and since a store adds two it stays odd for ever:
  no load and no blocking load without timeout ever returns while the segment is unchanged, however many
  stores were completed; and in every later store the counter is even exactly while the object is
  being copied, so that a load then returns the first bytes of the new object followed by the rest of the old one.
\<close>

theorem seqlock_writer_death:
  assumes "wf_ctype T" and "even (load_u32 m 0)" and "length d = sizeof T" and "\<forall>x \<in> set ds. length x = sizeof T"
    and "futex_spec futex" and "m' = exec_ops (SeqlockWriter_store T) ds (seqlock_after_death T d t m)"
  shows "if 0 < t \<and> t < sizeof T + 2
         then SeqlockReader_load T (\<lambda>_. m') c = None \<and> SeqlockReader_load_blocking T futex (\<lambda>_. m') last_seq None c = None \<and>
              (\<forall>x j. length x = sizeof T \<longrightarrow> j \<le> sizeof T \<longrightarrow>
                 SeqlockReader_load T (\<lambda>_. exec_acts (take (Suc j) (SeqlockWriter_store T x m')) m') c
                   = Some (take j x @ drop j (load_bytes m' (SeqlockRegion_data_offset T) (sizeof T)), c + 2 + sizeof T))
         else sl_invar \<lparr>sl_type = T, sl_mem0 = m', sl_stores = ds'\<rparr> = (\<forall>x \<in> set ds'. length x = sizeof T) \<and>
              SeqlockReader_load T (\<lambda>_. m') c
                = Some (last ((if t = 0 then load_bytes m (SeqlockRegion_data_offset T) (sizeof T) else d) # ds), c + 2 + sizeof T)"
proof -
  let ?dead = "seqlock_after_death T d t m"
  note dead = seqlock_after_death_parts [OF assms(1,3), of t m] and stores = exec_stores_parts [OF assms(1,4), of ?dead]
  show ?thesis
  proof (cases "0 < t \<and> t < sizeof T + 2")
    case True
    then have odd: "odd (load_u32 m' 0)" using assms(2,6) dead(1) stores(1) by simp
    have "SeqlockReader_load T (\<lambda>_. exec_acts (take (Suc j) (SeqlockWriter_store T x m')) m') c
        = Some (take j x @ drop j (seqlock_object T m'), c + 2 + sizeof T)" if "length x = sizeof T" "j \<le> sizeof T" for x j
      using seqlock_after_death_parts [OF assms(1) that(1), of "Suc j" m'] that(2) odd
        SeqlockReader_load_at_rest [of "seqlock_after_death T x (Suc j) m'" T c]
      by (simp add: seqlock_after_death_def)
    with True odd show ?thesis
      by (simp add: SeqlockReader_load_odd SeqlockReader_load_blocking_odd [OF _ assms(5)])
  next
    case False
    then have even: "even (load_u32 m' 0)" using assms(2,6) dead(1) stores(1) by (auto split: if_splits)
    have "seqlock_object T ?dead = (if t = 0 then seqlock_object T m else d)"
      using False dead(3) by (auto simp: seqlock_after_death_def)
    with False even stores(2) show ?thesis
      unfolding assms(6) by (simp add: sl_invar_def assms(1) SeqlockReader_load_at_rest)
  qed
qed

text \<open>
  C17. A ring whose writer died while it copied an object into its slot, and whose restarted writer has since completed the
  insertions \<open>ds\<close>. The slot's counter stays odd for ever. Of the restarted writer's objects the first, and then every
  \<open>N\<close>-th, can never be read: \<open>try_get\<close> answers with nothing at its index, and \<open>get_latest\<close> does not return while it is the newest.
  Every other index answers as if the writer had not died.
\<close>

theorem cyclic_writer_death:
  assumes "cb_ok b" and "cb_object b d" and "0 < t" "t < sizeof (cb_T b) + 2"
    and "\<forall>x \<in> set ds. cb_object b x" and "cb_count b + length ds < 2 ^ 64" and "mx < - 1"
    and "m = exec_ops (CyclicBufferWriter_insert (cb_T b) (cb_N b)) ds (cyclic_after_death (cb_T b) (cb_N b) d t (cb_m b))"
    and "window = take (cb_N b) (rev ds @ cb_contents b)"
  shows "map_option fst (CyclicBufferReader_try_get (cb_T b) (cb_N b) (\<lambda>_. m) ri mx c)
           = Some (if unat ri < length window \<and> Suc (unat ri) mod cb_N b \<noteq> length ds mod cb_N b then Some (window ! unat ri) else None) \<and>
         map_option fst (CyclicBufferReader_get_latest (cb_T b) (cb_N b) (\<lambda>_. m) c)
           = (if window = [] then Some (value_init (cb_T b))
              else if 1 mod cb_N b = length ds mod cb_N b then None else Some (hd window))"
proof -
  let ?b = "fold cb_insert ds b" and ?N = "cb_N b" and ?i = "cb_count b mod cb_N b" and ?n = "cb_count b + length ds"
  have many: "cb_ok ?b" "cb_N ?b = ?N" "cb_count ?b = ?n" "cb_contents ?b = window"
    using cb.insert_many [of b ds] assms(1,5,6,9) by simp_all
  have T: "cb_T ?b = cb_T b" by (rule fold_cb_insert_T)
  have same: "same_except (cb_T ?b) ?i m (cb_m ?b)" and odd: "odd (load_u32 m (slot_seq (cb_T ?b) ?i))"
    using inserts_same_except [OF assms(1,5) cyclic_after_death_parts [OF assms(1-4) refl refl]] unfolding assms(8) T by blast+
  note rd = damaged_ring [OF many(1) same odd assms(7), unfolded many(2-4) T]
  have lost: "(?n - 1 - k) mod ?N = ?i \<longleftrightarrow> Suc k mod ?N = length ds mod ?N" if "k < length window" for k
    using that many(3,4) length_cb_contents [of ?b] by (intro lost_index) simp
  have newest: "(?n - 1) mod ?N = ?i \<longleftrightarrow> 1 mod ?N = length ds mod ?N" if "window \<noteq> []" using lost [of 0] that by simp
  show ?thesis
    unfolding rd(1) [of ri c] rd(2) [of c]
    by (cases "unat ri < length window"; cases "window = []") (simp_all only: lost newest simp_thms if_True if_False)
qed

text \<open>
  C31. A process that dies between \<open>lock()\<close> and \<open>unlock()\<close> keeps the lock: in no continuation without a step of it, however long and
  with any number of processes, does anybody else get past \<open>lock()\<close>, and the word stays 1. One that dies
  inside \<open>unlock()\<close>, before the wake, leaves the lock free; but when every other process is asleep in
  \<open>lock()\<close> or does not use the lock, no sleeper is woken before a new call of \<open>lock()\<close>, except spuriously.
\<close>

theorem lock_death:
  assumes "lock_reachable s"
  shows "(at s p Critical \<longrightarrow> lk.run es s = Some s' \<longrightarrow> (\<forall>e \<in> set es. lock_event_by e \<noteq> p) \<longrightarrow>
            lock_word s' = 1 \<and> (\<forall>q. at s' q Critical \<longrightarrow> q = p)) \<and>
         (at s p AboutToWake \<longrightarrow> (\<forall>q. q \<noteq> p \<longrightarrow> at s q Asleep \<or> at s q Outside) \<longrightarrow>
            lock_word s = 0 \<and> (ShmLock_exec e s = Some s' \<longrightarrow> lock_event_by e = p \<or> (\<exists>q. e = Spurious q \<or> e = CallLock q)))"
proof (rule conjI; intro impI)
  have inv: "lock_inv s" using assms by (rule lock_inv_reachable)
  show "lock_word s' = 1 \<and> (\<forall>q. at s' q Critical \<longrightarrow> q = p)"
    if "at s p Critical" "lk.run es s = Some s'" "\<forall>e \<in> set es. lock_event_by e \<noteq> p"
  proof -
    have "CallUnlock p \<notin> set es" using that(3) by auto
    with lk.keep_run [OF inv that(2)] that(1) have *: "holds_lock s' p" "\<forall>q. holds_lock s' q \<longrightarrow> q = p" by (simp_all add: at_def)
    moreover have "owner_inv s'" using lk.invar_run [OF inv that(2)] by (simp add: lock_inv_def)
    ultimately show ?thesis by (auto simp: owner_inv_def at_def)
  qed
  assume waker: "at s p AboutToWake" and others: "\<forall>q. q \<noteq> p \<longrightarrow> at s q Asleep \<or> at s q Outside"
  have "lock_pc s q \<noteq> Critical" for q using waker others by (cases "q = p") (auto simp: at_def)
  then have "lock_word s = 0" using inv by (auto simp: lock_inv_def owner_inv_def)
  moreover have "lock_event_by e = p \<or> (\<exists>q. e = Spurious q \<or> e = CallLock q)" if "ShmLock_exec e s = Some s'"
    using that others by (cases e) (auto simp: at_def split: if_splits)
  ultimately show "lock_word s = 0 \<and> (ShmLock_exec e s = Some s' \<longrightarrow> lock_event_by e = p \<or> (\<exists>q. e = Spurious q \<or> e = CallLock q))"
    by blast
qed

text \<open>
  A process that dies inside \<open>produce\<close> or \<open>consume\<close>, after its wait and before its post, stops the hand-over for good: nothing is produced
  or consumed in any continuation without a step of it, and nobody else gets inside.
\<close>

theorem hand_over_death:
  assumes "sem_spec ops cnt" and "pc_reachable ops T m s" and "inside (pc_at s p)"
    and "pc_run ops T es s = Some s'" and "PcStep p \<notin> set es"
  shows "pc_produced s' = pc_produced s \<and> pc_consumed s' = pc_consumed s \<and> cnt (pc_read s') = 0 \<and> cnt (pc_write s') = 0 \<and>
         (\<forall>q. inside (pc_at s' q) \<longrightarrow> q = p)"
proof -
  have inv: "pc_inv T cnt s" using pc_inv_reachable [OF assms(1,2)] .
  then have "pc_dead cnt p s" using assms(3) pc_inv_inside_counts [OF inv] by (auto simp: pc_dead_def pc_inv_def)
  from pc_dead_run [OF assms(1) this assms(4,5)] show ?thesis by (auto simp: pc_dead_def)
qed

section \<open>Witnesses\<close>

text \<open>A writer of two-byte objects dies after the first byte of \<open>[7, 7]\<close>; the restarted one stores \<open>[1, 2]\<close>, and is caught half-way through \<open>[8, 9]\<close>.\<close>

theorem seqlock_writer_death_witness:
  "\<exists>m'. m' = exec_ops (SeqlockWriter_store (flat 2 1)) [[1, 2]] (seqlock_after_death (flat 2 1) [7, 7] 2 zero_mem) \<and>
     SeqlockReader_load (flat 2 1) (\<lambda>_. m') 0 = None \<and>
     SeqlockReader_load (flat 2 1) (\<lambda>_. exec_acts (take 2 (SeqlockWriter_store (flat 2 1) [8, 9] m')) m') 0 = Some ([8, 2], 4)"
proof -
  let ?dead = "seqlock_after_death (flat 2 1) [7, 7] 2 zero_mem"
  let ?m = "exec_ops (SeqlockWriter_store (flat 2 1)) [[1, 2]] ?dead"
  have wf: "wf_ctype (flat 2 1)" using sl_demo_invar by (simp add: sl_invar_def)
  have obj: "load_bytes ?m (SeqlockRegion_data_offset (flat 2 1)) 2 = [1, 2]"
    using exec_stores_parts(2) [OF wf, of "[[1, 2]]" ?dead] by simp
  have "even (load_u32 zero_mem 0)" by simp
  note d = seqlock_writer_death [OF wf this, of "[7, 7]" "[[1, 2]]" futex_demo ?m 2 0 0 "[]"]
  have "SeqlockReader_load (flat 2 1) (\<lambda>_. ?m) 0 = None"
    and "SeqlockReader_load (flat 2 1) (\<lambda>_. exec_acts (take (Suc 1) (SeqlockWriter_store (flat 2 1) [8, 9] ?m)) ?m) 0
      = Some (take 1 [8, 9] @ drop 1 (load_bytes ?m (SeqlockRegion_data_offset (flat 2 1)) 2), 4)"
    using d futex_demo_spec by (auto simp del: exec_ops.simps)
  then show ?thesis unfolding obj by (intro exI [of _ ?m]) (simp add: numeral_2_eq_2 del: exec_ops.simps)
qed

text \<open>The writer of a ring of two dies in its first insertion; the restarted writer inserts one object.\<close>

theorem cyclic_writer_death_witness:
  "\<exists>m. m = exec_ops (CyclicBufferWriter_insert (flat 4 4) 2) [[5, 6, 7, 8]] (cyclic_after_death (flat 4 4) 2 [1, 2, 3, 4] 3 zero_mem) \<and>
     map_option fst (CyclicBufferReader_try_get (flat 4 4) 2 (\<lambda>_. m) 0 4 0) = Some None \<and>
     CyclicBufferReader_get_latest (flat 4 4) 2 (\<lambda>_. m) 0 = None"
proof -
  have "(4 :: u32) < - 1" by code_simp
  from cyclic_writer_death [OF cb_demo_ok cb_demo_object _ _ _ _ this refl refl, of 3 "[[5, 6, 7, 8]]" 0 0] show ?thesis
    by (simp add: cb_demo_empty cb_object_def object_of_def del: exec_ops.simps)
qed

text \<open>Process 0 dies holding the lock while process 1 is asleep; in another run it dies before the wake.\<close>

theorem lock_death_witness:
  "lock_word (goto 2 FastExch lock_demo_sleep) = 1 \<and> \<not> at (goto 2 FastExch lock_demo_sleep) 2 Critical \<and>
   lock_word (unlock_store 0 lock_demo_sleep) = 0 \<and> at (unlock_store 0 lock_demo_sleep) 1 Asleep"
proof -
  have "lk.run [CallLock 2] lock_demo_sleep = Some (goto 2 FastExch lock_demo_sleep)" "at lock_demo_sleep 0 Critical"
    by (simp_all add: lock_demo_sleep_def at_def)
  then have "lock_word (goto 2 FastExch lock_demo_sleep) = 1 \<and> (\<forall>q. at (goto 2 FastExch lock_demo_sleep) q Critical \<longrightarrow> q = 0)"
    using lock_death [OF lock_demo_sleep_reachable, of 0 "[CallLock 2]"] by auto
  moreover have "lock_reachable (unlock_store 0 lock_demo_sleep)"
    by (rule lock_reachable.step [OF lock_demo_sleep_reachable], rule lock_step.step [of "CallUnlock 0"])
      (simp add: lock_demo_sleep_def at_def)
  from lock_death [OF this, of 0 "[]" _ "CallLock 0"]
  have "lock_word (unlock_store 0 lock_demo_sleep) = 0" by (auto simp: lock_demo_sleep_def lock_defs)
  moreover have "at (unlock_store 0 lock_demo_sleep) 1 Asleep" by (simp add: lock_demo_sleep_def lock_defs)
  ultimately show ?thesis by auto
qed

text \<open>A producer dies after its first byte; a consumer waits in vain.\<close>

theorem hand_over_death_witness:
  "\<exists>s s'. pc_run nat_sem (flat 2 1) [CallProduce 0 [7, 7], PcStep 0, PcStep 0] (ProducerConsumer_new nat_sem zero_mem) = Some s \<and>
     pc_run nat_sem (flat 2 1) [CallConsume (1 :: nat)] s = Some s' \<and> pc_produced s' = [] \<and> \<not> inside (pc_at s' 1)"
proof -
  obtain s where s: "pc_run nat_sem (flat 2 1) [CallProduce (0 :: nat) [7, 7], PcStep 0, PcStep 0] (ProducerConsumer_new nat_sem zero_mem) = Some s"
      "inside (pc_at s 0)" "pc_at s 1 = Idle" "pc_produced s = []"
    by (simp add: nat_sem_def ProducerConsumer_new_def produce_step_def)
  then have s': "pc_run nat_sem (flat 2 1) [CallConsume 1] s = Some (move 1 ConsumeWait s)" by simp
  have "pc_reachable nat_sem (flat 2 1) zero_mem s" using pc_run_reachable [OF pc_reachable.init s(1)] .
  from hand_over_death [OF nat_sem_spec this s(2) s'] s s' show ?thesis by (auto simp del: pc_run.simps)
qed

end
