(* ===== verification/Segments.thy ===== *)
theory Segments
  imports Seqlock Cyclic_Combined Time_Series Storage Producer_Consumer Double_Buffer Shm_Lifecycle
begin

text \<open>
  The segments and semaphores behind the objects of the library. Every constructor asks the external packages for
  named segments of a size, and the producer/consumer for two named semaphores; here a constructor is the list of
  what it asks for, in the order of its initialisers. The name in a request is the argument of \<open>shm::path\<close>, not its result: that
  function belongs to the package, and all that matters here is that equal arguments give equal paths and different
  ones different paths. The world is the memory of each name, since a name stands for
  the same memory in every process. Shown: which objects share memory with which, what happens to a
  lock whose segment is also somebody's object, and what a reader of another class finds in an owned segment.
\<close>

section \<open>What the constructors ask for\<close>

type_synonym segment_request = "string \<times> nat"

definition SharedMemory_segments :: "ctype \<Rightarrow> string \<Rightarrow> segment_request list" where
  "SharedMemory_segments T file_path = [(file_path, sizeof T)]"

definition ShmLock_segments :: "string \<Rightarrow> segment_request list" where
  "ShmLock_segments name = [(name, 4)]"

definition Storage_segments :: "ctype \<Rightarrow> string \<Rightarrow> segment_request list" where
  "Storage_segments T shm_name = (shm_name, sizeof T) # ShmLock_segments (shm_name @ ''_lock'')"

definition ProducerConsumer_segments :: "ctype \<Rightarrow> string \<Rightarrow> segment_request list" where
  "ProducerConsumer_segments T shm_name = [(shm_name, sizeof T)]"

definition ProducerConsumer_semaphores :: "string \<Rightarrow> (string \<times> nat) list" where
  "ProducerConsumer_semaphores shm_name = [(shm_name @ ''_read'', 0), (shm_name @ ''_write'', 1)]"

definition DblBufLoader_segments :: "ctype \<Rightarrow> string \<Rightarrow> segment_request list" where
  "DblBufLoader_segments T shm_name = (shm_name, sizeof T) # ShmLock_segments (shm_name @ ''_lock'')"

definition DoubleBufferShm_segments :: "ctype \<Rightarrow> string \<Rightarrow> segment_request list" where
  "DoubleBufferShm_segments T shm_name = (shm_name, sizeof T) # ShmLock_segments (shm_name @ ''_lock'')"

definition SeqlockWriter_segments :: "ctype \<Rightarrow> string \<Rightarrow> segment_request list" where
  "SeqlockWriter_segments T shm_name = [(shm_name, SeqlockRegion_total_size T)]"

definition SeqlockReader_segments :: "ctype \<Rightarrow> string \<Rightarrow> segment_request list" where
  "SeqlockReader_segments T shm_name = [(shm_name, SeqlockRegion_total_size T)]"

definition Seqlock_segments :: "ctype \<Rightarrow> string \<Rightarrow> segment_request list" where
  "Seqlock_segments T shm_name = [(shm_name, SeqlockRegion_total_size T)]"

definition CyclicBufferWriter_segments :: "ctype \<Rightarrow> nat \<Rightarrow> string \<Rightarrow> segment_request list" where
  "CyclicBufferWriter_segments T N shm_name = [(shm_name, CyclicRegion_total_size T N)]"

definition CyclicBufferReader_segments :: "ctype \<Rightarrow> nat \<Rightarrow> string \<Rightarrow> segment_request list" where
  "CyclicBufferReader_segments T N shm_name = [(shm_name, CyclicRegion_total_size T N)]"

definition CyclicBuffer_segments :: "ctype \<Rightarrow> nat \<Rightarrow> string \<Rightarrow> segment_request list" where
  "CyclicBuffer_segments T N shm_name = [(shm_name, CyclicRegion_total_size T N)]"

definition TimeSeries_segments :: "ctype \<Rightarrow> nat \<Rightarrow> string \<Rightarrow> segment_request list" where
  "TimeSeries_segments T N shm_name = CyclicBufferReader_segments T N shm_name"

definition OwnedShm_segments :: "ctype \<Rightarrow> string \<Rightarrow> segment_request list" where
  "OwnedShm_segments T shm_name = [(shm_name, OwnedShm_total_size T)]"

section \<open>The classes\<close>

datatype shm_class =
    Is_SharedMemory ctype | Is_ShmLock | Is_Storage ctype | Is_ProducerConsumer ctype
  | Is_DblBufLoader ctype | Is_DoubleBufferShm ctype
  | Is_SeqlockWriter ctype | Is_SeqlockReader ctype | Is_Seqlock ctype
  | Is_CyclicBufferWriter ctype nat | Is_CyclicBufferReader ctype nat | Is_CyclicBuffer ctype nat | Is_TimeSeries ctype nat
  | Is_OwnedShm ctype

primrec segments :: "shm_class \<Rightarrow> string \<Rightarrow> segment_request list" where
  "segments (Is_SharedMemory T) = SharedMemory_segments T"
| "segments Is_ShmLock = ShmLock_segments"
| "segments (Is_Storage T) = Storage_segments T"
| "segments (Is_ProducerConsumer T) = ProducerConsumer_segments T"
| "segments (Is_DblBufLoader T) = DblBufLoader_segments T"
| "segments (Is_DoubleBufferShm T) = DoubleBufferShm_segments T"
| "segments (Is_SeqlockWriter T) = SeqlockWriter_segments T"
| "segments (Is_SeqlockReader T) = SeqlockReader_segments T"
| "segments (Is_Seqlock T) = Seqlock_segments T"
| "segments (Is_CyclicBufferWriter T N) = CyclicBufferWriter_segments T N"
| "segments (Is_CyclicBufferReader T N) = CyclicBufferReader_segments T N"
| "segments (Is_CyclicBuffer T N) = CyclicBuffer_segments T N"
| "segments (Is_TimeSeries T N) = TimeSeries_segments T N"
| "segments (Is_OwnedShm T) = OwnedShm_segments T"

lemmas segments_defs =
  SharedMemory_segments_def ShmLock_segments_def Storage_segments_def ProducerConsumer_segments_def DblBufLoader_segments_def
  DoubleBufferShm_segments_def SeqlockWriter_segments_def SeqlockReader_segments_def Seqlock_segments_def
  CyclicBufferWriter_segments_def CyclicBufferReader_segments_def CyclicBuffer_segments_def TimeSeries_segments_def OwnedShm_segments_def

text \<open>The classes whose objects hold a \<open>ShmLock\<close> of their own.\<close>

fun holds_shm_lock :: "shm_class \<Rightarrow> bool" where
  "holds_shm_lock (Is_Storage T) = True"
| "holds_shm_lock (Is_DblBufLoader T) = True"
| "holds_shm_lock (Is_DoubleBufferShm T) = True"
| "holds_shm_lock k = False"

text \<open>Classes that the library means to be used together on one name: the two ends of an exchange of the same objects.\<close>

inductive partners :: "shm_class \<Rightarrow> shm_class \<Rightarrow> bool" where
  "partners (Is_SeqlockWriter T) (Is_SeqlockReader T)"
| "partners (Is_SeqlockWriter T) (Is_Seqlock T)"
| "partners (Is_CyclicBufferWriter T N) (Is_CyclicBufferReader T N)"
| "partners (Is_CyclicBufferWriter T N) (Is_CyclicBuffer T N)"
| "partners (Is_CyclicBufferWriter T N) (Is_TimeSeries T N)"
| "partners (Is_Storage T) (Is_DblBufLoader T)"
| "partners (Is_Storage T) (Is_DoubleBufferShm T)"
| "partners k k"
| "partners k k' \<Longrightarrow> partners k' k"

definition segment_names :: "shm_class \<Rightarrow> string \<Rightarrow> string set" where
  "segment_names k name = fst ` set (segments k name)"

lemma segment_names_eq: "segment_names k name = insert name (if holds_shm_lock k then {name @ ''_lock''} else {})"
  by (cases k) (auto simp: segment_names_def segments_defs)

section \<open>Memory of names\<close>

type_synonym world = "string \<Rightarrow> mem"

text \<open>An operation of an object changes at most the memory of its own segments.\<close>

definition touches :: "string set \<Rightarrow> world \<Rightarrow> world \<Rightarrow> bool" where
  "touches names w w' \<longleftrightarrow> (\<forall>n. n \<notin> names \<longrightarrow> w' n = w n)"

lemma touches_frame: "touches A w w' \<Longrightarrow> A \<inter> B = {} \<Longrightarrow> n \<in> B \<Longrightarrow> w' n = w n"
  by (auto simp: touches_def)

section \<open>Properties\<close>

text \<open>
  C33. Who shares memory with whom. Partners on one name ask for the same segments with the same sizes, whatever the object type.
  Two objects with different names, of whatever classes and types, share a segment exactly when one name is the other
  with the suffix \<open>_lock\<close> and the object of the shorter name holds a lock; in every other case an
  operation of one leaves all memory of the other as it is. Semaphores of different names are always different,
  and those of one object are two.
\<close>

theorem segments_shared:
  assumes "n \<noteq> n'"
  shows "(partners k k' \<longrightarrow> segments k n = segments k' n) \<and>
         (segment_names k n \<inter> segment_names k' n' \<noteq> {} \<longleftrightarrow>
            holds_shm_lock k \<and> n' = n @ ''_lock'' \<or> holds_shm_lock k' \<and> n = n' @ ''_lock'') \<and>
         (touches (segment_names k n) w w' \<longrightarrow> n' \<noteq> n @ ''_lock'' \<longrightarrow> n \<noteq> n' @ ''_lock'' \<longrightarrow> (\<forall>x \<in> segment_names k' n'. w' x = w x)) \<and>
         fst ` set (ProducerConsumer_semaphores n) \<inter> fst ` set (ProducerConsumer_semaphores n') = {} \<and>
         distinct (map fst (ProducerConsumer_semaphores n))"
proof -
  have "segments k n = segments k' n" if "partners k k'" using that by induction (simp_all add: segments_defs)
  moreover have shared: "segment_names k n \<inter> segment_names k' n' \<noteq> {} \<longleftrightarrow>
      holds_shm_lock k \<and> n' = n @ ''_lock'' \<or> holds_shm_lock k' \<and> n = n' @ ''_lock''"
    using assms by (auto simp: segment_names_eq)
  moreover have "w' x = w x" if "touches (segment_names k n) w w'" "n' \<noteq> n @ ''_lock''" "n \<noteq> n' @ ''_lock''" "x \<in> segment_names k' n'" for x
    using touches_frame [OF that(1) _ that(4)] shared that(2,3) by blast
  moreover have "x @ ''_read'' \<noteq> y @ ''_write''" for x y
  proof
    assume "x @ ''_read'' = y @ ''_write''"
    then have "last (x @ ''_read'') = last (y @ ''_write'')" by (rule arg_cong)
    then show False by simp
  qed
  ultimately show ?thesis using assms by (auto simp: ProducerConsumer_semaphores_def)
qed

text \<open>
  Such a pair in action: a holder of the lock of \<open>name\<close> is inside, another process is about to exchange the word, and
  somebody stores an object that begins with a zero word into a \<open>SharedMemory\<close> or \<open>Storage\<close> named
  \<open>name_lock\<close>. Then the second process gets in as well.
\<close>

definition lock_of_world :: "string \<Rightarrow> world \<Rightarrow> 'p lock_state \<Rightarrow> 'p lock_state" where
  "lock_of_world name w s = s\<lparr>lock_word := load_u32 (w (fst (hd (ShmLock_segments (name @ ''_lock''))))) 0\<rparr>"

lemma load_bytes_store_front:
  "k \<le> length bs \<Longrightarrow> load_bytes (store_bytes bs a m) a k = take k bs"
  by (rule nth_equalityI) (auto simp: store_bytes_def)

lemma load_bytes_split: "i \<le> k \<Longrightarrow> load_bytes m a k = load_bytes m a i @ load_bytes m (a + i) (k - i)"
  by (rule nth_equalityI) (auto simp: nth_append)

lemma lock_of_world_zero:
  "lock_word (lock_of_world name (w(name @ ''_lock'' := SharedMemory_set ([0, 0, 0, 0] @ d) (w (name @ ''_lock'')))) s) = 0"
  by (simp add: lock_of_world_def ShmLock_segments_def SharedMemory_set_def load_u32_def load_bytes_store_front del: append_Cons)

theorem lock_name_collision:
  assumes "Shm_Lock.at s p Critical" and "Shm_Lock.at s q FastExch" and "w' = w(name @ ''_lock'' := SharedMemory_set ([0, 0, 0, 0] @ d) (w (name @ ''_lock'')))"
  shows "\<exists>s'. ShmLock_exec (Fast q) (lock_of_world name w' s) = Some s' \<and> Shm_Lock.at s' p Critical \<and> Shm_Lock.at s' q Critical"
proof -
  let ?s = "lock_of_world name w' s"
  have "lock_word ?s = 0" unfolding assms(3) by (rule lock_of_world_zero)
  moreover have pcs: "Shm_Lock.at ?s p Critical" "Shm_Lock.at ?s q FastExch"
    using assms(1,2) by (simp_all add: lock_of_world_def Shm_Lock.at_def)
  ultimately show ?thesis by (auto simp: lock_defs)
qed

text \<open>The header words of an owned segment, before and after the owner's assignments.\<close>

lemma owned_words:
  assumes "wf_ctype T"
  shows "load_u32 (OwnedShm_construct T pid now m) 0 = SHM_HEADER_MAGIC" "load_u32 (OwnedShm_construct T pid now m) 4 = SHM_HEADER_VERSION"
  using header_of_construct [OF assms, of pid now m] by (simp_all add: OwnedShm_header_def read_header_def)

lemma owned_front:
  assumes "wf_ctype T" and "a + k \<le> ShmHeader_size"
  shows "load_bytes (store_bytes d (OwnedShm_data_offset T) m) a k = load_bytes m a k"
  by (rule load_bytes_cong) (use assms owned_layout(1) [OF assms(1)] in \<open>simp add: store_bytes_def ShmHeader_size_def\<close>)

lemma load_bytes_word: "load_u32 m a = w \<Longrightarrow> load_bytes m a 4 = le_bytes 4 w"
  using le_bytes_le_word [of "load_bytes m a 4", where 'a = 32] by (auto simp: load_u32_def)

text \<open>
  C37. An owned segment begins with its header, and the object comes after it. A reader that opens the name with another class, as
  the description of \<open>OwnedShm\<close> tells it to, reads the header instead: of an object of at most 32 bytes \<open>SharedMemory\<close> shows
  nothing at all, whatever the owner wrote, and of any larger one the first four bytes it shows are the magic number. A seqlock reader finds
  an even counter, the magic number, and so returns at once, with header bytes when the object fits into them; a ring reader
  takes magic number and version for the count of writes.
\<close>

theorem owned_readers_see_header:
  assumes "wf_ctype T" and "object_of T d" and "m' = OwnedShm_construct T pid now m"
    and "m1 = store_bytes d (OwnedShm_data_offset T) m'"
  shows "OwnedShm_data T m1 = d \<and>
         (sizeof T \<le> ShmHeader_size \<longrightarrow> SharedMemory_get T m1 = SharedMemory_get T m') \<and>
         (4 \<le> sizeof T \<longrightarrow> take 4 (SharedMemory_get T m1) = le_bytes 4 SHM_HEADER_MAGIC) \<and>
         (\<exists>v. SeqlockReader_load T (\<lambda>_. m1) c = Some (v, c + 2 + sizeof T) \<and>
            (SeqlockRegion_total_size T \<le> ShmHeader_size \<longrightarrow> v = load_bytes m' (SeqlockRegion_data_offset T) (sizeof T))) \<and>
         load_u64 m1 0 = 0x153484D48"
proof -
  let ?m = "store_bytes d (OwnedShm_data_offset T) m'"
  have words: "load_bytes ?m 0 4 = le_bytes 4 SHM_HEADER_MAGIC" "load_bytes ?m 4 4 = le_bytes 4 SHM_HEADER_VERSION"
    using owned_front [OF assms(1), of _ 4] load_bytes_word [OF owned_words(1) [OF assms(1)]] load_bytes_word [OF owned_words(2) [OF assms(1)]]
    by (simp_all add: assms(3) ShmHeader_size_def)
  then have "load_u32 ?m 0 = SHM_HEADER_MAGIC" by (simp add: load_u32_def)
  moreover have "even SHM_HEADER_MAGIC" by (simp add: SHM_HEADER_MAGIC_def)
  ultimately have even: "even (load_u32 ?m 0)" by simp
  have "load_u64 ?m 0 = le_word (le_bytes 4 SHM_HEADER_MAGIC @ le_bytes 4 SHM_HEADER_VERSION)"
    using words load_bytes_split [of 4 8 ?m 0] by (simp add: load_u64_def)
  also have "\<dots> = 0x153484D48" unfolding SHM_HEADER_MAGIC_def SHM_HEADER_VERSION_def by code_simp
  finally have "load_u64 ?m 0 = 0x153484D48" .
  moreover have "OwnedShm_data T ?m = d" using owned_assign(2) [OF assms(1,2)] .
  moreover have "SharedMemory_get T ?m = SharedMemory_get T m'" if "sizeof T \<le> ShmHeader_size"
    using owned_front [OF assms(1)] that by (simp add: SharedMemory_get_def)
  moreover have "take 4 (SharedMemory_get T ?m) = le_bytes 4 SHM_HEADER_MAGIC" if "4 \<le> sizeof T"
    using words(1) load_bytes_split [OF that, of ?m 0] by (simp add: SharedMemory_get_def)
  moreover have "SeqlockReader_load T (\<lambda>_. ?m) c = Some (load_bytes ?m (SeqlockRegion_data_offset T) (sizeof T), c + 2 + sizeof T)"
    using even by (subst SeqlockReader_load_step) simp
  moreover have "load_bytes ?m (SeqlockRegion_data_offset T) (sizeof T) = load_bytes m' (SeqlockRegion_data_offset T) (sizeof T)"
    if "SeqlockRegion_total_size T \<le> ShmHeader_size"
    using owned_front [OF assms(1)] that by (simp add: SeqlockRegion_total_size_def)
  ultimately show ?thesis unfolding assms(4) by simp
qed

section \<open>Witnesses\<close>

theorem segments_shared_witness:
  "segment_names (Is_Storage (flat 8 8)) ''cam'' \<inter> segment_names (Is_SharedMemory (flat 8 8)) ''cam_lock'' \<noteq> {} \<and>
   segment_names (Is_Storage (flat 8 8)) ''cam'' \<inter> segment_names (Is_OwnedShm (flat 8 8)) ''cam2'' = {}"
  using segments_shared [of "''cam''" "''cam_lock''" "Is_Storage (flat 8 8)" "Is_SharedMemory (flat 8 8)"]
    segments_shared [of "''cam''" "''cam2''" "Is_Storage (flat 8 8)" "Is_OwnedShm (flat 8 8)"]
  by simp

theorem owned_readers_see_header_witness:
  "OwnedShm_data (flat 8 8) (store_bytes [1, 2, 3, 4, 5, 6, 7, 8] 32 (OwnedShm_construct (flat 8 8) 42 \<lparr>tv_sec = 3, tv_nsec = 7\<rparr> zero_mem))
     = [1, 2, 3, 4, 5, 6, 7, 8] \<and>
   take 4 (SharedMemory_get (flat 8 8) (store_bytes [1, 2, 3, 4, 5, 6, 7, 8] 32 (OwnedShm_construct (flat 8 8) 42 \<lparr>tv_sec = 3, tv_nsec = 7\<rparr> zero_mem)))
     = [0x48, 0x4D, 0x48, 0x53]"
proof -
  have "OwnedShm_data_offset (flat 8 8) = 32" by code_simp
  moreover have "le_bytes 4 SHM_HEADER_MAGIC = [0x48, 0x4D, 0x48, 0x53]" by code_simp
  ultimately show ?thesis
    using owned_readers_see_header [OF wf_flat_8_8 _ refl refl, of "[1, 2, 3, 4, 5, 6, 7, 8]" 42 "\<lparr>tv_sec = 3, tv_nsec = 7\<rparr>" zero_mem 0]
    by (simp add: object_of_def)
qed

end
