(* ===== verification/Logger.thy ===== *)
theory Logger
  imports Swap_Runner
begin

text \<open>
  \<^verbatim>\<open>logger.hpp\<close>, \<^verbatim>\<open>config.hpp\<close> and the calls of the logger by the background thread. \<open>fmt::print\<close> is a parameter: it
  writes to the output \<open>'o\<close> or throws. The logger is \<open>noexcept\<close>, and so is \<open>SwapRunner::run\<close>, so an exception of \<open>print\<close>
  ends the process. \<open>Swap_Runner\<close> keeps the messages as a list; here they are delivered, and the two agree.
\<close>

section \<open>Constants and the logger\<close>

definition SEM_SUFFIX :: string where
  "SEM_SUFFIX = ''_sem''"

definition SEM_INIT :: int where
  "SEM_INIT = 1"

datatype 'o print_result = Printed 'o | PrintThrows

datatype 'o log_result = LogReturns 'o | LogTerminates

definition default_logger :: "(string \<Rightarrow> 'o \<Rightarrow> 'o print_result) \<Rightarrow> string \<Rightarrow> 'o \<Rightarrow> 'o log_result" where
  "default_logger print msg out = (case print msg out of Printed out \<Rightarrow> LogReturns out | PrintThrows \<Rightarrow> LogTerminates)"

section \<open>The thread with its logger\<close>

datatype ('s, 'o) logged_state = ThreadBlocked | ThreadRunning "'s runner" 'o | ThreadTerminated

text \<open>One statement of \<open>run()\<close>: the handler of the task calls \<open>log_\<close>, whose exceptions would leave a \<open>noexcept\<close> function.\<close>

definition run_logged :: "(string \<Rightarrow> 'o \<Rightarrow> 'o log_result) \<Rightarrow> ('s \<Rightarrow> 's task_result) \<Rightarrow> 's runner \<Rightarrow> 'o \<Rightarrow> ('s, 'o) logged_state" where
  "run_logged log task r out =
     (case SwapRunner_run task r of
        None \<Rightarrow> ThreadBlocked
      | Some r' \<Rightarrow>
          (case (run_pc r, task (owner r)) of
             (RunTask, TaskThrows st) \<Rightarrow>
               (case log task_threw_msg out of
                  LogReturns out \<Rightarrow> ThreadRunning r' out
                | LogTerminates \<Rightarrow> ThreadTerminated)
           | _ \<Rightarrow> ThreadRunning r' out))"

text \<open>At most \<open>n\<close> statements; a blocked thread stays where it is.\<close>

fun logged_steps :: "(string \<Rightarrow> 'o \<Rightarrow> 'o log_result) \<Rightarrow> ('s \<Rightarrow> 's task_result) \<Rightarrow> nat \<Rightarrow> 's runner \<Rightarrow> 'o \<Rightarrow> ('s, 'o) logged_state" where
  "logged_steps log task 0 r out = ThreadRunning r out"
| "logged_steps log task (Suc n) r out =
     (case run_logged log task r out of
        ThreadBlocked \<Rightarrow> ThreadRunning r out
      | ThreadRunning r' out' \<Rightarrow> logged_steps log task n r' out'
      | ThreadTerminated \<Rightarrow> ThreadTerminated)"

section \<open>Delivery\<close>

fun print_all :: "(string \<Rightarrow> 'o \<Rightarrow> 'o print_result) \<Rightarrow> string list \<Rightarrow> 'o \<Rightarrow> 'o print_result" where
  "print_all print [] out = Printed out"
| "print_all print (msg # msgs) out = (case print msg out of Printed out \<Rightarrow> print_all print msgs out | PrintThrows \<Rightarrow> PrintThrows)"

lemma SwapRunner_run_log:
  assumes "SwapRunner_run task r = Some r'"
  shows "run_log r' = run_log r @ (case (run_pc r, task (owner r)) of (RunTask, TaskThrows st) \<Rightarrow> [task_threw_msg] | _ \<Rightarrow> [])"
  using assms by (auto simp: SwapRunner_run_def split: run_pc.splits task_result.splits if_splits)

lemma run_steps_log: "\<exists>msgs. run_log (run_steps task n r) = run_log r @ msgs"
proof (induction n arbitrary: r)
  case (Suc n)
  show ?case
  proof (cases "SwapRunner_run task r")
    case (Some r')
    with Suc.IH [of r'] SwapRunner_run_log [OF Some] show ?thesis by auto
  qed simp
qed simp

text \<open>
  What the user of a \<open>DblBufLoader\<close> with the default logger sees, exactly: the thread does what it does without output, and each message
  is printed once, in order, up to the first call of \<open>print\<close> that throws, which ends the process.
\<close>

theorem default_logger_delivers:
  "logged_steps (default_logger print) task n r out =
     (case print_all print (drop (length (run_log r)) (run_log (run_steps task n r))) out of
        Printed out' \<Rightarrow> ThreadRunning (run_steps task n r) out'
      | PrintThrows \<Rightarrow> ThreadTerminated)"
proof (induction n arbitrary: r out)
  case (Suc n)
  show ?case
  proof (cases "SwapRunner_run task r")
    case None
    then show ?thesis by (simp add: run_logged_def)
  next
    case (Some r')
    let ?new = "case (run_pc r, task (owner r)) of (RunTask, TaskThrows st) \<Rightarrow> [task_threw_msg] | _ \<Rightarrow> []"
    obtain msgs where msgs: "run_log (run_steps task n r') = run_log r' @ msgs" using run_steps_log by blast
    have log: "run_log r' = run_log r @ ?new" by (rule SwapRunner_run_log [OF Some])
    have step: "run_logged (default_logger print) task r out =
        (case print_all print ?new out of Printed out' \<Rightarrow> ThreadRunning r' out' | PrintThrows \<Rightarrow> ThreadTerminated)"
      by (simp add: run_logged_def Some default_logger_def split: run_pc.splits task_result.splits print_result.splits)
    have all: "print_all print (?new @ msgs) out = (case print_all print ?new out of Printed out' \<Rightarrow> print_all print msgs out' | PrintThrows \<Rightarrow> PrintThrows)"
      by (simp split: run_pc.splits task_result.splits print_result.splits)
    have steps: "run_steps task (Suc n) r = run_steps task n r'" by (simp add: Some)
    have "drop (length (run_log r)) (run_log (run_steps task n r')) = ?new @ msgs" using msgs log by simp
    with all step Suc.IH [of r'] msgs show ?thesis
      unfolding steps by (cases "print_all print ?new out") simp_all
  qed
qed simp

text \<open>A full device: the first task that throws ends the process although the handler was there to go on.\<close>

theorem logger_ends_process:
  assumes "run_pc r = RunTask" and "task (owner r) = TaskThrows st" and "\<And>msg out. print msg out = PrintThrows"
  shows "logged_steps (default_logger print) task (Suc n) r out = ThreadTerminated"
  using assms by (simp add: run_logged_def SwapRunner_run_def default_logger_def)

end
