(* ===== verification/Spec2Isabelle.thy ===== *)
theory Spec2Isabelle
  imports Seqlock Cyclic_History Cyclic_Combined Time_Series Shm_Lock Storage Producer_Consumer
    Swap_Runner Double_Buffer Loader_Machine Shm_Lifecycle Image Bindings Fuzz_Cyclic Fuzz_Time_Series
    Memory_Order Wait_Machine Interp_Linear Lock_Order Example_Mains Lifecycle_Example Bench_Main Image_Bindings
    Process_Death Segments Logger
begin

text \<open>
  A verification development of \<^verbatim>\<open>safe-shm\<close>, a header-only C++ library of shared-memory
  primitives for Linux (\<^verbatim>\<open>src/include/safe-shm/*.hpp\<close>).

  \<^bold>\<open>The program.\<close> Processes exchange flat objects through named segments that the external package
  \<^verbatim>\<open>shm\<close> maps. On top of a segment the library builds: a seqlock for one object (\<^verbatim>\<open>seqlock.hpp\<close>); a
  ring of objects, each under its own sequence counter (\<^verbatim>\<open>cyclic_buffer.hpp\<close>); lookup by time stamp
  on such a ring (\<^verbatim>\<open>time_series.hpp\<close>, with \<^verbatim>\<open>stamped.hpp\<close> and \<^verbatim>\<open>sanitized_key.hpp\<close>); a futex mutex
  (\<^verbatim>\<open>shm_lock.hpp\<close>) and the objects guarded by it (\<^verbatim>\<open>storage.hpp\<close>, \<^verbatim>\<open>dblbuf_loader.hpp\<close>,
  \<^verbatim>\<open>image_shm.hpp\<close>, with \<^verbatim>\<open>double_buffer_swapper.hpp\<close>, \<^verbatim>\<open>swap_runner.hpp\<close>, \<^verbatim>\<open>snapshot.hpp\<close>); a
  semaphore hand-over (\<^verbatim>\<open>producer_consumer.hpp\<close>); and the bookkeeping of segments and writers
  (\<^verbatim>\<open>shm_lifecycle.hpp\<close>). Two Python modules (\<^verbatim>\<open>src/src/bindings\<close>) instantiate the templates, two fuzz
  harnesses (\<^verbatim>\<open>src/fuzz\<close>) drive ring and searches with arbitrary bytes, three example programs
  (\<^verbatim>\<open>src/examples\<close>) show the library in use, and two benchmark programs (\<^verbatim>\<open>src/bench\<close>) measure it
  beside kernel mechanisms.

  \<^bold>\<open>How it is modelled.\<close>
  \<^item> \<open>Prelude\<close>: machine words, the byte memory of one segment, the little-endian representation of
    integers, alignment arithmetic, the power-of-two mask. \<open>Flat_Type\<close>: a template argument as its
    size, alignment and type traits; an object is the list of its bytes.
  \<^item> \<open>Shared_Access\<close>: a writer operation is the list of its accesses in program order (atomic stores,
    the single bytes of \<open>memcpy\<close>, futex wakes); \<open>hist\<close> is the memory after the first \<open>t\<close> accesses of a
    run. A reader sees the memory at the times a non-decreasing clock gives, one per access, so all
    interleavings of one writer with any number of readers are covered. The locale
    \<open>seqlock_history\<close> is the contract between a sequence-counter writer and its readers; it is
    interpreted for the seqlock (\<open>sl\<close>) and for every slot of the ring (\<open>cs\<close>).
  \<^item> \<open>Seqlock\<close>: layout, \<open>store\<close>, \<open>load\<close>, \<open>load_blocking\<close>, \<open>sequence\<close> and the combined class. Shown:
    loads are untorn and take effect at an instant of their execution unless the counter is lapped
    (\<open>2^31\<close> stores in one pass; the bound is sharp), they return once the writer is idle, blocking
    loads return only new published objects, or nothing after a wait of theirs has timed out, and return when they should,
    wake-ups are not lost, accesses stay in bounds.
  \<^item> \<open>Cyclic_Buffer\<close>: layout, \<open>insert\<close> and all readers; the locale \<open>ring_buffer\<close>, interpreted on the
    bytes of the segment (\<open>cb\<close>), states that the ring is a sliding window of the newest \<open>N\<close> objects.
    \<open>Cyclic_History\<close>: the same operations under concurrency, \<open>wait_for_write\<close>, termination of the
    bounded retry. \<open>Wait_Machine\<close>: \<open>wait_for_write\<close> with the sleep as a state, in step with the writer and its wakes;
    its outcomes are those of the loop, and it sleeps through no insertion. \<open>Cyclic_Combined\<close>: the combined class.
  \<^item> \<open>Stamped\<close>, \<open>Sanitized_Key\<close>, \<open>Double\<close> (the floating-point rounding in use), \<open>Time_Series\<close>: the
    binary and linear searches over a reader. The locale \<open>window_reader\<close> is what they need of a
    reader at rest; it is interpreted on the cyclic buffer's reader (\<open>ts\<close>). Shown: the closest
    element is found, the interpolation pair brackets the target with a factor between 0 and 1, the
    fall-back agrees, and under concurrency only untorn inserted objects come back. \<open>Interp_Linear\<close>: the
    fall-back of the interpolation search.
  \<^item> \<open>Memory_Order\<close>: the orders the code gives its accesses. On a processor with total store order (store
    buffers as a step relation) readers see exactly the histories of \<open>Shared_Access\<close>, so the results carry over.
    The release and acquire orders alone permit torn loads. \<open>Lock_Order\<close>: the orders of the lock and of the
    background thread, under every reordering they permit: accesses between \<open>lock()\<close> and \<open>unlock()\<close> stay there, and
    the rounds of a \<open>SwapRunner\<close> do not overlap.
  \<^item> \<open>Shm_Lock\<close>: \<open>lock\<close> and \<open>unlock\<close> cut at their atomic accesses and system calls, with the kernel's
    queue, as a step relation on any number of processes. The locale \<open>mutex\<close> is the contract its
    clients use, interpreted as \<open>lk\<close>. \<open>Storage\<close>: stores under the lock, byte by byte, are atomic.
  \<^item> \<open>Producer_Consumer\<close>: the hand-over, with the external semaphore as a parameter that counts. Shown:
    every object once, complete, in order; and that a consumer that throws stops the hand-over for good.
  \<^item> \<open>Swap_Runner\<close>: the background thread statement by statement, with its task as a parameter.
    \<open>Double_Buffer\<close>: the swapper with its assertions as error values, the loader and the combined
    image segment as owners of such a thread. \<open>Loader_Machine\<close>: user, thread, writers and lock in one
    machine of single accesses, composed of \<open>Swap_Runner\<close>, \<open>Shm_Lock\<close> and \<open>Storage\<close>. Shown: no assertion
    fails and a snapshot taken after \<open>wait()\<close> is a whole, recent object; before that it can be torn.
  \<^item> \<open>Shm_Lifecycle\<close>: the directory queries, the header, the liveness test, owned segments.
    \<open>Image\<close>: image sizes in \<open>float\<close> arithmetic, and the counters of \<^verbatim>\<open>shm_stats.hpp\<close>.
  \<^item> \<open>Bindings\<close>: the instantiations of the Python modules, their types, the accessors of the image class, and
    the module's own producer/consumer class, which is shown to refine \<open>Producer_Consumer\<close>. \<open>Image_Bindings\<close>: snapshots and
    the double-buffered segment of the image module, shown to hand every image over whole.
  \<^item> \<open>Fuzz_Input\<close>, \<open>Fuzz_Cyclic\<close>, \<open>Fuzz_Time_Series\<close>: the harnesses as functions of the whole input, with
    three ends (return, trap, a call that hangs). The locale \<open>input_loop\<close> is the contract of their loops, interpreted
    on each of the three. Shown: for every input the harness returns, so none of its checks can fail.
  \<^item> \<open>Float_Bits\<close>: the bytes of \<open>float\<close> and \<open>double\<close> members, and arithmetic with its rounding. \<open>Stamped_Series\<close>: the locale
    \<open>stamped_ring\<close>, what a series of stamped objects recorded through a ring answers to each query;
    interpreted for the Python module (\<open>f64\<close>), the ring example (\<open>imu\<close>) and the lookup benchmark (\<open>small\<close>).
  \<^item> \<open>Seqlock_Example\<close>, \<open>Cyclic_Example\<close>, \<open>Lifecycle_Example\<close>: the example programs, with the values they print as
    result. Shown: everything they print, for every clock, directory and (for the seqlock) interleaving.
    \<open>Example_Mains\<close>: the first two from the argument to the exit code, and on an empty ring.
  \<^item> \<open>Benchmarks\<close>: the measured bodies; the locale \<open>benchmark\<close> is what a measurement needs of a body, interpreted on each of
    them. Shown: every execution returns what was stored. \<open>Bench_Posix\<close>: the class \<open>RawPosixShm\<close> and the baselines over
    pipes, sockets and message queues. Shown: resources are given back except after a failed constructor;
    the pipe benchmark ends exactly when the pipe is large enough. \<open>Bench_Main\<close>: both programs whole, block by block with their
    settings. Shown: the complete report on a kernel that grants what is asked for, the uncaught exception, the skipped queues.
  \<^item> \<open>Process_Death\<close>: what a process that dies in the middle of an operation leaves behind, for the seqlock, the ring, the lock and the
    hand-over, and what restarted processes then see. Shown: exactly which objects are lost, and for how long.
  \<^item> \<open>Segments\<close>: the names and sizes every constructor asks for. Shown: who shares memory with whom, by name and class; a lock
    whose segment is also an object; that readers of other classes find the header in an owned segment.
  \<^item> \<open>Logger\<close>: the default logger and its calls by the background thread. Shown: what is printed, and when the process ends.
  \<^item> This theory: stamps, ring and search together, from recording to the query, and the other methods of the Python ring.

  \<^bold>\<open>Loops and bounds.\<close> The retry and blocking loops of the readers are unbounded in the code, so they
  are \<open>partial_function (option)\<close> with \<open>None\<close> for a loop that does not end, and that they return is
  proved where it holds. The searches of \<open>Time_Series\<close> terminate by a measure. No fuel is used;
  \<open>run_steps\<close> counts statements of a thread on purpose.

  \<^bold>\<open>Parameters.\<close> The kernel's answer to \<open>FUTEX_WAIT\<close> (\<open>futex_spec\<close>), the semaphore (\<open>sem_spec\<close>), the
  clock, the answer of \<open>kill\<close>, the contents of \<^verbatim>\<open>/dev/shm\<close>, the task of the background thread, the
  key extractor, the process id, and what a segment holds when a harness maps it (\<open>mapped\<close>; segments of
  new names are zeroed, \<open>fresh_segments\<close>). For the example programs: what the package \<^verbatim>\<open>shm\<close> does to the directory
  (\<open>segment_files\<close>). For the benchmarks: how often \<^verbatim>\<open>nanobench\<close> runs a body, how far a background thread gets, and the
  system calls (\<open>shm_os_spec\<close>, \<open>pipe_spec\<close>, \<open>socket_spec\<close>, \<open>mq_spec\<close>), each with a concrete kernel that satisfies them.
  For the whole programs: the number of executions \<^verbatim>\<open>nanobench\<close> asks for, the addresses of mappings and the outcomes of
  \<open>fork\<close> (\<open>surroundings_ok\<close>), and \<open>fmt::print\<close>, which writes or throws.

  \<^bold>\<open>Not modelled.\<close> How the external \<^verbatim>\<open>shm\<close> package maps, unmaps and unlinks: a constructor is what it asks for
  (\<open>Segments\<close>) and what it writes. Reordering of memory accesses by compiler
  or processor beyond what \<open>Memory_Order\<close> and \<open>Lock_Order\<close> treat; conversion of arguments and formatting by
  \<^verbatim>\<open>nanobind\<close> and \<^verbatim>\<open>fmt\<close>; how \<^verbatim>\<open>nanobench\<close> uses its settings; include directives, deleted copy operations and
  compile-time aliases, which have no behaviour; the tests and the Python scripts, which check or call the library on chosen inputs.
\<close>

section \<open>Recording and querying through the Python module\<close>

text \<open>A recorder: each stamped value goes to \<open>insert\<close>, in order. \<open>pad\<close> are the contents of padding bytes.\<close>

definition record_object :: "(nat \<Rightarrow> byte) \<Rightarrow> stamped \<Rightarrow> byte list" where
  "record_object pad s = encode_stamped double_type pad s"

fun record_series :: "(nat \<Rightarrow> byte) \<Rightarrow> stamped list \<Rightarrow> mem \<Rightarrow> mem" where
  "record_series pad [] m = m"
| "record_series pad (s # ss) m =
     record_series pad ss (exec_acts (CyclicBufferWriterStampedF64_insert (record_object pad s) m) m)"

lemma record_series_eq: "record_series pad ss zero_mem = series_mem double_type py_capacity pad ss"
proof -
  have "record_series pad ss (cb_m b) = cb_m (fold cb_insert (map (encode_stamped double_type pad) ss) b)"
    if "cb_T b = StampedF64" "cb_N b = py_capacity" for b :: cbuf
    using that
  proof (induction ss arbitrary: b)
    case (Cons s ss)
    let ?b = "cb_insert (encode_stamped double_type pad s) b"
    have "record_series pad ss (cb_m ?b) = cb_m (fold cb_insert (map (encode_stamped double_type pad) ss) ?b)"
      using Cons.prems by (intro Cons.IH) simp_all
    moreover have "cb_m ?b = exec_acts (CyclicBufferWriterStampedF64_insert (record_object pad s) (cb_m b)) (cb_m b)"
      using Cons.prems by (simp add: cb_insert_def CyclicBufferWriterStampedF64_insert_def record_object_def)
    ultimately show ?case by simp
  qed simp
  from this [of "\<lparr>cb_T = StampedF64, cb_N = py_capacity, cb_m = zero_mem\<rparr>"] show ?thesis
    by (simp add: series_buf_def StampedF64_def)
qed

lemma recordable_doubles:
  assumes "sorted_wrt (\<lambda>x y. timestamp_ns x < timestamp_ns y) ss" and "\<forall>s \<in> set ss. length (stamped_data s) = 8"
    and "length ss < 2 ^ 64"
  shows "recordable double_type ss"
  using assms sorted_wrt_mono_rel [of ss "\<lambda>x y. timestamp_ns x < timestamp_ns y" "\<lambda>x y. timestamp_ns x \<le> timestamp_ns y"]
  by (auto simp: recordable_def object_of_def)

text \<open>
  C20. Stamps, ring and search together, at the types of the Python module: values with increasing
  time stamps are inserted, any number of them, into a new segment; then the query for the time stamp of any of
  the 64 newest returns, whatever distance is allowed, the bytes of that value, from
  which its stamp, sequence number and data are recovered.
\<close>

theorem series_record_query:
  assumes "sorted_wrt (\<lambda>x y. timestamp_ns x < timestamp_ns y) ss" and "\<forall>s \<in> set ss. length (stamped_data s) = 8"
    and "length ss < 2 ^ 64" and "i < length ss" and "length ss \<le> i + py_capacity"
  shows "\<exists>e c'. TimeSeriesStampedF64_find_closest (\<lambda>_. record_series pad ss zero_mem) (timestamp_ns (ss ! i)) max_dist c
           = Some (Some e, c') \<and> decode_stamped double_type e = ss ! i"
proof -
  let ?t = "timestamp_ns (ss ! i)"
  have rec: "recordable double_type ss" using assms(1-3) by (rule recordable_doubles)
  have ne: "ss \<noteq> []" using assms(4) by auto
  obtain j c' where j: "in_ring py_capacity ss j"
      "\<forall>k. in_ring py_capacity ss k \<longrightarrow> key_diff (timestamp_ns (ss ! j)) ?t \<le> key_diff (timestamp_ns (ss ! k)) ?t"
    and run: "find_closest (series_reader double_type py_capacity (series_mem double_type py_capacity pad ss)) (StampedKeyExtractor double_type) ?t max_dist c
       = Some (if (\<exists>m. max_dist = Some m \<and> m < key_diff (timestamp_ns (ss ! j)) ?t) then None
               else Some (encode_stamped double_type pad (ss ! j)), c')"
    using f64.series_closest [OF rec ne, of ?t pad max_dist c] by blast
  have "in_ring py_capacity ss i" using assms(4,5) by (simp add: in_ring_def)
  with j(2) have "key_diff (timestamp_ns (ss ! j)) ?t \<le> key_diff ?t ?t" by blast
  then have key: "timestamp_ns (ss ! j) = ?t" by simp
  have "j < length ss" using j(1) by (simp add: in_ring_def)
  with key assms(1,4) have "j = i"
    by (metis linorder_neqE_nat order_less_irrefl sorted_wrt_iff_nth_less)
  with run have "TimeSeriesStampedF64_find_closest (\<lambda>_. record_series pad ss zero_mem) ?t max_dist c
      = Some (Some (encode_stamped double_type pad (ss ! i)), c')"
    by (simp add: TimeSeriesStampedF64_find_closest_def py_series_reader_def record_series_eq StampedF64_def)
  moreover have "object_of double_type (stamped_data (ss ! i))" using assms(2,4) by (simp add: object_of_def)
  ultimately show ?thesis using f64.read_back by blast
qed

theorem series_record_query_witness:
  "\<exists>ss e c'. length ss = 2 \<and> timestamp_ns (ss ! 0) = 1000 \<and>
     TimeSeriesStampedF64_find_closest (\<lambda>_. record_series (\<lambda>_. 0) ss zero_mem) 1000 (Some 5) 0 = Some (Some e, c') \<and>
     sequence (decode_stamped double_type e) = 7"
proof -
  let ?ss = "[\<lparr>timestamp_ns = 1000, sequence = 7, stamped_data = replicate 8 1\<rparr>,
              \<lparr>timestamp_ns = 2000, sequence = 8, stamped_data = replicate 8 2\<rparr>]"
  from series_record_query [of ?ss 0 "\<lambda>_. 0" "Some 5" 0] show ?thesis
    by (intro exI [of _ ?ss]) (auto simp: py_capacity_def)
qed

text \<open>
  The other methods of the Python ring agree with the list of values recorded: both \<open>total_writes\<close> are its
  length, both \<open>available\<close> the number still in the ring, both \<open>capacity\<close> 64, both \<open>get_latest\<close> return the last value, and \<open>get\<close>
  and \<open>try_get\<close> count backwards from it, \<open>try_get\<close> answering \<open>None\<close> beyond the oldest.
\<close>

theorem python_ring_methods:
  assumes "recordable double_type ss" and "ss \<noteq> []" and "m = record_series pad ss zero_mem"
  shows "unat (fst (CyclicBufferWriterStampedF64_total_writes (\<lambda>_. m) c)) = length ss \<and>
         fst (CyclicBufferReaderStampedF64_total_writes (\<lambda>_. m) c) = fst (CyclicBufferWriterStampedF64_total_writes (\<lambda>_. m) c) \<and>
         fst (TimeSeriesStampedF64_total_writes (\<lambda>_. m) c) = fst (CyclicBufferWriterStampedF64_total_writes (\<lambda>_. m) c) \<and>
         unat (fst (CyclicBufferReaderStampedF64_available (\<lambda>_. m) c)) = min (length ss) 64 \<and>
         TimeSeriesStampedF64_available (\<lambda>_. m) c = CyclicBufferReaderStampedF64_available (\<lambda>_. m) c \<and>
         CyclicBufferReaderStampedF64_capacity = 64 \<and> TimeSeriesStampedF64_capacity = 64 \<and>
         map_option fst (CyclicBufferReaderStampedF64_get_latest (\<lambda>_. m) c) = Some (record_object pad (last ss)) \<and>
         TimeSeriesStampedF64_get_latest (\<lambda>_. m) c = CyclicBufferReaderStampedF64_get_latest (\<lambda>_. m) c \<and>
         (unat i < min (length ss) 64 \<longrightarrow>
            map_option fst (CyclicBufferReaderStampedF64_get (\<lambda>_. m) i c) = Some (record_object pad (ss ! (length ss - 1 - unat i)))) \<and>
         map_option fst (CyclicBufferReaderStampedF64_try_get (\<lambda>_. m) i max_retries c) =
           Some (if unat i < min (length ss) 64 then Some (record_object pad (ss ! (length ss - 1 - unat i))) else None)"
proof -
  let ?b = "series_buf double_type py_capacity pad ss"
  have m: "m = cb_m ?b" using assms(3) by (simp add: record_series_eq)
  note win = f64.window [OF assms(1), of pad]
  have n: "length (cb_contents ?b) = min (length ss) 64" using win(2) by (simp add: py_capacity_def)
  have count: "unat (load_u64 m 0) = length ss" using win(2) by (simp add: m cb_count_def)
  obtain c1 where latest: "CyclicBufferReader_get_latest StampedF64 py_capacity (\<lambda>_. m) c = Some (record_object pad (last ss), c1)"
    using f64.series_latest [OF assms(1,2), of pad c] by (auto simp: TimeSeries_get_latest_def m StampedF64_def record_object_def)
  have avail: "unat (fst (CyclicBufferReader_available py_capacity (\<lambda>_. m) c)) = min (length ss) 64"
    using f64.series_available [OF assms(1), of pad c] by (simp add: TimeSeries_available_def m py_capacity_def)
  have nth: "cb_contents ?b ! unat i = record_object pad (ss ! (length ss - 1 - unat i))" if "unat i < min (length ss) 64"
    using f64.window_nth [OF assms(1), of "unat i" pad] that by (simp add: py_capacity_def record_object_def)
  have get: "map_option fst (CyclicBufferReader_get StampedF64 py_capacity (\<lambda>_. m) i c) = Some (record_object pad (ss ! (length ss - 1 - unat i)))"
    if "unat i < min (length ss) 64"
    using get_at_rest [OF win(1), of i c] nth that n by (auto simp: m StampedF64_def simp del: length_cb_contents nth_cb_contents)
  have try_get: "map_option fst (CyclicBufferReader_try_get StampedF64 py_capacity (\<lambda>_. m) i max_retries c) =
      Some (if unat i < min (length ss) 64 then Some (record_object pad (ss ! (length ss - 1 - unat i))) else None)"
    using try_get_at_rest [OF win(1), of i max_retries c] nth n by (auto simp: m StampedF64_def simp del: length_cb_contents nth_cb_contents)
  show ?thesis
    unfolding py_ring_defs TimeSeries_get_latest_def TimeSeries_available_def TimeSeries_total_writes_def TimeSeries_capacity_def
      CyclicBufferReader_capacity_def
    using count latest avail get try_get
    by (simp add: CyclicBufferWriter_total_writes_def CyclicBufferReader_total_writes_def py_capacity_def)
qed

theorem python_ring_methods_witness:
  "map_option fst (CyclicBufferReaderStampedF64_try_get (\<lambda>_. record_series (\<lambda>_. 0)
     [\<lparr>timestamp_ns = 1000, sequence = 7, stamped_data = replicate 8 1\<rparr>] zero_mem) 1 4 0) = Some None"
proof -
  let ?ss = "[\<lparr>timestamp_ns = 1000, sequence = 7, stamped_data = replicate 8 1\<rparr>]"
  have "recordable double_type ?ss" by (simp add: recordable_def object_of_def)
  from python_ring_methods [OF this _ refl, of "\<lambda>_. 0" 0 1 4] show ?thesis by simp
qed

end
